(* ===== verification/DS_Prelude.thy ===== *)
theory DS_Prelude
  imports Main "HOL-Library.Word" "HOL-Library.Char_ord" "HOL-Library.List_Lexorder"
begin

text \<open>
  Shared vocabulary of the development: machine integers, the ways a process of the
  system can stop, the containers and text streams of the C++ standard library that the
  sources use, and reachability for step relations.

  \<^item> \<open>u8\<close>, \<open>u16\<close>, \<open>u32\<close>, \<open>u64\<close>, \<open>i32\<close>: fixed-width integers; \<open>i32\<close> is a 32-bit
    pattern that is read with \<open>sint\<close>.
  \<^item> \<open>fault\<close>: a failed \<open>VERIFY\<close>, a call of \<open>exit\<close>, an access outside a buffer.
  \<^item> \<open>map_at\<close>, \<open>map_upd\<close>: \<open>operator[]\<close> of \<open>std::map\<close>, which creates missing entries.
  \<^item> \<open>print_nat\<close>, \<open>extract_word\<close>, \<open>extract_unsigned\<close>, \<open>getline\<close>: formatted output and
    input of numbers and words on streams.
  \<^item> \<open>reach\<close> and the locale \<open>step_invariant\<close>: reachable states of a step relation and
    the rule that an inductive invariant holds in all of them.
\<close>

unbundle bit_operations_syntax

section \<open>Machine integers\<close>

type_synonym u8 = "8 word"
type_synonym u16 = "16 word"
type_synonym u32 = "32 word"
type_synonym u64 = "64 word"
type_synonym i32 = "32 word"

named_theorems wire_simps \<open>encoders and decoders of the wire format\<close>
named_theorems inv_intros \<open>preservation of the components' invariants\<close>

lemma word_less_succ: "(x :: 'a::len word) + 1 \<noteq> 0 \<Longrightarrow> x < x + 1"
  using inc_less_eq_triv_imp [of x] by (auto simp: not_le [symmetric])

section \<open>Ways to stop\<close>

datatype fault =
    VerifyFailed   \<comment> \<open>\<open>VERIFY(expr)\<close> with a false expression, \<open>lang/verify.h\<close>\<close>
  | Exited nat     \<comment> \<open>\<open>exit(n)\<close>\<close>
  | OutOfBounds    \<comment> \<open>a read or write outside an allocated buffer\<close>

text \<open>Sequencing of computations that may stop the process.\<close>

definition bind_f :: "fault + 'a \<Rightarrow> ('a \<Rightarrow> fault + 'b) \<Rightarrow> fault + 'b" where
  "bind_f r f = (case r of Inl e \<Rightarrow> Inl e | Inr a \<Rightarrow> f a)"

definition VERIFY :: "bool \<Rightarrow> fault + unit" where
  "VERIFY b = (if b then Inr () else Inl VerifyFailed)"

lemma bind_f_simps [simp]:
  "bind_f (Inl e) f = Inl e"
  "bind_f (Inr a) f = f a"
  by (simp_all add: bind_f_def)

lemma bind_f_eq_Inr: "bind_f r f = Inr b \<longleftrightarrow> (\<exists>a. r = Inr a \<and> f a = Inr b)"
  by (cases r) simp_all

lemma bind_f_eq_Inl: "bind_f r f = Inl e \<longleftrightarrow> r = Inl e \<or> (\<exists>a. r = Inr a \<and> f a = Inl e)"
  by (cases r) simp_all

lemma VERIFY_simps [simp]:
  "VERIFY True = Inr ()"
  "VERIFY False = Inl VerifyFailed"
  by (simp_all add: VERIFY_def)

lemma VERIFY_eq_Inr [simp]: "VERIFY b = Inr u \<longleftrightarrow> b"
  by (simp add: VERIFY_def)

section \<open>\<open>std::map::operator[]\<close>\<close>

text \<open>
  Reading \<open>m[k]\<close> of a \<open>std::map\<close> yields the value-initialised element \<open>d\<close> when the key is
  missing (and inserts it); \<open>m[k].f = x\<close> updates the present or the new element.
\<close>

definition map_at :: "'v \<Rightarrow> ('k \<rightharpoonup> 'v) \<Rightarrow> 'k \<Rightarrow> 'v" where
  "map_at d m k = (case m k of None \<Rightarrow> d | Some v \<Rightarrow> v)"

definition map_upd :: "'v \<Rightarrow> 'k \<Rightarrow> ('v \<Rightarrow> 'v) \<Rightarrow> ('k \<rightharpoonup> 'v) \<Rightarrow> ('k \<rightharpoonup> 'v)" where
  "map_upd d k f m = m(k \<mapsto> f (map_at d m k))"

lemma map_at_Some [simp]: "m k = Some v \<Longrightarrow> map_at d m k = v"
  by (simp add: map_at_def)

lemma map_at_None [simp]: "m k = None \<Longrightarrow> map_at d m k = d"
  by (simp add: map_at_def)

lemma map_upd_same [simp]: "map_upd d k f m k = Some (f (map_at d m k))"
  by (simp add: map_upd_def)

lemma map_upd_other [simp]: "k' \<noteq> k \<Longrightarrow> map_upd d k f m k' = m k'"
  by (simp add: map_upd_def)

lemma dom_map_upd [simp]: "dom (map_upd d k f m) = insert k (dom m)"
  by (auto simp: map_upd_def)

lemma map_at_upd [simp]:
  "map_at d (map_upd d k f m) k' = (if k' = k then f (map_at d m k) else map_at d m k')"
  by (simp add: map_at_def map_upd_def)

lemma map_upd_twice [simp]: "map_upd d k g (map_upd d k f m) = map_upd d k (g \<circ> f) m"
  by (rule ext) (simp add: map_upd_def)

section \<open>Reachable states\<close>

inductive reach :: "('s \<Rightarrow> bool) \<Rightarrow> ('s \<Rightarrow> 's \<Rightarrow> bool) \<Rightarrow> 's \<Rightarrow> bool"
  for init :: "'s \<Rightarrow> bool" and step :: "'s \<Rightarrow> 's \<Rightarrow> bool" where
  reach_init: "init s \<Longrightarrow> reach init step s"
| reach_step: "reach init step s \<Longrightarrow> step s t \<Longrightarrow> reach init step t"

lemma reach_step_eq: "reach init step s \<Longrightarrow> step s t' \<Longrightarrow> t = t' \<Longrightarrow> reach init step t"
  by (simp add: reach_step)

text \<open>
  The contract of an inductive invariant: it holds initially and every step keeps it.
  Every component with a step relation provides an interpretation.
\<close>

locale step_invariant =
  fixes init :: "'s \<Rightarrow> bool" and step :: "'s \<Rightarrow> 's \<Rightarrow> bool" and inv :: "'s \<Rightarrow> bool"
  assumes inv_init: "init s \<Longrightarrow> inv s"
    and inv_step: "inv s \<Longrightarrow> step s t \<Longrightarrow> inv t"
begin

lemma reach_inv: "reach init step s \<Longrightarrow> inv s"
  by (induction rule: reach.induct) (auto intro: inv_init inv_step)

lemma steps_inv: "step\<^sup>*\<^sup>* s t \<Longrightarrow> inv s \<Longrightarrow> inv t"
  by (induction rule: rtranclp_induct) (auto intro: inv_step)

end

end
