(* ===== verification/Thr_Pool.thy ===== *)
theory Thr_Pool
  imports DS_Prelude
begin

text \<open>
  The bounded queue of \<^verbatim>\<open>rpc/fifo.h\<close> and the thread pool of \<^verbatim>\<open>rpc/thr_pool.cc\<close> and
  \<^verbatim>\<open>rpc/thr_pool.h\<close>. A call that would wait on a condition variable answers that it waits and
  leaves the queue unchanged; it is retried when the variable is signalled. The locale
  \<open>bounded_fifo\<close> states what the pool relies on.
\<close>

section \<open>\<open>fifo\<close>\<close>

record 'a fifo =
  q :: "'a list"
  max_cap :: nat   \<comment> \<open>\<open>max_\<close>; 0 is no limit\<close>

definition fifo_init :: "nat \<Rightarrow> 'a fifo" where
  "fifo_init m = \<lparr>q = [], max_cap = m\<rparr>"

definition fifo_size :: "'a fifo \<Rightarrow> bool" where
  "fifo_size f = (length (q f) \<noteq> 0)"

datatype enq_result = Enqueued | Refused | EnqWaits

definition enq :: "'a \<Rightarrow> bool \<Rightarrow> 'a fifo \<Rightarrow> enq_result \<times> 'a fifo" where
  "enq e blocking f =
     (if max_cap f = 0 \<or> length (q f) < max_cap f then (Enqueued, f\<lparr>q := q f @ [e]\<rparr>)
      else if blocking then (EnqWaits, f)
      else (Refused, f))"

text \<open>\<open>deq\<close>: \<open>None\<close> while the queue is empty; otherwise the element, and whether a waiting
  producer is signalled.\<close>

definition deq :: "'a fifo \<Rightarrow> ('a \<times> bool \<times> 'a fifo) option" where
  "deq f = (case q f of [] \<Rightarrow> None
     | e # es \<Rightarrow> Some (e, max_cap f \<noteq> 0 \<and> length es < max_cap f, f\<lparr>q := es\<rparr>))"

section \<open>\<open>ThrPool\<close>\<close>

record job_t =
  job_f :: "nat option"   \<comment> \<open>the function pointer; \<open>None\<close> is the poison pill\<close>
  job_a :: nat

record ThrPool =
  nthreads :: nat
  blockadd :: bool
  jobq :: "job_t fifo"
  workers :: nat         \<comment> \<open>worker threads that have not exited\<close>

definition ThrPool_init :: "nat \<Rightarrow> bool \<Rightarrow> ThrPool" where
  "ThrPool_init sz blocking =
     \<lparr>nthreads = sz, blockadd = blocking, jobq = fifo_init (100 * sz), workers = sz\<rparr>"

definition addJob :: "nat \<Rightarrow> nat \<Rightarrow> ThrPool \<Rightarrow> enq_result \<times> ThrPool" where
  "addJob f a tp =
     (case enq \<lparr>job_f = Some f, job_a = a\<rparr> (blockadd tp) (jobq tp) of
        (r, jq) \<Rightarrow> (r, tp\<lparr>jobq := jq\<rparr>))"

definition takeJob :: "ThrPool \<Rightarrow> (job_t \<times> bool \<times> ThrPool) option" where
  "takeJob tp =
     (case deq (jobq tp) of None \<Rightarrow> None
      | Some (j, _, jq) \<Rightarrow> Some (j, job_f j \<noteq> None, tp\<lparr>jobq := jq\<rparr>))"

text \<open>One round of \<open>do_worker\<close>: the job that is run, if any; a poison pill ends the thread.\<close>

definition do_worker_round :: "ThrPool \<Rightarrow> (job_t option \<times> ThrPool) option" where
  "do_worker_round tp =
     (if workers tp = 0 then None
      else case takeJob tp of None \<Rightarrow> None
        | Some (j, go, tp) \<Rightarrow> Some (if go then (Some j, tp) else (None, tp\<lparr>workers := workers tp - 1\<rparr>)))"

text \<open>The destructor enqueues a pill per thread, waiting when the queue is full.\<close>

definition pill :: job_t where
  "pill = \<lparr>job_f = None, job_a = 0\<rparr>"

definition put_pill :: "ThrPool \<Rightarrow> enq_result \<times> ThrPool" where
  "put_pill tp = (case enq pill True (jobq tp) of (r, jq) \<Rightarrow> (r, tp\<lparr>jobq := jq\<rparr>))"

section \<open>The contract of the queue\<close>

locale bounded_fifo =
  fixes enq_op :: "'a \<Rightarrow> bool \<Rightarrow> 'f \<Rightarrow> enq_result \<times> 'f"
    and deq_op :: "'f \<Rightarrow> ('a \<times> bool \<times> 'f) option"
    and contents_of :: "'f \<Rightarrow> 'a list"
    and cap :: "'f \<Rightarrow> nat"
  assumes enq_full: "cap f \<noteq> 0 \<Longrightarrow> cap f \<le> length (contents_of f) \<Longrightarrow>
      enq_op e b f = (if b then EnqWaits else Refused, f)"
    and enq_room: "cap f = 0 \<or> length (contents_of f) < cap f \<Longrightarrow>
      \<exists>f'. enq_op e b f = (Enqueued, f') \<and> contents_of f' = contents_of f @ [e] \<and> cap f' = cap f"
    and deq_empty: "deq_op f = None \<longleftrightarrow> contents_of f = []"
    and deq_some: "deq_op f = Some (e, sg, f') \<Longrightarrow> contents_of f = e # contents_of f' \<and> cap f' = cap f"
begin

definition within :: "'f \<Rightarrow> bool" where
  "within f \<longleftrightarrow> cap f = 0 \<or> length (contents_of f) \<le> cap f"

lemma enq_within: "within f \<Longrightarrow> enq_op e b f = (r, f') \<Longrightarrow> within f' \<and> cap f' = cap f"
  using enq_full [of f e b] enq_room [of f e b]
  by (cases "cap f = 0 \<or> length (contents_of f) < cap f") (auto simp: within_def)

lemma deq_within: "within f \<Longrightarrow> deq_op f = Some (e, sg, f') \<Longrightarrow> within f'"
  using deq_some [of f e sg f'] by (auto simp: within_def)

text \<open>Elements leave in the order in which they entered.\<close>

fun drain :: "nat \<Rightarrow> 'f \<Rightarrow> 'a list \<times> 'f" where
  "drain 0 f = ([], f)"
| "drain (Suc n) f = (case deq_op f of None \<Rightarrow> ([], f)
     | Some (e, _, f') \<Rightarrow> (case drain n f' of (es, f'') \<Rightarrow> (e # es, f'')))"

lemma drain_all: "length (contents_of f) \<le> n \<Longrightarrow> fst (drain n f) = contents_of f \<and> contents_of (snd (drain n f)) = []"
proof (induction n arbitrary: f)
  case (Suc n)
  show ?case
  proof (cases "deq_op f")
    case None
    then show ?thesis using deq_empty [of f] by simp
  next
    case (Some r)
    then obtain e sg f' where r: "deq_op f = Some (e, sg, f')" by (cases r) auto
    from deq_some [OF r] Suc.prems Suc.IH [of f'] r show ?thesis by (auto split: prod.split)
  qed
qed simp

end

interpretation job_fifo: bounded_fifo enq deq q max_cap
  by unfold_locales (auto simp: enq_def deq_def split: list.splits)

section \<open>Shutting the pool down\<close>

text \<open>All workers run until the queue is empty or all have exited; the jobs that were run.\<close>

fun run_workers :: "nat \<Rightarrow> ThrPool \<Rightarrow> job_t list \<times> ThrPool" where
  "run_workers 0 tp = ([], tp)"
| "run_workers (Suc n) tp = (case do_worker_round tp of None \<Rightarrow> ([], tp)
     | Some (j, tp') \<Rightarrow> (case run_workers n tp' of (js, tp'') \<Rightarrow> (case j of None \<Rightarrow> js | Some j \<Rightarrow> j # js, tp'')))"

lemma do_worker_round_Cons:
  assumes "q (jobq tp) = j # js" and "workers tp \<noteq> 0"
  shows "do_worker_round tp = Some (if job_f j \<noteq> None then (Some j, tp\<lparr>jobq := (jobq tp)\<lparr>q := js\<rparr>\<rparr>)
           else (None, tp\<lparr>jobq := (jobq tp)\<lparr>q := js\<rparr>, workers := workers tp - 1\<rparr>))"
  using assms by (simp add: do_worker_round_def takeJob_def deq_def)

lemma run_workers_shutdown:
  assumes "q (jobq tp) = js @ replicate (workers tp) pill" and "\<forall>j \<in> set js. job_f j \<noteq> None"
    and "n = length js + workers tp" and "workers tp = 0 \<Longrightarrow> js = []"
  shows "fst (run_workers n tp) = js \<and> workers (snd (run_workers n tp)) = 0 \<and>
         q (jobq (snd (run_workers n tp))) = []"
  using assms
proof (induction n arbitrary: tp js)
  case (Suc n)
  show ?case
  proof (cases js)
    case Nil
    with Suc.prems obtain k where k: "workers tp = Suc k" "n = k" by auto
    let ?tp = "tp\<lparr>jobq := (jobq tp)\<lparr>q := replicate k pill\<rparr>, workers := k\<rparr>"
    have "do_worker_round tp = Some (None, ?tp)"
      using Nil Suc.prems k by (simp add: do_worker_round_Cons pill_def)
    moreover have "fst (run_workers n ?tp) = [] \<and> workers (snd (run_workers n ?tp)) = 0 \<and>
        q (jobq (snd (run_workers n ?tp))) = []"
      using k by (intro Suc.IH) auto
    ultimately show ?thesis using Nil by (auto split: prod.split)
  next
    case (Cons j js')
    show ?thesis
    proof (cases "workers tp = 0")
      case False
      let ?tp = "tp\<lparr>jobq := (jobq tp)\<lparr>q := js' @ replicate (workers tp) pill\<rparr>\<rparr>"
      have "do_worker_round tp = Some (Some j, ?tp)"
        using Cons Suc.prems False by (simp add: do_worker_round_Cons)
      moreover have "fst (run_workers n ?tp) = js' \<and> workers (snd (run_workers n ?tp)) = 0 \<and>
          q (jobq (snd (run_workers n ?tp))) = []"
        using Cons Suc.prems by (intro Suc.IH) auto
      ultimately show ?thesis using Cons by (auto split: prod.split)
    qed (use Suc.prems Cons in \<open>auto simp: do_worker_round_def\<close>)
  qed
qed auto

lemma enqueue_jobs:
  assumes "length (q (jobq tp)) + length js \<le> max_cap (jobq tp)"
  shows "fold (\<lambda>(f, a) tp. snd (addJob f a tp)) js tp =
           tp\<lparr>jobq := (jobq tp)\<lparr>q := q (jobq tp) @ map (\<lambda>(f, a). \<lparr>job_f = Some f, job_a = a\<rparr>) js\<rparr>\<rparr>"
  using assms by (induction js arbitrary: tp) (auto simp: addJob_def enq_def)

lemma enqueue_pills:
  assumes "length (q (jobq tp)) + n \<le> max_cap (jobq tp)"
  shows "((snd \<circ> put_pill) ^^ n) tp = tp\<lparr>jobq := (jobq tp)\<lparr>q := q (jobq tp) @ replicate n pill\<rparr>\<rparr>"
  using assms by (induction n) (simp_all add: put_pill_def enq_def replicate_append_same)



end
