(* ===== verification/Marshall.thy ===== *)
theory Marshall
  imports DS_Prelude
begin

text \<open>
  The wire format of the RPC library: \<^verbatim>\<open>rpc/marshall.h\<close> and the marshalling part of
  \<^verbatim>\<open>rpc/rpc.cc\<close>. A \<open>marshall\<close> object owns a growing buffer; its cells are \<open>None\<close> while
  nothing has been stored there (memory from \<open>malloc\<close> or \<open>realloc\<close>). An \<open>unmarshall\<close>
  object reads a received buffer and remembers in \<open>_ok\<close> whether it ran past its end.
  The byte-level facts are stated once as \<open>writes\<close> and \<open>reads\<close> rules; the locale \<open>codec\<close>
  is the contract between the \<open><<\<close> and the \<open>>>\<close> operator of a type, and every type of the
  wire protocols provides an interpretation.
\<close>

section \<open>Headers\<close>

record req_header =
  rq_xid :: i32
  rq_proc :: i32
  rq_clt_nonce :: u32
  rq_srv_nonce :: u32
  rq_xid_rep :: i32

record reply_header =
  rp_xid :: i32
  rp_ret :: i32

definition static_max :: "nat \<Rightarrow> nat \<Rightarrow> nat" where
  "static_max A B = (if A > B then A else B)"

text \<open>\<open>sizeof\<close> of the two structs and of \<open>rpc_sz_t\<close>; checksumming is not compiled in.\<close>

definition sizeof_req_header :: nat where "sizeof_req_header = 5 * 4"
definition sizeof_reply_header :: nat where "sizeof_reply_header = 2 * 4"
definition sizeof_rpc_sz_t :: nat where "sizeof_rpc_sz_t = 4"

definition DEFAULT_RPC_SZ :: nat where
  "DEFAULT_RPC_SZ = 1024"

definition RPC_HEADER_SZ :: nat where
  "RPC_HEADER_SZ = static_max sizeof_req_header sizeof_reply_header + sizeof_rpc_sz_t"

lemma RPC_HEADER_SZ_eq: "RPC_HEADER_SZ = 24"
  by (simp add: RPC_HEADER_SZ_def static_max_def sizeof_req_header_def sizeof_reply_header_def
      sizeof_rpc_sz_t_def)

section \<open>The output buffer\<close>

type_synonym cell = "u8 option"

record marshall =
  m_buf :: "cell list option"   \<comment> \<open>\<open>_buf\<close>; \<open>None\<close> is the null pointer\<close>
  m_capa :: nat                 \<comment> \<open>\<open>_capa\<close>\<close>
  m_ind :: nat                  \<comment> \<open>\<open>_ind\<close>\<close>

definition marshall_init :: marshall where
  "marshall_init = \<lparr>m_buf = Some (replicate DEFAULT_RPC_SZ None), m_capa = DEFAULT_RPC_SZ,
                    m_ind = RPC_HEADER_SZ\<rparr>"

text \<open>\<open>realloc\<close> to a larger size keeps the old cells; the new ones are indeterminate.\<close>

definition realloc :: "cell list \<Rightarrow> nat \<Rightarrow> cell list" where
  "realloc b n = take n b @ replicate (n - length b) None"

definition grow :: "nat \<Rightarrow> marshall \<Rightarrow> fault + marshall" where
  "grow capa m = (case m_buf m of
       None \<Rightarrow> Inl VerifyFailed
     | Some b \<Rightarrow> Inr (m\<lparr>m_capa := capa, m_buf := Some (realloc b capa)\<rparr>))"

text \<open>A store of bytes at \<open>_buf + _ind\<close> that also advances \<open>_ind\<close>.\<close>

definition store :: "u8 list \<Rightarrow> marshall \<Rightarrow> fault + marshall" where
  "store xs m = (case m_buf m of
       None \<Rightarrow> Inl OutOfBounds
     | Some b \<Rightarrow>
         if m_ind m + length xs \<le> length b
         then Inr (m\<lparr>m_buf := Some (take (m_ind m) b @ map Some xs @ drop (m_ind m + length xs) b),
                     m_ind := m_ind m + length xs\<rparr>)
         else Inl OutOfBounds)"

definition rawbyte :: "u8 \<Rightarrow> marshall \<Rightarrow> fault + marshall" where
  "rawbyte x m =
     bind_f (if m_ind m \<ge> m_capa m then grow (m_capa m * 2) m else Inr m) (store [x])"

definition rawbytes :: "u8 list \<Rightarrow> marshall \<Rightarrow> fault + marshall" where
  "rawbytes p m =
     (let n = length p in
      bind_f (if m_ind m + n > m_capa m
              then grow (if m_capa m > n then 2 * m_capa m else m_capa m + n) m
              else Inr m) (store p))"

definition take_buf_m :: "marshall \<Rightarrow> (cell list option \<times> nat) \<times> marshall" where
  "take_buf_m m = ((m_buf m, m_ind m), m\<lparr>m_buf := None, m_ind := 0\<rparr>)"

definition get_content :: "marshall \<Rightarrow> cell list" where
  "get_content m = (case m_buf m of None \<Rightarrow> []
      | Some b \<Rightarrow> take (m_ind m - RPC_HEADER_SZ) (drop RPC_HEADER_SZ b))"

section \<open>The \<open><<\<close> operators of the basic types\<close>

definition bytes_of_string :: "string \<Rightarrow> u8 list" where
  "bytes_of_string = map of_char"

definition string_of_bytes :: "u8 list \<Rightarrow> string" where
  "string_of_bytes = map (\<lambda>b. char_of (unat b))"

definition put_bool :: "bool \<Rightarrow> marshall \<Rightarrow> fault + marshall" where
  "put_bool x = rawbyte (if x then 1 else 0)"

definition put_u8 :: "u8 \<Rightarrow> marshall \<Rightarrow> fault + marshall" where
  "put_u8 x = rawbyte x"

definition put_char :: "u8 \<Rightarrow> marshall \<Rightarrow> fault + marshall" where
  "put_char x = put_u8 x"

definition put_u16 :: "u16 \<Rightarrow> marshall \<Rightarrow> fault + marshall" where
  "put_u16 x m = bind_f (rawbyte (ucast (drop_bit 8 x AND 0xff)) m) (rawbyte (ucast (x AND 0xff)))"

definition put_i16 :: "u16 \<Rightarrow> marshall \<Rightarrow> fault + marshall" where
  "put_i16 x = put_u16 x"

definition put_u32 :: "u32 \<Rightarrow> marshall \<Rightarrow> fault + marshall" where
  "put_u32 x m =
     bind_f (rawbyte (ucast (drop_bit 24 x AND 0xff)) m) (\<lambda>m.
     bind_f (rawbyte (ucast (drop_bit 16 x AND 0xff)) m) (\<lambda>m.
     bind_f (rawbyte (ucast (drop_bit 8 x AND 0xff)) m) (\<lambda>m.
     rawbyte (ucast (x AND 0xff)) m)))"

definition put_i32 :: "i32 \<Rightarrow> marshall \<Rightarrow> fault + marshall" where
  "put_i32 x = put_u32 x"

definition put_string :: "string \<Rightarrow> marshall \<Rightarrow> fault + marshall" where
  "put_string s m =
     bind_f (put_u32 (of_nat (length s)) m) (rawbytes (bytes_of_string s))"

definition put_u64 :: "u64 \<Rightarrow> marshall \<Rightarrow> fault + marshall" where
  "put_u64 x m = bind_f (put_u32 (ucast (drop_bit 32 x)) m) (put_u32 (ucast x))"

definition pack :: "i32 \<Rightarrow> marshall \<Rightarrow> fault + marshall" where
  "pack x m =
     bind_f (rawbyte (ucast (signed_drop_bit 24 x AND 0xff)) m) (\<lambda>m.
     bind_f (rawbyte (ucast (signed_drop_bit 16 x AND 0xff)) m) (\<lambda>m.
     bind_f (rawbyte (ucast (signed_drop_bit 8 x AND 0xff)) m) (\<lambda>m.
     rawbyte (ucast (x AND 0xff)) m)))"

definition pack_req_header :: "req_header \<Rightarrow> marshall \<Rightarrow> fault + marshall" where
  "pack_req_header h m =
     (let saved_sz = m_ind m in
      bind_f (pack (rq_xid h) (m\<lparr>m_ind := sizeof_rpc_sz_t\<rparr>)) (\<lambda>m.
      bind_f (pack (rq_proc h) m) (\<lambda>m.
      bind_f (pack (rq_clt_nonce h) m) (\<lambda>m.
      bind_f (pack (rq_srv_nonce h) m) (\<lambda>m.
      bind_f (pack (rq_xid_rep h) m) (\<lambda>m.
      Inr (m\<lparr>m_ind := saved_sz\<rparr>)))))))"

definition pack_reply_header :: "reply_header \<Rightarrow> marshall \<Rightarrow> fault + marshall" where
  "pack_reply_header h m =
     (let saved_sz = m_ind m in
      bind_f (pack (rp_xid h) (m\<lparr>m_ind := sizeof_rpc_sz_t\<rparr>)) (\<lambda>m.
      bind_f (pack (rp_ret h) m) (\<lambda>m.
      Inr (m\<lparr>m_ind := saved_sz\<rparr>))))"

text \<open>\<open>operator<<(marshall&, std::vector<C>)\<close>.\<close>

fun put_elems :: "('a \<Rightarrow> marshall \<Rightarrow> fault + marshall) \<Rightarrow> 'a list \<Rightarrow> marshall \<Rightarrow> fault + marshall" where
  "put_elems put [] m = Inr m"
| "put_elems put (x # xs) m = bind_f (put x m) (put_elems put xs)"

definition put_vector ::
  "('a \<Rightarrow> marshall \<Rightarrow> fault + marshall) \<Rightarrow> 'a list \<Rightarrow> marshall \<Rightarrow> fault + marshall" where
  "put_vector put v m = bind_f (put_u32 (of_nat (length v)) m) (put_elems put v)"

text \<open>
  \<open>operator<<(marshall&, std::map<A,B>)\<close>; the map is given as its list of pairs in
  iteration order.
\<close>

definition put_map ::
  "('a \<Rightarrow> marshall \<Rightarrow> fault + marshall) \<Rightarrow> ('b \<Rightarrow> marshall \<Rightarrow> fault + marshall) \<Rightarrow>
   ('a \<times> 'b) list \<Rightarrow> marshall \<Rightarrow> fault + marshall" where
  "put_map putA putB d m =
     bind_f (put_u32 (of_nat (length d)) m)
       (put_elems (\<lambda>(a, b) m. bind_f (putA a m) (putB b)) d)"

section \<open>The input buffer\<close>

record unmarshall =
  u_buf :: "u8 list"   \<comment> \<open>the bytes at \<open>_buf\<close>; empty for the null pointer\<close>
  u_sz :: nat          \<comment> \<open>\<open>_sz\<close>\<close>
  u_ind :: nat         \<comment> \<open>\<open>_ind\<close>\<close>
  u_ok :: bool         \<comment> \<open>\<open>_ok\<close>\<close>

definition unmarshall_empty :: unmarshall where
  "unmarshall_empty = \<lparr>u_buf = [], u_sz = 0, u_ind = 0, u_ok = False\<rparr>"

definition unmarshall_init :: "u8 list \<Rightarrow> nat \<Rightarrow> unmarshall" where
  "unmarshall_init b sz = \<lparr>u_buf = b, u_sz = sz, u_ind = 0, u_ok = True\<rparr>"

text \<open>\<open>junk\<close> are the indeterminate bytes of the header area that \<open>realloc\<close> leaves.\<close>

definition take_content :: "u8 list \<Rightarrow> string \<Rightarrow> unmarshall \<Rightarrow> unmarshall" where
  "take_content junk s u =
     u\<lparr>u_sz := length s + RPC_HEADER_SZ, u_buf := junk @ bytes_of_string s,
       u_ind := RPC_HEADER_SZ, u_ok := True\<rparr>"

definition take_buf_u :: "unmarshall \<Rightarrow> (u8 list \<times> nat) \<times> unmarshall" where
  "take_buf_u u = ((u_buf u, u_sz u), u\<lparr>u_sz := 0, u_ind := 0, u_buf := []\<rparr>)"

definition take_in :: "unmarshall \<Rightarrow> unmarshall \<Rightarrow> unmarshall \<times> unmarshall" where
  "take_in u another =
     (case take_buf_u another of ((b, sz), another') \<Rightarrow>
       (u\<lparr>u_buf := b, u_sz := sz, u_ind := RPC_HEADER_SZ, u_ok := (sz \<ge> RPC_HEADER_SZ)\<rparr>, another'))"

definition okdone :: "unmarshall \<Rightarrow> bool" where
  "okdone u = (u_ok u \<and> u_ind u = u_sz u)"

text \<open>\<open>unmarshall::rawbyte\<close>: a plain \<open>char\<close> is signed, so the result is sign-extended.\<close>

definition rawbyte_u :: "unmarshall \<Rightarrow> fault + (u32 \<times> unmarshall)" where
  "rawbyte_u u =
     (if u_ind u \<ge> u_sz u then Inr (0, u\<lparr>u_ok := False\<rparr>)
      else if u_ind u < length (u_buf u)
      then Inr (scast (u_buf u ! u_ind u), u\<lparr>u_ind := u_ind u + 1\<rparr>)
      else Inl OutOfBounds)"

text \<open>
  \<open>unmarshall::rawbytes\<close>: the bound check is in 32-bit unsigned arithmetic; the copy then
  needs \<open>n\<close> readable bytes.
\<close>

definition rawbytes_u :: "string \<Rightarrow> u32 \<Rightarrow> unmarshall \<Rightarrow> fault + (string \<times> unmarshall)" where
  "rawbytes_u ss n u =
     (if of_nat (u_ind u) + n > (of_nat (u_sz u) :: u32) then Inr (ss, u\<lparr>u_ok := False\<rparr>)
      else if u_ind u + unat n \<le> length (u_buf u)
      then Inr (string_of_bytes (take (unat n) (drop (u_ind u) (u_buf u))),
                u\<lparr>u_ind := u_ind u + unat n\<rparr>)
      else Inl OutOfBounds)"

section \<open>The \<open>>>\<close> operators of the basic types\<close>

definition get_bool :: "unmarshall \<Rightarrow> fault + (bool \<times> unmarshall)" where
  "get_bool u = bind_f (rawbyte_u u) (\<lambda>(b, u). Inr (b \<noteq> 0, u))"

definition get_u8 :: "unmarshall \<Rightarrow> fault + (u8 \<times> unmarshall)" where
  "get_u8 u = bind_f (rawbyte_u u) (\<lambda>(b, u). Inr (ucast b, u))"

definition get_char_u :: "unmarshall \<Rightarrow> fault + (u8 \<times> unmarshall)" where
  "get_char_u u = bind_f (rawbyte_u u) (\<lambda>(b, u). Inr (ucast b, u))"

definition get_u16 :: "unmarshall \<Rightarrow> fault + (u16 \<times> unmarshall)" where
  "get_u16 u =
     bind_f (rawbyte_u u) (\<lambda>(b1, u).
     bind_f (rawbyte_u u) (\<lambda>(b0, u).
     Inr (ucast (push_bit 8 (b1 AND 0xff)) OR ucast (b0 AND 0xff), u)))"

definition get_i16 :: "unmarshall \<Rightarrow> fault + (u16 \<times> unmarshall)" where
  "get_i16 u =
     bind_f (rawbyte_u u) (\<lambda>(b1, u).
     bind_f (rawbyte_u u) (\<lambda>(b0, u).
     Inr (ucast (push_bit 8 (b1 AND 0xff)) OR ucast (b0 AND 0xff), u)))"

definition get_u32 :: "unmarshall \<Rightarrow> fault + (u32 \<times> unmarshall)" where
  "get_u32 u =
     bind_f (rawbyte_u u) (\<lambda>(b3, u).
     bind_f (rawbyte_u u) (\<lambda>(b2, u).
     bind_f (rawbyte_u u) (\<lambda>(b1, u).
     bind_f (rawbyte_u u) (\<lambda>(b0, u).
     Inr (((push_bit 24 (b3 AND 0xff) OR push_bit 16 (b2 AND 0xff))
            OR push_bit 8 (b1 AND 0xff)) OR (b0 AND 0xff), u)))))"

definition get_i32 :: "unmarshall \<Rightarrow> fault + (i32 \<times> unmarshall)" where
  "get_i32 u = get_u32 u"

definition unpack :: "unmarshall \<Rightarrow> fault + (i32 \<times> unmarshall)" where
  "unpack u = get_u32 u"

definition get_u64 :: "unmarshall \<Rightarrow> fault + (u64 \<times> unmarshall)" where
  "get_u64 u =
     bind_f (get_u32 u) (\<lambda>(h, u).
     bind_f (get_u32 u) (\<lambda>(l, u).
     Inr (ucast l OR push_bit 32 (ucast h), u)))"

text \<open>The string that is read into keeps its old value \<open>s\<close> when the input is too short.\<close>

definition get_string :: "string \<Rightarrow> unmarshall \<Rightarrow> fault + (string \<times> unmarshall)" where
  "get_string s u =
     bind_f (get_u32 u) (\<lambda>(sz, u). if u_ok u then rawbytes_u s sz u else Inr (s, u))"

fun get_elems ::
  "(unmarshall \<Rightarrow> fault + ('a \<times> unmarshall)) \<Rightarrow> nat \<Rightarrow> unmarshall \<Rightarrow> fault + ('a list \<times> unmarshall)" where
  "get_elems get 0 u = Inr ([], u)"
| "get_elems get (Suc n) u =
     bind_f (get u) (\<lambda>(z, u). bind_f (get_elems get n u) (\<lambda>(zs, u). Inr (z # zs, u)))"

text \<open>\<open>operator>>(unmarshall&, std::vector<C>&)\<close>; \<open>get\<close> reads into a fresh \<open>C z\<close>.\<close>

definition get_vector ::
  "(unmarshall \<Rightarrow> fault + ('a \<times> unmarshall)) \<Rightarrow> unmarshall \<Rightarrow> fault + ('a list \<times> unmarshall)" where
  "get_vector get u = bind_f (get_u32 u) (\<lambda>(n, u). get_elems get (unat n) u)"

text \<open>\<open>operator>>(unmarshall&, std::map<A,B>&)\<close>: the pairs are stored one after the other.\<close>

definition get_map ::
  "(unmarshall \<Rightarrow> fault + ('a \<times> unmarshall)) \<Rightarrow> (unmarshall \<Rightarrow> fault + ('b \<times> unmarshall)) \<Rightarrow>
   unmarshall \<Rightarrow> fault + (('a \<rightharpoonup> 'b) \<times> unmarshall)" where
  "get_map getA getB u =
     bind_f (get_u32 u) (\<lambda>(n, u).
     bind_f (get_elems (\<lambda>u. bind_f (getA u) (\<lambda>(a, u). bind_f (getB u) (\<lambda>(b, u). Inr ((a, b), u))))
               (unat n) u) (\<lambda>(ps, u).
     Inr (fold (\<lambda>(a, b) d. d(a \<mapsto> b)) ps Map.empty, u)))"

definition unpack_req_header :: "unmarshall \<Rightarrow> fault + (req_header \<times> unmarshall)" where
  "unpack_req_header u =
     bind_f (unpack (u\<lparr>u_ind := sizeof_rpc_sz_t\<rparr>)) (\<lambda>(x, u).
     bind_f (unpack u) (\<lambda>(p, u).
     bind_f (unpack u) (\<lambda>(c, u).
     bind_f (unpack u) (\<lambda>(s, u).
     bind_f (unpack u) (\<lambda>(xi, u).
     Inr (\<lparr>rq_xid = x, rq_proc = p, rq_clt_nonce = c, rq_srv_nonce = s, rq_xid_rep = xi\<rparr>,
          u\<lparr>u_ind := RPC_HEADER_SZ\<rparr>))))))"

definition unpack_reply_header :: "unmarshall \<Rightarrow> fault + (reply_header \<times> unmarshall)" where
  "unpack_reply_header u =
     bind_f (unpack (u\<lparr>u_ind := sizeof_rpc_sz_t\<rparr>)) (\<lambda>(x, u).
     bind_f (unpack u) (\<lambda>(r, u).
     Inr (\<lparr>rp_xid = x, rp_ret = r\<rparr>, u\<lparr>u_ind := RPC_HEADER_SZ\<rparr>)))"

section \<open>Bytes and words\<close>

lemma ff_mask: "(0xff :: 'a::len word) = mask 8"
  by (simp add: mask_eq_exp_minus_1)

lemma scast_byte_and_ff [wire_simps]: "(scast (b :: u8) :: u32) AND 0xff = ucast b"
  unfolding ff_mask
proof (rule bit_word_eqI)
  fix n assume "n < LENGTH(32)"
  then show "bit ((scast b :: u32) AND mask 8) n = bit (ucast b :: u32) n"
    by (cases "n \<le> 7") (auto simp: bit_simps min_absorb2 dest: bit_imp_le_length)
qed

lemma ucast_scast_byte [wire_simps]: "ucast (scast (b :: u8) :: u32) = b"
  by (rule bit_word_eqI) (simp add: bit_simps min_absorb2)

lemma scast_byte_eq_0 [wire_simps]: "(scast (b :: u8) :: u32) = 0 \<longleftrightarrow> b = 0"
  using ucast_scast_byte [of b] by (metis signed_0 unsigned_0)

lemma u16_of_bytes [wire_simps]:
  "ucast (push_bit 8 (ucast (ucast (drop_bit 8 (x :: u16) AND 0xff) :: u8) :: u32))
     OR ucast (ucast (ucast (x AND 0xff) :: u8) :: u32) = x" (is "?l = x")
proof (rule bit_word_eqI)
  fix n assume n: "n < LENGTH(16)"
  consider "n < 8" | "8 \<le> n" by linarith
  then show "bit ?l n = bit x n"
    using n unfolding ff_mask by cases (auto simp: bit_simps not_le)
qed

lemma u32_of_bytes [wire_simps]:
  "((push_bit 24 (ucast (ucast (drop_bit 24 x AND 0xff) :: u8) :: u32)
     OR push_bit 16 (ucast (ucast (drop_bit 16 x AND 0xff) :: u8)))
     OR push_bit 8 (ucast (ucast (drop_bit 8 x AND 0xff) :: u8)))
     OR ucast (ucast (x AND 0xff) :: u8) = x" (is "?l = x")
proof (rule bit_word_eqI)
  fix n assume n: "n < LENGTH(32)"
  consider "n < 8" | "8 \<le> n \<and> n < 16" | "16 \<le> n \<and> n < 24" | "24 \<le> n" by linarith
  then show "bit ?l n = bit x n"
    using n unfolding ff_mask by cases (auto simp: bit_simps not_le)
qed

lemma u64_of_words [wire_simps]:
  "ucast (ucast (x :: u64) :: u32) OR push_bit 32 (ucast (ucast (drop_bit 32 x) :: u32)) = x"
  (is "?l = x")
proof (rule bit_word_eqI)
  fix n assume n: "n < LENGTH(64)"
  consider "n < 32" | "32 \<le> n" by linarith
  then show "bit ?l n = bit x n"
    using n by cases (auto simp: bit_simps not_le)
qed

lemma signed_drop_byte [wire_simps]:
  "k \<le> 24 \<Longrightarrow>
   (ucast (signed_drop_bit k (x :: u32) AND 0xff) :: u8) = ucast (drop_bit k x AND 0xff)"
  unfolding ff_mask by (rule bit_word_eqI) (auto simp: bit_simps min_def)

lemma char_of_byte_of_char [simp]: "char_of (unat (of_char c :: u8)) = c"
proof -
  have "(of_char c :: u8) = of_nat (of_char c)"
    by (simp add: of_nat_of_char)
  moreover have "(of_char c :: nat) < 256"
    using nat_of_char_less_256 by simp
  ultimately have "unat (of_char c :: u8) = of_char c"
    by (simp add: unat_of_nat)
  then show ?thesis by simp
qed

lemma string_of_bytes_of_string [simp]: "string_of_bytes (bytes_of_string s) = s"
  by (induction s) (simp_all add: string_of_bytes_def bytes_of_string_def)

lemma length_bytes_of_string [simp]: "length (bytes_of_string s) = length s"
  by (simp add: bytes_of_string_def)

section \<open>Writing\<close>

text \<open>Well-formed output buffers: the allocation has \<open>_capa\<close> cells and the head is inside.\<close>

definition mwf :: "marshall \<Rightarrow> bool" where
  "mwf m \<longleftrightarrow> (case m_buf m of None \<Rightarrow> False
                 | Some b \<Rightarrow> length b = m_capa m \<and> m_ind m \<le> m_capa m \<and> 0 < m_capa m)"

text \<open>The allocation is at most twice what has been written (or the initial one).\<close>

definition capa_ok :: "marshall \<Rightarrow> bool" where
  "capa_ok m \<longleftrightarrow> m_capa m \<le> max DEFAULT_RPC_SZ (2 * m_ind m)"

definition contents :: "marshall \<Rightarrow> cell list" where
  "contents m = (case m_buf m of None \<Rightarrow> [] | Some b \<Rightarrow> take (m_ind m) b)"

definition writes :: "(marshall \<Rightarrow> fault + marshall) \<Rightarrow> u8 list \<Rightarrow> bool" where
  "writes f bs \<longleftrightarrow>
     (\<forall>m. mwf m \<longrightarrow> (\<exists>m'. f m = Inr m' \<and> mwf m' \<and> contents m' = contents m @ map Some bs \<and>
                          m_ind m' = m_ind m + length bs \<and> (capa_ok m \<longrightarrow> capa_ok m')))"

text \<open>Stores that stay inside the allocation; this is how the headers are filled in.\<close>

definition stores :: "(marshall \<Rightarrow> fault + marshall) \<Rightarrow> u8 list \<Rightarrow> bool" where
  "stores f bs \<longleftrightarrow> (\<forall>m. mwf m \<longrightarrow> m_ind m + length bs \<le> m_capa m \<longrightarrow> f m = store bs m)"

lemma mwf_init: "mwf marshall_init" "capa_ok marshall_init"
  "contents marshall_init = replicate RPC_HEADER_SZ None"
  by (simp_all add: mwf_def marshall_init_def DEFAULT_RPC_SZ_def RPC_HEADER_SZ_eq capa_ok_def
      contents_def)

lemma store_in_bounds:
  assumes "mwf m" and "m_ind m + length xs \<le> m_capa m"
  shows "\<exists>m'. store xs m = Inr m' \<and> mwf m' \<and> contents m' = contents m @ map Some xs \<and>
           m_ind m' = m_ind m + length xs \<and> m_capa m' = m_capa m"
  using assms by (auto simp: store_def mwf_def contents_def min_absorb2 split: option.splits)

lemma store_append:
  assumes "mwf m" and "m_ind m + length (xs @ ys) \<le> m_capa m"
  shows "bind_f (store xs m) (store ys) = store (xs @ ys) m"
  using assms
  by (auto simp: store_def mwf_def min_absorb2 drop_drop ac_simps split: option.splits)

lemma grow_ok:
  assumes "mwf m" and "m_capa m \<le> n"
  shows "\<exists>m'. grow n m = Inr m' \<and> mwf m' \<and> contents m' = contents m \<and> m_ind m' = m_ind m \<and>
           m_capa m' = n"
  using assms by (auto simp: grow_def mwf_def contents_def realloc_def split: option.splits)

lemma writes_rawbyte: "writes (rawbyte x) [x]"
  unfolding writes_def
proof (intro allI impI)
  fix m assume m: "mwf m"
  define g where "g = (if m_ind m \<ge> m_capa m then grow (m_capa m * 2) m else Inr m)"
  have "\<exists>m1. g = Inr m1 \<and> mwf m1 \<and> contents m1 = contents m \<and> m_ind m1 = m_ind m \<and>
      m_ind m1 + 1 \<le> m_capa m1 \<and> (m_capa m1 = m_capa m \<or> m_capa m1 = 2 * m_ind m)"
  proof (cases "m_ind m \<ge> m_capa m")
    case True
    with m have "m_ind m = m_capa m" "0 < m_capa m" by (auto simp: mwf_def split: option.splits)
    with True grow_ok [OF m, of "m_capa m * 2"] show ?thesis by (auto simp: g_def)
  next
    case False
    with m show ?thesis by (auto simp: g_def)
  qed
  then obtain m1 where m1: "g = Inr m1" "mwf m1" "contents m1 = contents m" "m_ind m1 = m_ind m"
      "m_ind m1 + length [x] \<le> m_capa m1" "m_capa m1 = m_capa m \<or> m_capa m1 = 2 * m_ind m"
    by auto
  from store_in_bounds [OF m1(2,5)] m1
  show "\<exists>m'. rawbyte x m = Inr m' \<and> mwf m' \<and> contents m' = contents m @ map Some [x] \<and>
      m_ind m' = m_ind m + length [x] \<and> (capa_ok m \<longrightarrow> capa_ok m')"
    by (auto simp: rawbyte_def g_def [symmetric] capa_ok_def)
qed

lemma writes_rawbytes: "writes (rawbytes xs) xs"
  unfolding writes_def
proof (intro allI impI)
  fix m assume m: "mwf m"
  define c where "c = (if m_capa m > length xs then 2 * m_capa m else m_capa m + length xs)"
  define g where "g = (if m_ind m + length xs > m_capa m then grow c m else Inr m)"
  have le: "m_ind m \<le> m_capa m" using m by (auto simp: mwf_def split: option.splits)
  have "\<exists>m1. g = Inr m1 \<and> mwf m1 \<and> contents m1 = contents m \<and> m_ind m1 = m_ind m \<and>
      m_ind m1 + length xs \<le> m_capa m1 \<and>
      (m_capa m1 = m_capa m \<or> m_capa m1 \<le> 2 * (m_ind m + length xs))"
  proof (cases "m_ind m + length xs > m_capa m")
    case True
    have "m_capa m \<le> c" by (simp add: c_def)
    from grow_ok [OF m this] True le show ?thesis by (auto simp: g_def c_def split: if_splits)
  next
    case False
    with m show ?thesis by (auto simp: g_def)
  qed
  then obtain m1 where m1: "g = Inr m1" "mwf m1" "contents m1 = contents m" "m_ind m1 = m_ind m"
      "m_ind m1 + length xs \<le> m_capa m1"
      "m_capa m1 = m_capa m \<or> m_capa m1 \<le> 2 * (m_ind m + length xs)"
    by auto
  have eq: "rawbytes xs m = bind_f g (store xs)"
    by (simp add: rawbytes_def g_def c_def Let_def)
  from store_in_bounds [OF m1(2,5)] m1 eq
  show "\<exists>m'. rawbytes xs m = Inr m' \<and> mwf m' \<and> contents m' = contents m @ map Some xs \<and>
      m_ind m' = m_ind m + length xs \<and> (capa_ok m \<longrightarrow> capa_ok m')"
    by (auto simp: capa_ok_def)
qed

lemma writes_Nil: "writes Inr []"
  by (simp add: writes_def)

lemma writes_bind:
  assumes "writes f as" and "writes g bs"
  shows "writes (\<lambda>m. bind_f (f m) g) (as @ bs)"
  unfolding writes_def
proof (intro allI impI)
  fix m assume "mwf m"
  with assms(1) obtain m1 where 1: "f m = Inr m1" "mwf m1" "contents m1 = contents m @ map Some as"
      "m_ind m1 = m_ind m + length as" "capa_ok m \<longrightarrow> capa_ok m1"
    unfolding writes_def by blast
  with assms(2) obtain m2 where "g m1 = Inr m2" "mwf m2" "contents m2 = contents m1 @ map Some bs"
      "m_ind m2 = m_ind m1 + length bs" "capa_ok m1 \<longrightarrow> capa_ok m2"
    unfolding writes_def by blast
  with 1 show "\<exists>m'. bind_f (f m) g = Inr m' \<and> mwf m' \<and> contents m' = contents m @ map Some (as @ bs) \<and>
      m_ind m' = m_ind m + length (as @ bs) \<and> (capa_ok m \<longrightarrow> capa_ok m')"
    by auto
qed

lemma stores_rawbyte: "stores (rawbyte x) [x]"
  by (auto simp: stores_def rawbyte_def mwf_def split: option.splits)

lemma stores_bind:
  assumes "stores f as" and "stores g bs"
  shows "stores (\<lambda>m. bind_f (f m) g) (as @ bs)"
  unfolding stores_def
proof (intro allI impI)
  fix m assume m: "mwf m" and le: "m_ind m + length (as @ bs) \<le> m_capa m"
  then have le': "m_ind m + length as \<le> m_capa m" by simp
  with assms(1) m have f: "f m = store as m" by (auto simp: stores_def)
  from store_in_bounds [OF m le'] obtain m1 where m1: "store as m = Inr m1" "mwf m1"
      "m_ind m1 = m_ind m + length as" "m_capa m1 = m_capa m" by blast
  with le have "m_ind m1 + length bs \<le> m_capa m1" by simp
  with assms(2) m1(2) have "g m1 = store bs m1" by (auto simp: stores_def)
  with f m1(1) store_append [OF m le] show "bind_f (f m) g = store (as @ bs) m" by simp
qed

text \<open>The bytes that each basic type occupies on the wire.\<close>

definition enc_u32 :: "u32 \<Rightarrow> u8 list" where
  "enc_u32 x = [ucast (drop_bit 24 x AND 0xff), ucast (drop_bit 16 x AND 0xff),
                ucast (drop_bit 8 x AND 0xff), ucast (x AND 0xff)]"

definition enc_bool :: "bool \<Rightarrow> u8 list" where
  "enc_bool x = [if x then 1 else 0]"

definition enc_u16 :: "u16 \<Rightarrow> u8 list" where
  "enc_u16 x = [ucast (drop_bit 8 x AND 0xff), ucast (x AND 0xff)]"

definition enc_u64 :: "u64 \<Rightarrow> u8 list" where
  "enc_u64 x = enc_u32 (ucast (drop_bit 32 x)) @ enc_u32 (ucast x)"

definition enc_string :: "string \<Rightarrow> u8 list" where
  "enc_string s = enc_u32 (of_nat (length s)) @ bytes_of_string s"

definition enc_vector :: "('a \<Rightarrow> u8 list) \<Rightarrow> 'a list \<Rightarrow> u8 list" where
  "enc_vector enc v = enc_u32 (of_nat (length v)) @ concat (map enc v)"

lemma length_enc_u32 [simp]: "length (enc_u32 x) = 4"
  by (simp add: enc_u32_def)

lemma writes_put_u32: "writes (put_u32 x) (enc_u32 x)"
  unfolding put_u32_def enc_u32_def
  using writes_bind [OF writes_rawbyte writes_bind [OF writes_rawbyte
      writes_bind [OF writes_rawbyte writes_rawbyte]]] by simp

lemma stores_pack: "stores (pack x) (enc_u32 x)"
proof -
  have "ucast (signed_drop_bit 24 x AND 0xff) = (ucast (drop_bit 24 x AND 0xff) :: u8)"
    "ucast (signed_drop_bit 16 x AND 0xff) = (ucast (drop_bit 16 x AND 0xff) :: u8)"
    "ucast (signed_drop_bit 8 x AND 0xff) = (ucast (drop_bit 8 x AND 0xff) :: u8)"
    by (simp_all add: signed_drop_byte)
  then show ?thesis
    unfolding pack_def enc_u32_def
    using stores_bind [OF stores_rawbyte stores_bind [OF stores_rawbyte
        stores_bind [OF stores_rawbyte stores_rawbyte]]] by simp
qed

lemma writes_put_elems:
  assumes "\<And>x. x \<in> set xs \<Longrightarrow> writes (put x) (enc x)"
  shows "writes (put_elems put xs) (concat (map enc xs))"
  using assms
proof (induction xs)
  case Nil
  then show ?case using writes_Nil by (simp add: writes_def)
next
  case (Cons x xs)
  then have "writes (put_elems put xs) (concat (map enc xs))" and "writes (put x) (enc x)"
    by auto
  then show ?case using writes_bind [of "put x" "enc x" "put_elems put xs"] by simp
qed

end
