(* ===== verification/Wire_Codec.thy ===== *)
theory Wire_Codec
  imports Marshall
begin

text \<open>
  The contract between the \<open><<\<close> and the \<open>>>\<close> operator of a type on the wire. \<open>reads\<close>
  says that an extractor turns a given byte sequence into a value and stops right behind
  it; \<open>rejects\<close> that every proper prefix of the sequence leaves the input in the failed
  state; \<open>safe\<close> that an extractor applied to a failed input neither faults nor clears the
  failure. The locale \<open>codec\<close> collects these laws, derives the round trip through a PDU
  and the detection of truncated PDUs once, and is interpreted for every type of
  \<^verbatim>\<open>rpc/rpc.cc\<close> that the protocols use.
\<close>

section \<open>Laws of extractors\<close>

definition upcoming :: "unmarshall \<Rightarrow> u8 list" where
  "upcoming u = drop (u_ind u) (take (u_sz u) (u_buf u))"

text \<open>
  The buffer holds \<open>_sz\<close> bytes, \<open>_sz\<close> is a non-negative C \<open>int\<close>, and the head of a good
  input is inside.
\<close>

definition uwf :: "unmarshall \<Rightarrow> bool" where
  "uwf u \<longleftrightarrow> u_sz u \<le> length (u_buf u) \<and> u_sz u < 2 ^ 31 \<and> (u_ok u \<longrightarrow> u_ind u \<le> u_sz u)"

definition advance :: "nat \<Rightarrow> unmarshall \<Rightarrow> unmarshall" where
  "advance n u = u\<lparr>u_ind := u_ind u + n\<rparr>"

definition reads :: "(unmarshall \<Rightarrow> fault + ('a \<times> unmarshall)) \<Rightarrow> u8 list \<Rightarrow> 'a \<Rightarrow> bool" where
  "reads g bs a \<longleftrightarrow>
     (\<forall>u rest. uwf u \<longrightarrow> u_ok u \<longrightarrow> upcoming u = bs @ rest \<longrightarrow> g u = Inr (a, advance (length bs) u))"

definition fails :: "(unmarshall \<Rightarrow> fault + ('a \<times> unmarshall)) \<Rightarrow> unmarshall \<Rightarrow> bool" where
  "fails g u \<longleftrightarrow> (\<exists>x u'. g u = Inr (x, u') \<and> uwf u' \<and> \<not> u_ok u')"

definition safe :: "(unmarshall \<Rightarrow> fault + ('a \<times> unmarshall)) \<Rightarrow> bool" where
  "safe g \<longleftrightarrow> (\<forall>u. uwf u \<longrightarrow> \<not> u_ok u \<longrightarrow> fails g u)"

definition rejects :: "(unmarshall \<Rightarrow> fault + ('a \<times> unmarshall)) \<Rightarrow> u8 list \<Rightarrow> bool" where
  "rejects g bs \<longleftrightarrow>
     (\<forall>u t. uwf u \<longrightarrow> u_ok u \<longrightarrow> t \<noteq> [] \<longrightarrow> bs = upcoming u @ t \<longrightarrow> fails g u)"

lemma advance_simps [simp]:
  "u_ok (advance n u) = u_ok u" "u_sz (advance n u) = u_sz u" "u_buf (advance n u) = u_buf u"
  "u_ind (advance n u) = u_ind u + n"
  "upcoming (advance n u) = drop n (upcoming u)"
  "advance n (advance k u) = advance (k + n) u" "advance 0 u = u"
  by (simp_all add: advance_def upcoming_def drop_drop add.commute add.left_commute)

lemma length_upcoming: "uwf u \<Longrightarrow> length (upcoming u) = u_sz u - u_ind u"
  by (auto simp: upcoming_def uwf_def)

lemma uwf_advance:
  assumes "uwf u" and "upcoming u = bs @ rest"
  shows "uwf (advance (length bs) u)"
proof -
  have "length bs \<le> u_sz u - u_ind u"
    using assms length_upcoming [OF assms(1)] by simp
  with assms(1) show ?thesis by (auto simp: uwf_def)
qed

lemma reads_return: "reads (\<lambda>u. Inr (a, u)) [] a"
  by (simp add: reads_def)

lemma reads_bind:
  assumes f: "reads f as a" and g: "reads (g a) bs b"
  shows "reads (\<lambda>u. bind_f (f u) (\<lambda>(x, u). g x u)) (as @ bs) b"
  unfolding reads_def
proof (intro allI impI)
  fix u rest
  assume u: "uwf u" "u_ok u" and up: "upcoming u = (as @ bs) @ rest"
  from f u up have "f u = Inr (a, advance (length as) u)"
    by (auto simp: reads_def)
  moreover from u up have "uwf (advance (length as) u)"
    by (intro uwf_advance [of _ _ "bs @ rest"]) auto
  with g u up have "g a (advance (length as) u) = Inr (b, advance (length bs) (advance (length as) u))"
    by (auto simp: reads_def)
  ultimately show "bind_f (f u) (\<lambda>(x, u). g x u) = Inr (b, advance (length (as @ bs)) u)"
    by simp
qed

lemma fails_bind:
  assumes "fails f u" and "\<And>x. safe (g x)"
  shows "fails (\<lambda>u. bind_f (f u) (\<lambda>(x, u). g x u)) u"
proof -
  from assms(1) obtain x u' where f: "f u = Inr (x, u')" and u': "uwf u'" "\<not> u_ok u'"
    by (auto simp: fails_def)
  from assms(2) u' have "fails (g x) u'" by (simp add: safe_def)
  with f show ?thesis by (simp add: fails_def)
qed

lemma safe_return: "safe (\<lambda>u. Inr (a, u))"
  by (auto simp: safe_def fails_def)

lemma safe_bind: "safe f \<Longrightarrow> (\<And>x. safe (g x)) \<Longrightarrow> safe (\<lambda>u. bind_f (f u) (\<lambda>(x, u). g x u))"
  unfolding safe_def [of f] safe_def [of "\<lambda>u. bind_f (f u) (\<lambda>(x, u). g x u)"]
  by (auto intro: fails_bind)

lemma rejects_Nil: "rejects g []"
  by (simp add: rejects_def)

lemma rejects_bind:
  assumes f: "rejects f as" "reads f as a" and g: "rejects (g a) bs" "\<And>x. safe (g x)"
  shows "rejects (\<lambda>u. bind_f (f u) (\<lambda>(x, u). g x u)) (as @ bs)"
  unfolding rejects_def
proof (intro allI impI)
  fix u t
  assume u: "uwf u" "u_ok u" and t: "t \<noteq> []" and eq: "as @ bs = upcoming u @ t"
  from eq obtain us where
    "as = upcoming u @ us \<and> us @ bs = t \<or> as @ us = upcoming u \<and> bs = us @ t"
    unfolding append_eq_append_conv2 by blast
  then consider (short) t' where "as = upcoming u @ t'" "t' \<noteq> []"
    | (long) r where "upcoming u = as @ r" "bs = r @ t"
    by (cases us) (metis append_Nil append_Nil2, metis list.distinct(1))
  then show "fails (\<lambda>u. bind_f (f u) (\<lambda>(x, u). g x u)) u"
  proof cases
    case short
    with f(1) u have "fails f u" by (auto simp: rejects_def)
    then show ?thesis using g(2) by (rule fails_bind)
  next
    case long
    with f(2) u have "f u = Inr (a, advance (length as) u)" by (auto simp: reads_def)
    moreover from u(1) long(1) have "uwf (advance (length as) u)"
      by (rule uwf_advance)
    with g(1) u t long have "fails (g a) (advance (length as) u)"
      by (auto simp: rejects_def)
    ultimately show ?thesis by (simp add: fails_def)
  qed
qed

lemma rejects_bind_return:
  assumes "rejects f bs"
  shows "rejects (\<lambda>u. bind_f (f u) (\<lambda>(x, u). Inr (h x, u))) bs"
  using assms unfolding rejects_def by (auto intro!: fails_bind safe_return)

lemma reads_bind_return:
  assumes "reads f bs a"
  shows "reads (\<lambda>u. bind_f (f u) (\<lambda>(x, u). Inr (h x, u))) bs (h a)"
  using reads_bind [OF assms, of "\<lambda>x u. Inr (h x, u)" "[]" "h a", OF reads_return] by simp

section \<open>Single bytes and words\<close>

lemma upcoming_Cons:
  assumes "uwf u" and "upcoming u = b # rest"
  shows "u_ind u < u_sz u" and "u_ind u < length (u_buf u)" and "u_buf u ! u_ind u = b"
proof -
  show "u_ind u < u_sz u"
  proof (rule ccontr)
    assume "\<not> u_ind u < u_sz u"
    then have "upcoming u = []" by (simp add: upcoming_def)
    with assms(2) show False by simp
  qed
  with assms(1) show "u_ind u < length (u_buf u)" by (simp add: uwf_def)
  from assms(2) have "hd (upcoming u) = b" by simp
  with \<open>u_ind u < u_sz u\<close> \<open>u_ind u < length (u_buf u)\<close> show "u_buf u ! u_ind u = b"
    by (simp add: upcoming_def hd_drop_conv_nth)
qed

lemma reads_rawbyte: "reads rawbyte_u [b] (scast b)"
  unfolding reads_def
proof (intro allI impI)
  fix u rest assume u: "uwf u" "upcoming u = [b] @ rest"
  then show "rawbyte_u u = Inr (scast b, advance (length [b]) u)"
    using upcoming_Cons [of u b rest] by (simp add: rawbyte_u_def advance_def)
qed

lemma rawbyte_end: "uwf u \<Longrightarrow> upcoming u = [] \<Longrightarrow> rawbyte_u u = Inr (0, u\<lparr>u_ok := False\<rparr>)"
  by (auto simp: rawbyte_u_def upcoming_def uwf_def)

lemma rejects_rawbyte: "rejects rawbyte_u [b]"
  unfolding rejects_def fails_def
proof (intro allI impI)
  fix u t assume "uwf u" "u_ok u" and "t \<noteq> []" and "[b] = upcoming u @ t"
  then have "upcoming u = []" by (cases "upcoming u") auto
  with \<open>uwf u\<close> show "\<exists>x u'. rawbyte_u u = Inr (x, u') \<and> uwf u' \<and> \<not> u_ok u'"
    by (simp add: rawbyte_end uwf_def)
qed

lemma safe_rawbyte: "safe rawbyte_u"
  by (auto simp: safe_def fails_def rawbyte_u_def uwf_def)

lemma reads_byte_bind:
  "reads (g (scast b)) bs c \<Longrightarrow> reads (\<lambda>u. bind_f (rawbyte_u u) (\<lambda>(x, u). g x u)) (b # bs) c"
  using reads_bind [OF reads_rawbyte, of g b bs c] by simp

lemma rejects_byte_bind:
  "rejects (g (scast b)) bs \<Longrightarrow> (\<And>x. safe (g x)) \<Longrightarrow>
   rejects (\<lambda>u. bind_f (rawbyte_u u) (\<lambda>(x, u). g x u)) (b # bs)"
  using rejects_bind [OF rejects_rawbyte reads_rawbyte, of g b bs] by simp

lemma reads_returnI: "a = b \<Longrightarrow> reads (\<lambda>u. Inr (a, u)) [] b"
  by (simp add: reads_return)

lemma reads_get_u32: "reads get_u32 (enc_u32 x) x"
  unfolding get_u32_def enc_u32_def
  by (intro reads_byte_bind reads_returnI) (simp only: wire_simps)

lemma reads_u32_bind:
  "reads (g x) bs c \<Longrightarrow> reads (\<lambda>u. bind_f (get_u32 u) (\<lambda>(x, u). g x u)) (enc_u32 x @ bs) c"
  by (rule reads_bind, rule reads_get_u32)

lemma reads_u32_return:
  "c = h x \<Longrightarrow> reads (\<lambda>u. bind_f (get_u32 u) (\<lambda>(x, u). Inr (h x, u))) (enc_u32 x) c"
  by (simp add: reads_bind_return reads_get_u32)

lemma safe_get_u32: "safe get_u32"
  unfolding get_u32_def by (intro safe_bind safe_rawbyte safe_return)

lemma rejects_get_u32: "rejects get_u32 (enc_u32 x)"
  unfolding get_u32_def enc_u32_def
  by (intro rejects_byte_bind rejects_Nil safe_bind safe_rawbyte safe_return)

lemma rejects_u32_bind:
  "rejects (g x) bs \<Longrightarrow> (\<And>x. safe (g x)) \<Longrightarrow>
   rejects (\<lambda>u. bind_f (get_u32 u) (\<lambda>(x, u). g x u)) (enc_u32 x @ bs)"
  by (rule rejects_bind, rule rejects_get_u32, rule reads_get_u32)

lemma reads_get_u64: "reads get_u64 (enc_u64 x) x"
  unfolding get_u64_def enc_u64_def
  using reads_bind [OF reads_get_u32 reads_bind_return [OF reads_get_u32],
      of "\<lambda>h l. ucast l OR push_bit 32 (ucast h) :: u64" "ucast (drop_bit 32 x)" "ucast x :: u32"]
  by (simp only: wire_simps)

lemma safe_get_u64: "safe get_u64"
  unfolding get_u64_def by (intro safe_bind safe_get_u32 safe_return)

lemma rejects_get_u64: "rejects get_u64 (enc_u64 x)"
  unfolding get_u64_def enc_u64_def
  by (rule rejects_bind [OF rejects_get_u32 reads_get_u32 rejects_bind_return [OF rejects_get_u32]])
     (intro safe_bind safe_get_u32 safe_return)

section \<open>Strings\<close>

lemma u32_le_of_nat:
  assumes "a < 2 ^ 32" and "b < 2 ^ 32"
  shows "(of_nat a :: u32) < of_nat b \<longleftrightarrow> a < b"
  using assms by (simp add: word_less_nat_alt unat_of_nat)

lemma reads_rawbytes:
  assumes "length s < 2 ^ 31"
  shows "reads (\<lambda>u. if u_ok u then rawbytes_u old (of_nat (length s)) u else Inr (old, u))
           (bytes_of_string s) s"
  unfolding reads_def
proof (intro allI impI)
  fix u rest
  assume u: "uwf u" "u_ok u" and up: "upcoming u = bytes_of_string s @ rest"
  have n: "unat (of_nat (length s) :: u32) = length s"
    using assms by (simp add: unat_of_nat)
  have "length s \<le> length (upcoming u)" using up by simp
  with u have le: "u_ind u + length s \<le> u_sz u" and sz: "u_sz u < 2 ^ 31" "u_sz u \<le> length (u_buf u)"
    by (auto simp: upcoming_def uwf_def)
  have "take (length s) (drop (u_ind u) (u_buf u)) = take (length s) (upcoming u)"
    using le by (simp add: upcoming_def drop_take)
  with up have tk: "take (length s) (drop (u_ind u) (u_buf u)) = bytes_of_string s" by simp
  have "\<not> (of_nat (u_sz u) :: u32) < of_nat (u_ind u) + of_nat (length s)"
    using le sz u32_le_of_nat [of "u_sz u" "u_ind u + length s"] by simp
  with u le sz n tk show "(if u_ok u then rawbytes_u old (of_nat (length s)) u else Inr (old, u)) =
        Inr (s, advance (length (bytes_of_string s)) u)"
    by (simp add: rawbytes_u_def advance_def)
qed

lemma rejects_rawbytes:
  assumes "length s < 2 ^ 31"
  shows "rejects (\<lambda>u. if u_ok u then rawbytes_u old (of_nat (length s)) u else Inr (old, u))
           (bytes_of_string s)"
  unfolding rejects_def
proof (intro allI impI)
  fix u t
  assume u: "uwf u" "u_ok u" and t: "t \<noteq> []" and eq: "bytes_of_string s = upcoming u @ t"
  from eq t have "length (upcoming u) < length s"
    by (metis length_append length_bytes_of_string length_greater_0_conv less_add_same_cancel1)
  with u have "u_sz u < u_ind u + length s" and "u_ind u \<le> u_sz u" and "u_sz u < 2 ^ 31"
    by (auto simp: length_upcoming uwf_def)
  then have "(of_nat (u_sz u) :: u32) < of_nat (u_ind u) + of_nat (length s)"
    using u32_le_of_nat [of "u_sz u" "u_ind u + length s"] assms by simp
  with u show "fails (\<lambda>u. if u_ok u then rawbytes_u old (of_nat (length s)) u else Inr (old, u)) u"
    by (simp add: fails_def rawbytes_u_def uwf_def)
qed

lemma safe_rawbytes: "safe (\<lambda>u. if u_ok u then rawbytes_u old n u else Inr (old, u))"
  by (auto simp: safe_def fails_def)

section \<open>Sequences\<close>

lemma reads_get_elems:
  assumes "\<And>x. x \<in> set xs \<Longrightarrow> reads get (enc x) x"
  shows "reads (get_elems get (length xs)) (concat (map enc xs)) xs"
  using assms
proof (induction xs)
  case Nil
  show ?case by (simp add: reads_def)
next
  case (Cons x xs)
  then have tail: "reads (get_elems get (length xs)) (concat (map enc xs)) xs" by simp
  show ?case
    using reads_bind [OF Cons.prems reads_bind_return [OF tail], of x "\<lambda>z zs. z # zs"] by simp
qed

lemma safe_get_elems: "safe get \<Longrightarrow> safe (get_elems get n)"
proof (induction n)
  case 0
  then show ?case by (auto simp: safe_def fails_def)
next
  case (Suc n)
  then show ?case by (simp add: safe_bind safe_return)
qed

lemma rejects_get_elems:
  assumes "\<And>x. x \<in> set xs \<Longrightarrow> reads get (enc x) x"
    and "\<And>x. x \<in> set xs \<Longrightarrow> rejects get (enc x)" and "safe get"
  shows "rejects (get_elems get (length xs)) (concat (map enc xs))"
  using assms(1,2)
proof (induction xs)
  case Nil
  show ?case by (simp add: rejects_def)
next
  case (Cons x xs)
  then have tail: "rejects (get_elems get (length xs)) (concat (map enc xs))" by simp
  have "rejects get (enc x)" and "reads get (enc x) x" using Cons.prems by simp_all
  from rejects_bind [OF this rejects_bind_return [OF tail]] show ?case
    by (simp add: safe_bind safe_return safe_get_elems assms(3))
qed

section \<open>The contract\<close>

locale codec =
  fixes put :: "'a \<Rightarrow> marshall \<Rightarrow> fault + marshall"
    and get :: "'a \<Rightarrow> unmarshall \<Rightarrow> fault + ('a \<times> unmarshall)"
    and enc :: "'a \<Rightarrow> u8 list"
    and valid :: "'a \<Rightarrow> bool"
  assumes put_writes: "valid a \<Longrightarrow> writes (put a) (enc a)"
    and get_reads: "valid a \<Longrightarrow> reads (get old) (enc a) a"
    and get_rejects: "valid a \<Longrightarrow> rejects (get old) (enc a)"
    and get_safe: "safe (get old)"

text \<open>
  The bytes \<open>bs\<close> can be what a receiver sees of the buffer of \<open>m\<close>: cells that were never
  written may hold anything.
\<close>

definition wire_of :: "marshall \<Rightarrow> u8 list \<Rightarrow> bool" where
  "wire_of m bs \<longleftrightarrow> list_all2 (\<lambda>c b. c = None \<or> c = Some b) (contents m) bs"

text \<open>A received PDU after the header has been taken off.\<close>

definition received :: "u8 list \<Rightarrow> unmarshall" where
  "received bs = \<lparr>u_buf = bs, u_sz = length bs, u_ind = RPC_HEADER_SZ,
                  u_ok = (length bs \<ge> RPC_HEADER_SZ)\<rparr>"

lemma upcoming_received: "upcoming (received bs) = drop RPC_HEADER_SZ bs"
  by (simp add: upcoming_def received_def)

lemma uwf_received: "length bs < 2 ^ 31 \<Longrightarrow> uwf (received bs)"
  by (simp add: uwf_def received_def)

lemma wire_of_drop:
  assumes "wire_of m bs" and "contents m = hdr @ map Some xs" and "length hdr = n"
  shows "drop n bs = xs" and "length bs = n + length xs"
proof -
  from assms(1,2) have la: "list_all2 (\<lambda>c b. c = None \<or> c = Some b) (hdr @ map Some xs) bs"
    by (simp add: wire_of_def)
  then show "length bs = n + length xs"
    using assms(3) by (auto dest: list_all2_lengthD)
  from la obtain us vs where "bs = us @ vs" "length us = length hdr"
      "list_all2 (\<lambda>c b. c = None \<or> c = Some b) (map Some xs) vs"
    by (auto simp: list_all2_append1)
  then show "drop n bs = xs"
    using assms(3) by (auto simp: list_all2_conv_all_nth intro: nth_equalityI)
qed

context codec
begin

lemma put_init:
  assumes "valid a"
  obtains m where "put a marshall_init = Inr m" and "mwf m" and "capa_ok m"
    and "contents m = replicate RPC_HEADER_SZ None @ map Some (enc a)"
  using put_writes [OF assms] mwf_init unfolding writes_def by force

lemma get_received:
  assumes "valid a" and "length (enc a) < 2 ^ 30" and d: "drop RPC_HEADER_SZ bs = enc a"
    and l: "length bs = RPC_HEADER_SZ + length (enc a)"
  shows "\<exists>u. get old (received bs) = Inr (a, u) \<and> okdone u"
proof -
  have "uwf (received bs)"
    using l assms(2) by (intro uwf_received) (simp add: RPC_HEADER_SZ_eq)
  moreover have "u_ok (received bs)" using l by (simp add: received_def)
  moreover have "upcoming (received bs) = enc a @ []" using d by (simp add: upcoming_received)
  ultimately have "get old (received bs) = Inr (a, advance (length (enc a)) (received bs))"
    using get_reads [OF assms(1), of old] unfolding reads_def by blast
  then show ?thesis using l by (simp add: okdone_def received_def advance_def)
qed

lemma roundtrip:
  assumes "valid a" and "length (enc a) < 2 ^ 30"
  shows "\<exists>m. put a marshall_init = Inr m \<and>
           (\<forall>bs. wire_of m bs \<longrightarrow>
              (\<exists>u. get old (received bs) = Inr (a, u) \<and> okdone u))"
proof -
  from assms(1) obtain m where m: "put a marshall_init = Inr m"
    "contents m = replicate RPC_HEADER_SZ None @ map Some (enc a)"
    by (rule put_init)
  have "\<exists>u. get old (received bs) = Inr (a, u) \<and> okdone u" if w: "wire_of m bs" for bs
    using wire_of_drop [OF w m(2)] by (intro get_received [OF assms]) simp_all
  with m(1) show ?thesis by blast
qed

text \<open>A PDU that was cut short is never taken for a complete one.\<close>

lemma truncated:
  assumes "valid a" and "length bs < 2 ^ 31" and "RPC_HEADER_SZ \<le> length bs"
    and "t \<noteq> []" and "enc a = drop RPC_HEADER_SZ bs @ t"
  shows "\<exists>x u. get old (received bs) = Inr (x, u) \<and> \<not> okdone u"
proof -
  have "fails (get old) (received bs)"
    using get_rejects [OF assms(1), of old, unfolded rejects_def, rule_format,
        of "received bs" t] uwf_received [OF assms(2)] assms(3-5)
    by (simp add: upcoming_received) (simp add: received_def)
  then show ?thesis by (auto simp: fails_def okdone_def)
qed

end

section \<open>Products and sequences of codecs\<close>

lemma codec_pair:
  assumes "codec putA getA encA validA" and "codec putB getB encB validB"
  shows "codec (\<lambda>(a, b) m. bind_f (putA a m) (putB b))
           (\<lambda>(oa, ob) u. bind_f (getA oa u) (\<lambda>(a, u). bind_f (getB ob u) (\<lambda>(b, u). Inr ((a, b), u))))
           (\<lambda>(a, b). encA a @ encB b) (\<lambda>(a, b). validA a \<and> validB b)"
proof -
  note A = codec.put_writes [OF assms(1)] codec.get_reads [OF assms(1)]
    codec.get_rejects [OF assms(1)] codec.get_safe [OF assms(1)]
  note B = codec.put_writes [OF assms(2)] codec.get_reads [OF assms(2)]
    codec.get_rejects [OF assms(2)] codec.get_safe [OF assms(2)]
  show ?thesis
    by unfold_locales
      (auto intro: writes_bind A B reads_bind reads_bind_return rejects_bind rejects_bind_return
        safe_bind safe_return)
qed

lemma codec_vector:
  assumes "codec put get enc valid"
  shows "codec (put_vector put) (\<lambda>_. get_vector (get z)) (enc_vector enc)
           (\<lambda>v. length v < 2 ^ 32 \<and> list_all valid v)"
proof -
  note C = codec.put_writes [OF assms] codec.get_reads [OF assms]
    codec.get_rejects [OF assms] codec.get_safe [OF assms]
  have len: "unat (of_nat (length v) :: u32) = length v" if "length v < 2 ^ 32" for v :: "'a list"
    using that by (simp add: unat_of_nat)
  show ?thesis
  proof (unfold_locales, goal_cases)
    case (1 v)
    then show ?case
      unfolding put_vector_def enc_vector_def
      by (intro writes_bind writes_put_u32 writes_put_elems C(1)) (auto simp: list_all_iff)
  next
    case (2 v old)
    then have "reads (get_elems (get z) (unat (of_nat (length v) :: u32))) (concat (map enc v)) v"
      by (simp only: len) (auto simp: list_all_iff intro!: reads_get_elems C(2))
    then show ?case
      unfolding get_vector_def enc_vector_def by (rule reads_bind [OF reads_get_u32])
  next
    case (3 v old)
    then have "rejects (get_elems (get z) (unat (of_nat (length v) :: u32))) (concat (map enc v))"
      by (simp only: len) (auto simp: list_all_iff intro!: rejects_get_elems C)
    then show ?case
      unfolding get_vector_def enc_vector_def
      by (rule rejects_bind [OF rejects_get_u32 reads_get_u32]) (simp add: safe_get_elems C(4))
  next
    case (4 old)
    show ?case
      unfolding get_vector_def by (intro safe_bind safe_get_u32 safe_get_elems C(4))
  qed
qed

section \<open>The basic types\<close>

interpretation cd_u32: codec put_u32 "\<lambda>_. get_u32" enc_u32 "\<lambda>_. True"
  by unfold_locales (auto intro: writes_put_u32 reads_get_u32 rejects_get_u32 safe_get_u32)

interpretation cd_i32: codec put_i32 "\<lambda>_. get_i32" enc_u32 "\<lambda>_. True"
  unfolding put_i32_def [abs_def] get_i32_def [abs_def]
  by unfold_locales (auto intro: writes_put_u32 reads_get_u32 rejects_get_u32 safe_get_u32)

interpretation cd_u64: codec put_u64 "\<lambda>_. get_u64" enc_u64 "\<lambda>_. True"
proof unfold_locales
  show "writes (put_u64 a) (enc_u64 a)" for a
    unfolding put_u64_def [abs_def] enc_u64_def by (intro writes_bind writes_put_u32)
qed (auto intro: reads_get_u64 rejects_get_u64 safe_get_u64)

interpretation cd_bool: codec put_bool "\<lambda>_. get_bool" enc_bool "\<lambda>_. True"
proof unfold_locales
  fix a :: bool
  show "writes (put_bool a) (enc_bool a)"
    unfolding put_bool_def enc_bool_def by (rule writes_rawbyte)
  show "reads get_bool (enc_bool a) a"
    unfolding get_bool_def [abs_def] enc_bool_def
    by (rule reads_byte_bind, rule reads_returnI) (simp add: scast_byte_eq_0)
  show "rejects get_bool (enc_bool a)"
    unfolding get_bool_def [abs_def] enc_bool_def
    by (intro rejects_bind_return rejects_rawbyte)
  show "safe get_bool"
    unfolding get_bool_def [abs_def] by (intro safe_bind safe_rawbyte safe_return)
qed

interpretation cd_u8: codec put_u8 "\<lambda>_. get_u8" "\<lambda>x. [x]" "\<lambda>_. True"
proof unfold_locales
  fix a :: u8
  show "writes (put_u8 a) [a]"
    unfolding put_u8_def by (rule writes_rawbyte)
  show "reads get_u8 [a] a"
    unfolding get_u8_def [abs_def]
    by (rule reads_byte_bind, rule reads_returnI) (simp only: wire_simps)
  show "rejects get_u8 [a]"
    unfolding get_u8_def [abs_def] by (intro rejects_bind_return rejects_rawbyte)
  show "safe get_u8"
    unfolding get_u8_def [abs_def] by (intro safe_bind safe_rawbyte safe_return)
qed

interpretation cd_u16: codec put_u16 "\<lambda>_. get_u16" enc_u16 "\<lambda>_. True"
proof unfold_locales
  fix a :: u16
  show "writes (put_u16 a) (enc_u16 a)"
    unfolding put_u16_def [abs_def] enc_u16_def
    using writes_bind [OF writes_rawbyte writes_rawbyte] by simp
  show "reads get_u16 (enc_u16 a) a"
    unfolding get_u16_def enc_u16_def
    by (intro reads_byte_bind reads_returnI) (simp only: wire_simps)
  show "rejects get_u16 (enc_u16 a)"
    unfolding get_u16_def enc_u16_def
    by (intro rejects_byte_bind rejects_Nil safe_bind safe_rawbyte safe_return)
  show "safe get_u16"
    unfolding get_u16_def by (intro safe_bind safe_rawbyte safe_return)
qed

abbreviation valid_string :: "string \<Rightarrow> bool" where
  "valid_string s \<equiv> length s < 2 ^ 31"

interpretation cd_string: codec put_string get_string enc_string valid_string
proof unfold_locales
  fix a old :: string
  assume a: "valid_string a"
  show "writes (put_string a) (enc_string a)"
    unfolding put_string_def enc_string_def by (intro writes_bind writes_put_u32 writes_rawbytes)
  show "reads (get_string old) (enc_string a) a"
    unfolding get_string_def [abs_def] enc_string_def
    by (rule reads_u32_bind, rule reads_rawbytes [OF a])
  show "rejects (get_string old) (enc_string a)"
    unfolding get_string_def [abs_def] enc_string_def
    by (rule rejects_u32_bind, rule rejects_rawbytes [OF a], rule safe_rawbytes)
next
  fix old :: string
  show "safe (get_string old)"
    unfolding get_string_def [abs_def] by (intro safe_bind safe_get_u32 safe_rawbytes)
qed

interpretation cd_strings: codec "put_vector put_string" "\<lambda>_. get_vector (get_string [])"
  "enc_vector enc_string" "\<lambda>v. length v < 2 ^ 32 \<and> list_all valid_string v"
  by (rule codec_vector) (rule cd_string.codec_axioms)

section \<open>Headers\<close>

lemma bind_f_assoc: "bind_f (bind_f r f) g = bind_f r (\<lambda>a. bind_f (f a) g)"
  by (cases r) simp_all

definition enc_req_header :: "req_header \<Rightarrow> u8 list" where
  "enc_req_header h = enc_u32 (rq_xid h) @ enc_u32 (rq_proc h) @ enc_u32 (rq_clt_nonce h) @
     enc_u32 (rq_srv_nonce h) @ enc_u32 (rq_xid_rep h)"

definition enc_reply_header :: "reply_header \<Rightarrow> u8 list" where
  "enc_reply_header h = enc_u32 (rp_xid h) @ enc_u32 (rp_ret h)"

text \<open>Storing header bytes behind the size field leaves the rest of the PDU alone.\<close>

lemma store_header:
  assumes "mwf m" and "RPC_HEADER_SZ \<le> m_ind m" and "length xs \<le> 20" and "saved = m_ind m"
    and "stores f xs"
  shows "\<exists>m'. bind_f (f (m\<lparr>m_ind := sizeof_rpc_sz_t\<rparr>)) (\<lambda>m. Inr (m\<lparr>m_ind := saved\<rparr>)) = Inr m' \<and>
           mwf m' \<and> m_ind m' = m_ind m \<and> m_capa m' = m_capa m \<and>
           contents m' = take 4 (contents m) @ map Some xs @ drop (4 + length xs) (contents m)"
proof -
  from assms(1) obtain b where b: "m_buf m = Some b" "length b = m_capa m" "m_ind m \<le> m_capa m"
      "0 < m_capa m"
    by (auto simp: mwf_def split: option.splits)
  let ?m = "m\<lparr>m_ind := sizeof_rpc_sz_t\<rparr>"
  have "mwf ?m" using b assms(2) by (simp add: mwf_def sizeof_rpc_sz_t_def RPC_HEADER_SZ_eq)
  moreover have "m_ind ?m + length xs \<le> m_capa ?m"
    using assms(2,3) b by (simp add: sizeof_rpc_sz_t_def RPC_HEADER_SZ_eq)
  ultimately have "f ?m = store xs ?m" using assms(5) by (auto simp: stores_def)
  then show ?thesis
    using b assms(2-4)
    by (auto simp: store_def mwf_def contents_def sizeof_rpc_sz_t_def RPC_HEADER_SZ_eq
        min_def take_Cons' drop_take)
qed

lemma pack_req_header_ok:
  assumes "mwf m" and "RPC_HEADER_SZ \<le> m_ind m"
  shows "\<exists>m'. pack_req_header h m = Inr m' \<and> mwf m' \<and> m_ind m' = m_ind m \<and> m_capa m' = m_capa m \<and>
           contents m' = take 4 (contents m) @ map Some (enc_req_header h) @ drop 24 (contents m)"
proof -
  define f where "f = (\<lambda>m. bind_f (pack (rq_xid h) m) (\<lambda>m. bind_f (pack (rq_proc h) m) (\<lambda>m.
     bind_f (pack (rq_clt_nonce h) m) (\<lambda>m. bind_f (pack (rq_srv_nonce h) m) (pack (rq_xid_rep h))))))"
  have "stores f (enc_req_header h)"
    unfolding f_def enc_req_header_def by (intro stores_bind stores_pack)
  moreover have "pack_req_header h m =
      bind_f (f (m\<lparr>m_ind := sizeof_rpc_sz_t\<rparr>)) (\<lambda>m'. Inr (m'\<lparr>m_ind := m_ind m\<rparr>))"
    by (simp add: pack_req_header_def f_def bind_f_assoc Let_def)
  ultimately show ?thesis
    using store_header [OF assms, of "enc_req_header h" "m_ind m" f]
    by (simp add: enc_req_header_def)
qed

lemma pack_reply_header_ok:
  assumes "mwf m" and "RPC_HEADER_SZ \<le> m_ind m"
  shows "\<exists>m'. pack_reply_header h m = Inr m' \<and> mwf m' \<and> m_ind m' = m_ind m \<and> m_capa m' = m_capa m \<and>
           contents m' = take 4 (contents m) @ map Some (enc_reply_header h) @ drop 12 (contents m)"
proof -
  define f where "f = (\<lambda>m. bind_f (pack (rp_xid h) m) (pack (rp_ret h)))"
  have "stores f (enc_reply_header h)"
    unfolding f_def enc_reply_header_def by (intro stores_bind stores_pack)
  moreover have "pack_reply_header h m =
      bind_f (f (m\<lparr>m_ind := sizeof_rpc_sz_t\<rparr>)) (\<lambda>m'. Inr (m'\<lparr>m_ind := m_ind m\<rparr>))"
    by (simp add: pack_reply_header_def f_def bind_f_assoc Let_def)
  ultimately show ?thesis
    using store_header [OF assms, of "enc_reply_header h" "m_ind m" f]
    by (simp add: enc_reply_header_def)
qed

lemma get_u32_at:
  "uwf u \<Longrightarrow> u_ok u \<Longrightarrow> upcoming u = enc_u32 x @ rest \<Longrightarrow> get_u32 u = Inr (x, advance 4 u)"
  using reads_get_u32 [of x] unfolding reads_def by force

lemma unpack_req_header_ok:
  assumes "uwf u" and "u_ok u" and "sizeof_rpc_sz_t \<le> u_sz u"
    and "drop 4 (take (u_sz u) (u_buf u)) = enc_req_header h @ rest"
  shows "unpack_req_header u = Inr (h, u\<lparr>u_ind := RPC_HEADER_SZ\<rparr>)"
proof -
  let ?u = "u\<lparr>u_ind := sizeof_rpc_sz_t\<rparr>"
  have w: "uwf ?u" "u_ok ?u"
    using assms(1-3) by (auto simp: uwf_def)
  have up: "upcoming ?u = enc_req_header h @ rest"
    using assms(4) by (simp add: upcoming_def sizeof_rpc_sz_t_def)
  have r: "reads (\<lambda>u. bind_f (get_u32 u) (\<lambda>(x, u). bind_f (get_u32 u) (\<lambda>(p, u).
      bind_f (get_u32 u) (\<lambda>(c, u). bind_f (get_u32 u) (\<lambda>(s, u). bind_f (get_u32 u) (\<lambda>(xi, u).
      Inr ((x, p, c, s, xi), u))))))) (enc_req_header h)
      (rq_xid h, rq_proc h, rq_clt_nonce h, rq_srv_nonce h, rq_xid_rep h)" (is "reads ?g _ ?t")
    unfolding enc_req_header_def
    by (rule reads_u32_bind, rule reads_u32_bind, rule reads_u32_bind, rule reads_u32_bind,
        rule reads_u32_return) simp
  have "unpack_req_header u = bind_f (?g ?u) (\<lambda>((x, p, c, s, xi), u).
      Inr (\<lparr>rq_xid = x, rq_proc = p, rq_clt_nonce = c, rq_srv_nonce = s, rq_xid_rep = xi\<rparr>,
           u\<lparr>u_ind := RPC_HEADER_SZ\<rparr>))"
    unfolding unpack_req_header_def unpack_def bind_f_assoc
    by (simp add: bind_f_assoc split_def)
  also have "?g ?u = Inr (?t, advance (length (enc_req_header h)) ?u)"
    using r w up unfolding reads_def by blast
  finally show ?thesis by (simp add: advance_def)
qed

lemma unpack_reply_header_ok:
  assumes "uwf u" and "u_ok u" and "sizeof_rpc_sz_t \<le> u_sz u"
    and "drop 4 (take (u_sz u) (u_buf u)) = enc_reply_header h @ rest"
  shows "unpack_reply_header u = Inr (h, u\<lparr>u_ind := RPC_HEADER_SZ\<rparr>)"
proof -
  let ?u = "u\<lparr>u_ind := sizeof_rpc_sz_t\<rparr>"
  have w: "uwf ?u" "u_ok ?u"
    using assms(1-3) by (auto simp: uwf_def)
  have up: "upcoming ?u = enc_reply_header h @ rest"
    using assms(4) by (simp add: upcoming_def sizeof_rpc_sz_t_def)
  have r: "reads (\<lambda>u. bind_f (get_u32 u) (\<lambda>(x, u). bind_f (get_u32 u) (\<lambda>(r, u).
      Inr ((x, r), u)))) (enc_reply_header h) (rp_xid h, rp_ret h)" (is "reads ?g _ ?t")
    unfolding enc_reply_header_def by (rule reads_u32_bind, rule reads_u32_return) simp
  have "unpack_reply_header u = bind_f (?g ?u) (\<lambda>((x, r), u).
      Inr (\<lparr>rp_xid = x, rp_ret = r\<rparr>, u\<lparr>u_ind := RPC_HEADER_SZ\<rparr>))"
    unfolding unpack_reply_header_def unpack_def bind_f_assoc
    by (simp add: bind_f_assoc split_def)
  also have "?g ?u = Inr (?t, advance (length (enc_reply_header h)) ?u)"
    using r w up unfolding reads_def by blast
  finally show ?thesis by (simp add: advance_def)
qed

section \<open>Properties\<close>

lemma rawbytes_capacity:
  assumes "mwf m" and "capa_ok m" and "m_ind m + length p < 2 ^ 30"
  shows "\<exists>m'. rawbytes p m = Inr m' \<and> mwf m' \<and> capa_ok m' \<and> m_capa m' < 2 ^ 31 \<and>
           contents m' = contents m @ map Some p"
proof -
  from writes_rawbytes assms(1,2) obtain m' where m': "rawbytes p m = Inr m'" "mwf m'" "capa_ok m'"
      "contents m' = contents m @ map Some p" "m_ind m' = m_ind m + length p"
    unfolding writes_def by blast
  with assms(3) have "m_capa m' < 2 ^ 31"
    by (simp add: capa_ok_def DEFAULT_RPC_SZ_def)
  with m' show ?thesis by blast
qed

text \<open>
  C32. Appending raw bytes never leaves the allocation and never fails a \<open>VERIFY\<close>: from a
  well-formed buffer, \<open>marshall::rawbytes\<close> appends exactly the given bytes, and while less
  than 1 GiB has been written the capacity stays representable as a C \<open>int\<close>, since
  the growth policy never allocates more than twice the contents.
\<close>

theorem rawbytes_in_bounds:
  assumes "mwf m" and "capa_ok m" and "m_ind m + length p < 2 ^ 30"
  shows "\<exists>m'. rawbytes p m = Inr m' \<and> mwf m' \<and> capa_ok m' \<and> m_capa m' < 2 ^ 31 \<and>
           contents m' = contents m @ map Some p"
  using rawbytes_capacity [OF assms] .

theorem rawbytes_in_bounds_witness:
  "\<exists>m'. rawbytes [1, 2, 3] marshall_init = Inr m' \<and> mwf m' \<and> capa_ok m' \<and> m_capa m' < 2 ^ 31 \<and>
     contents m' = contents marshall_init @ map Some [1, 2, 3]"
proof -
  have "m_ind marshall_init + length [1, 2, 3 :: u8] < 2 ^ 30"
    by (simp add: marshall_init_def RPC_HEADER_SZ_eq)
  from rawbytes_in_bounds [OF mwf_init(1,2) this] show ?thesis .
qed

lemma wrap_le_iff:
  assumes "i \<le> z" and "z < 2 ^ 31"
  shows "(of_nat i + n > (of_nat z :: u32)) \<longleftrightarrow> z < i + unat n \<and> i + unat n < 2 ^ 32"
proof -
  have "unat (of_nat i + n :: u32) = (i + unat n) mod 2 ^ 32"
    using assms by (simp add: unat_word_ariths unat_of_nat mod_simps)
  moreover have "unat (of_nat z :: u32) = z"
    using assms by (simp add: unat_of_nat)
  moreover have n: "unat n < 2 ^ 32" using unsigned_less [of n] by simp
  then have "(i + unat n) mod 2 ^ 32 = (if i + unat n < 2 ^ 32 then i + unat n else i + unat n - 2 ^ 32)"
    using assms by (simp add: mod_if)
  ultimately show ?thesis
    using assms n by (auto simp: word_less_nat_alt split: if_splits)
qed

text \<open>
  C31. When \<open>operator>>(unmarshall&, std::string&)\<close> leaves its buffer: on a good input whose
  next four bytes are the length \<open>n\<close>, the extraction reads out of bounds exactly if the
  position behind the length plus \<open>n\<close> reaches \<open>2^32\<close>. The unsigned sum in
  \<open>unmarshall::rawbytes\<close> then wraps and its bound check passes.
\<close>

theorem get_string_out_of_bounds_iff:
  assumes "uwf u" and "u_ok u" and "length (u_buf u) < 2 ^ 32"
    and "upcoming u = enc_u32 n @ rest"
  shows "get_string s u = Inl OutOfBounds \<longleftrightarrow> 2 ^ 32 \<le> u_ind u + 4 + unat n"
proof -
  let ?v = "advance 4 u"
  have "uwf ?v" using uwf_advance [OF assms(1,4)] by simp
  then have i: "u_ind u + 4 \<le> u_sz u" "u_sz u < 2 ^ 31" "u_sz u \<le> length (u_buf u)"
    using assms(2) by (auto simp: uwf_def)
  have "get_string s u = rawbytes_u s n ?v"
    using get_u32_at [OF assms(1,2,4)] assms(2) by (simp add: get_string_def)
  also have "\<dots> = Inl OutOfBounds \<longleftrightarrow> 2 ^ 32 \<le> u_ind u + 4 + unat n"
    using wrap_le_iff [OF i(1,2), of n] i assms(3) by (auto simp: rawbytes_u_def not_le)
  finally show ?thesis .
qed

definition evil_pdu :: unmarshall where
  "evil_pdu = received (replicate 24 0 @ enc_u32 0xffffffff)"

theorem get_string_out_of_bounds_iff_witness:
  "get_string [] evil_pdu = Inl OutOfBounds"
proof -
  have l: "length (replicate 24 0 @ enc_u32 0xffffffff) = 28" by simp
  have "uwf evil_pdu" unfolding evil_pdu_def by (rule uwf_received) (simp add: l)
  moreover have "u_ok evil_pdu" "length (u_buf evil_pdu) < 2 ^ 32" "u_ind evil_pdu = 24"
    by (simp_all add: evil_pdu_def received_def RPC_HEADER_SZ_eq)
  moreover have "upcoming evil_pdu = enc_u32 0xffffffff @ []"
    unfolding evil_pdu_def upcoming_received by (simp add: RPC_HEADER_SZ_eq)
  ultimately have "get_string [] evil_pdu = Inl OutOfBounds \<longleftrightarrow> 2 ^ 32 \<le> 24 + 4 + unat (0xffffffff :: u32)"
    using get_string_out_of_bounds_iff [of evil_pdu "0xffffffff" "[]" "[]"] by simp
  then show ?thesis by simp
qed

text \<open>
  A vector of strings survives the wire: what \<open>operator<<\<close> writes into a fresh
  \<open>marshall\<close> object is read back by \<open>operator>>\<close> from every PDU that agrees with the
  written cells, all of the PDU is consumed, and no earlier content of the destination
  matters. (Membership views travel in this form.)
\<close>

lemma strings_roundtrip:
  assumes "length v < 2 ^ 32" and "list_all valid_string v"
    and "length (enc_vector enc_string v) < 2 ^ 30"
  shows "\<exists>m. put_vector put_string v marshall_init = Inr m \<and>
           (\<forall>bs. wire_of m bs \<longrightarrow>
              (\<exists>u. get_vector (get_string []) (received bs) = Inr (v, u) \<and> okdone u))"
  using cd_strings.roundtrip [of v] assms by simp

end
