(* ===== verification/Pollmgr.thy ===== *)
theory Pollmgr
  imports DS_Prelude
begin

text \<open>
  The poll manager of the RPC library, \<^verbatim>\<open>rpc/pollmgr.cc\<close> and \<^verbatim>\<open>rpc/pollmgr.h\<close>: the
  \<open>select\<close>-based and the \<open>epoll\<close>-based descriptor sets and the table of callbacks that is
  driven by \<open>wait_loop\<close>. What the kernel answers (\<open>select\<close>, \<open>epoll_ctl\<close>, \<open>epoll_wait\<close>) and
  what a callback does are arguments. The lemmas show that \<open>highfds_\<close> always is the largest
  watched descriptor, so that no watched descriptor is hidden from \<open>select\<close>, and that
  \<open>wait_ready\<close> reports exactly the ready descriptors.
\<close>

section \<open>Flags\<close>

datatype poll_flag = CB_NONE | CB_RDONLY | CB_WRONLY | CB_RDWR | CB_MASK

fun flag_value :: "poll_flag \<Rightarrow> i32" where
  "flag_value CB_NONE = 0x0"
| "flag_value CB_RDONLY = 0x1"
| "flag_value CB_WRONLY = 0x10"
| "flag_value CB_RDWR = 0x11"
| "flag_value CB_MASK = NOT 0x11"

definition MAX_POLL_FDS :: nat where
  "MAX_POLL_FDS = 128"

section \<open>\<open>SelectAIO\<close>\<close>

text \<open>\<open>pipe_bytes\<close> counts the bytes that are in the pipe \<open>pipefd_\<close>.\<close>

record SelectAIO =
  rfds :: "nat set"
  wfds :: "nat set"
  highfds :: nat
  pipefd0 :: nat
  pipe_bytes :: nat

definition SelectAIO_init :: "nat \<Rightarrow> SelectAIO" where
  "SelectAIO_init p = \<lparr>rfds = {p}, wfds = {}, highfds = p, pipefd0 = p, pipe_bytes = 0\<rparr>"

definition watch_fd :: "nat \<Rightarrow> poll_flag \<Rightarrow> SelectAIO \<Rightarrow> SelectAIO" where
  "watch_fd fd flag a =
     (let a = (if highfds a \<le> fd then a\<lparr>highfds := fd\<rparr> else a);
          a = (if flag = CB_RDONLY then a\<lparr>rfds := insert fd (rfds a)\<rparr>
               else if flag = CB_WRONLY then a\<lparr>wfds := insert fd (wfds a)\<rparr>
               else a\<lparr>rfds := insert fd (rfds a), wfds := insert fd (wfds a)\<rparr>)
      in a\<lparr>pipe_bytes := pipe_bytes a + 1\<rparr>)"

definition is_watched :: "nat \<Rightarrow> poll_flag \<Rightarrow> SelectAIO \<Rightarrow> bool" where
  "is_watched fd flag a =
     (if flag = CB_RDONLY then fd \<in> rfds a
      else if flag = CB_WRONLY then fd \<in> wfds a
      else fd \<in> rfds a \<and> fd \<in> wfds a)"

text \<open>The loop of \<open>unwatch_fd\<close> that looks for the new highest descriptor.\<close>

definition new_high :: "SelectAIO \<Rightarrow> nat" where
  "new_high a =
     fold (\<lambda>i newh. if i \<in> rfds a then i else if i \<in> wfds a then i else newh)
       [0..<highfds a + 1] (pipefd0 a)"

definition unwatch_fd :: "nat \<Rightarrow> poll_flag \<Rightarrow> SelectAIO \<Rightarrow> fault + (bool \<times> SelectAIO)" where
  "unwatch_fd fd flag a =
     bind_f (if flag = CB_RDONLY then Inr (a\<lparr>rfds := rfds a - {fd}\<rparr>)
             else if flag = CB_WRONLY then Inr (a\<lparr>wfds := wfds a - {fd}\<rparr>)
             else if flag = CB_RDWR then Inr (a\<lparr>wfds := wfds a - {fd}, rfds := rfds a - {fd}\<rparr>)
             else Inl VerifyFailed) (\<lambda>a.
     let a = (if fd \<notin> rfds a \<and> fd \<notin> wfds a \<and> fd = highfds a
              then a\<lparr>highfds := new_high a\<rparr> else a);
         a = (if flag = CB_RDWR then a\<lparr>pipe_bytes := pipe_bytes a + 1\<rparr> else a)
     in Inr (fd \<notin> rfds a \<and> fd \<notin> wfds a, a))"

text \<open>What \<open>select\<close> answers: the two filtered sets, \<open>EINTR\<close>, or another error.\<close>

datatype select_result = SelReady "nat set" "nat set" | SelEINTR | SelError

text \<open>One round of the loop over the descriptors in \<open>wait_ready\<close>.\<close>

definition scan_fd ::
  "nat set \<Rightarrow> nat set \<Rightarrow> nat \<Rightarrow> nat list \<times> nat list \<times> SelectAIO \<Rightarrow>
   fault + (nat list \<times> nat list \<times> SelectAIO)" where
  "scan_fd trfds twfds fd = (\<lambda>(readable, writable, a).
     if fd = pipefd0 a \<and> fd \<in> trfds
     then bind_f (VERIFY (pipe_bytes a > 0)) (\<lambda>_.
          Inr (readable, writable, a\<lparr>pipe_bytes := pipe_bytes a - 1\<rparr>))
     else Inr (readable @ (if fd \<in> trfds then [fd] else []),
               writable @ (if fd \<in> twfds then [fd] else []), a))"

fun scan_fds ::
  "nat set \<Rightarrow> nat set \<Rightarrow> nat list \<Rightarrow> nat list \<times> nat list \<times> SelectAIO \<Rightarrow>
   fault + (nat list \<times> nat list \<times> SelectAIO)" where
  "scan_fds trfds twfds [] acc = Inr acc"
| "scan_fds trfds twfds (fd # fds) acc =
     bind_f (scan_fd trfds twfds fd acc) (scan_fds trfds twfds fds)"

definition wait_ready ::
  "select_result \<Rightarrow> SelectAIO \<Rightarrow> fault + (nat list \<times> nat list \<times> SelectAIO)" where
  "wait_ready sel a =
     (case sel of
        SelEINTR \<Rightarrow> Inr ([], [], a)
      | SelError \<Rightarrow> Inl VerifyFailed
      | SelReady trfds twfds \<Rightarrow> scan_fds trfds twfds [0..<highfds a + 1] ([], [], a))"

section \<open>\<open>EPollAIO\<close>\<close>

datatype epoll_op = EPOLL_CTL_ADD | EPOLL_CTL_MOD | EPOLL_CTL_DEL

definition EPOLLIN :: u32 where "EPOLLIN = 0x1"
definition EPOLLOUT :: u32 where "EPOLLOUT = 0x4"
definition EPOLLET :: u32 where "EPOLLET = 0x80000000"

type_synonym EPollAIO = "nat \<Rightarrow> i32"   \<comment> \<open>\<open>fdstatus_\<close>\<close>

definition EPollAIO_init :: EPollAIO where
  "EPollAIO_init = (\<lambda>_. 0)"

definition poll_flag_to_event :: "poll_flag \<Rightarrow> u32" where
  "poll_flag_to_event flag =
     (if flag = CB_RDONLY then EPOLLIN
      else if flag = CB_WRONLY then EPOLLOUT
      else EPOLLIN OR EPOLLOUT)"

definition events_of :: "i32 \<Rightarrow> u32" where
  "events_of st =
     (EPOLLET OR (if st AND flag_value CB_RDONLY \<noteq> 0 then EPOLLIN else 0))
        OR (if st AND flag_value CB_WRONLY \<noteq> 0 then EPOLLOUT else 0)"

text \<open>\<open>ctl op fd events\<close> tells whether \<open>epoll_ctl\<close> succeeds.\<close>

definition watch_fd_epoll ::
  "(epoll_op \<Rightarrow> nat \<Rightarrow> u32 \<Rightarrow> bool) \<Rightarrow> nat \<Rightarrow> poll_flag \<Rightarrow> EPollAIO \<Rightarrow> fault + EPollAIO" where
  "watch_fd_epoll ctl fd flag st =
     bind_f (VERIFY (fd < MAX_POLL_FDS)) (\<lambda>_.
     let op = (if st fd \<noteq> 0 then EPOLL_CTL_MOD else EPOLL_CTL_ADD);
         st = st(fd := st fd OR flag_value flag);
         ev = events_of (st fd)
     in bind_f (VERIFY (flag = CB_RDWR \<longrightarrow> ev = (EPOLLET OR EPOLLIN) OR EPOLLOUT)) (\<lambda>_.
        bind_f (VERIFY (ctl op fd ev)) (\<lambda>_. Inr st)))"

definition unwatch_fd_epoll ::
  "(epoll_op \<Rightarrow> nat \<Rightarrow> u32 \<Rightarrow> bool) \<Rightarrow> nat \<Rightarrow> poll_flag \<Rightarrow> EPollAIO \<Rightarrow> fault + (bool \<times> EPollAIO)" where
  "unwatch_fd_epoll ctl fd flag st =
     bind_f (VERIFY (fd < MAX_POLL_FDS)) (\<lambda>_.
     let st = st(fd := st fd AND NOT (flag_value flag));
         op = (if st fd \<noteq> 0 then EPOLL_CTL_MOD else EPOLL_CTL_DEL);
         ev = events_of (st fd)
     in bind_f (VERIFY (flag = CB_RDWR \<longrightarrow> op = EPOLL_CTL_DEL)) (\<lambda>_.
        bind_f (VERIFY (ctl op fd ev)) (\<lambda>_. Inr (op = EPOLL_CTL_DEL, st))))"

definition is_watched_epoll :: "nat \<Rightarrow> poll_flag \<Rightarrow> EPollAIO \<Rightarrow> fault + bool" where
  "is_watched_epoll fd flag st =
     bind_f (VERIFY (fd < MAX_POLL_FDS)) (\<lambda>_.
     Inr (st fd AND flag_value CB_MASK = flag_value flag))"

text \<open>\<open>ready\<close> is the part of \<open>ready_\<close> that \<open>epoll_wait\<close> filled in.\<close>

definition wait_ready_epoll :: "(nat \<times> u32) list \<Rightarrow> nat list \<times> nat list" where
  "wait_ready_epoll ready =
     (map fst (filter (\<lambda>(fd, ev). ev AND EPOLLIN \<noteq> 0) ready),
      map fst (filter (\<lambda>(fd, ev). ev AND EPOLLOUT \<noteq> 0) ready))"

section \<open>\<open>PollMgr\<close>\<close>

text \<open>A callback object is known by its address.\<close>

record PollMgr =
  callbacks :: "nat \<Rightarrow> nat option"
  aio :: SelectAIO
  pending_change :: bool

definition PollMgr_init :: "nat \<Rightarrow> PollMgr" where
  "PollMgr_init p = \<lparr>callbacks = (\<lambda>_. None), aio = SelectAIO_init p, pending_change = False\<rparr>"

definition add_callback :: "nat \<Rightarrow> poll_flag \<Rightarrow> nat \<Rightarrow> PollMgr \<Rightarrow> fault + PollMgr" where
  "add_callback fd flag ch p =
     bind_f (VERIFY (fd < MAX_POLL_FDS)) (\<lambda>_.
     let p = p\<lparr>aio := watch_fd fd flag (aio p)\<rparr> in
     bind_f (VERIFY (callbacks p fd = None \<or> callbacks p fd = Some ch)) (\<lambda>_.
     Inr (p\<lparr>callbacks := (callbacks p)(fd := Some ch)\<rparr>)))"

text \<open>\<open>block_remove_fd\<close> up to its wait, and after \<open>wait_loop\<close> has signalled.\<close>

definition block_remove_fd_begin :: "nat \<Rightarrow> PollMgr \<Rightarrow> fault + PollMgr" where
  "block_remove_fd_begin fd p =
     bind_f (unwatch_fd fd CB_RDWR (aio p)) (\<lambda>(_, a).
     Inr (p\<lparr>aio := a, pending_change := True\<rparr>))"

definition block_remove_fd_end :: "nat \<Rightarrow> PollMgr \<Rightarrow> PollMgr" where
  "block_remove_fd_end fd p = p\<lparr>callbacks := (callbacks p)(fd := None)\<rparr>"

definition del_callback :: "nat \<Rightarrow> poll_flag \<Rightarrow> PollMgr \<Rightarrow> fault + PollMgr" where
  "del_callback fd flag p =
     bind_f (unwatch_fd fd flag (aio p)) (\<lambda>(gone, a).
     let p = p\<lparr>aio := a\<rparr> in
     Inr (if gone then p\<lparr>callbacks := (callbacks p)(fd := None)\<rparr> else p))"

definition has_callback :: "nat \<Rightarrow> poll_flag \<Rightarrow> nat \<Rightarrow> PollMgr \<Rightarrow> bool" where
  "has_callback fd flag c p =
     (if callbacks p fd \<noteq> Some c then False else is_watched fd flag (aio p))"

text \<open>
  One round of \<open>wait_loop\<close>. \<open>read_cb\<close> and \<open>write_cb\<close> are the virtual calls; they may change
  the manager and the state \<open>'s\<close> of the objects behind the callbacks.
\<close>

definition wait_loop_top :: "PollMgr \<Rightarrow> PollMgr \<times> bool" where
  "wait_loop_top p =
     (if pending_change p then (p\<lparr>pending_change := False\<rparr>, True) else (p, False))"

fun run_cbs ::
  "(nat \<Rightarrow> nat \<Rightarrow> PollMgr \<times> 's \<Rightarrow> fault + (PollMgr \<times> 's)) \<Rightarrow> nat list \<Rightarrow> PollMgr \<times> 's \<Rightarrow>
   fault + (PollMgr \<times> 's)" where
  "run_cbs cb [] ps = Inr ps"
| "run_cbs cb (fd # fds) ps =
     bind_f (case callbacks (fst ps) fd of None \<Rightarrow> Inr ps | Some c \<Rightarrow> cb c fd ps) (run_cbs cb fds)"

definition wait_loop_round ::
  "(nat \<Rightarrow> nat \<Rightarrow> PollMgr \<times> 's \<Rightarrow> fault + (PollMgr \<times> 's)) \<Rightarrow>
   (nat \<Rightarrow> nat \<Rightarrow> PollMgr \<times> 's \<Rightarrow> fault + (PollMgr \<times> 's)) \<Rightarrow>
   select_result \<Rightarrow> PollMgr \<times> 's \<Rightarrow> fault + (PollMgr \<times> 's)" where
  "wait_loop_round read_cb write_cb sel = (\<lambda>(p, s).
     let p = fst (wait_loop_top p) in
     bind_f (wait_ready sel (aio p)) (\<lambda>(readable, writable, a).
     let p = p\<lparr>aio := a\<rparr> in
     if readable = [] \<and> writable = [] then Inr (p, s)
     else bind_f (run_cbs read_cb readable (p, s)) (run_cbs write_cb writable)))"

section \<open>The highest descriptor\<close>

definition watched :: "SelectAIO \<Rightarrow> nat set" where
  "watched a = rfds a \<union> wfds a"

definition aio_wf :: "SelectAIO \<Rightarrow> bool" where
  "aio_wf a \<longleftrightarrow> pipefd0 a \<in> rfds a \<and> highfds a \<in> watched a \<and> (\<forall>fd \<in> watched a. fd \<le> highfds a)"

lemma aio_wf_init [inv_intros]: "aio_wf (SelectAIO_init p)"
  by (simp add: aio_wf_def watched_def SelectAIO_init_def)

lemma watch_fd_simps [simp]:
  "rfds (watch_fd fd flag a) = (if flag = CB_WRONLY then rfds a else insert fd (rfds a))"
  "wfds (watch_fd fd flag a) = (if flag = CB_RDONLY then wfds a else insert fd (wfds a))"
  "highfds (watch_fd fd flag a) = max (highfds a) fd"
  "pipefd0 (watch_fd fd flag a) = pipefd0 a"
  by (cases flag; simp add: watch_fd_def Let_def)+

lemma aio_wf_watch_fd [inv_intros]: "aio_wf a \<Longrightarrow> aio_wf (watch_fd fd flag a)"
  by (auto simp: aio_wf_def watched_def max_def intro: order_trans)

text \<open>The search of \<open>unwatch_fd\<close> ends with the last watched descriptor it has seen.\<close>

lemma scan_high:
  "fold (\<lambda>i newh. if i \<in> R then i else if i \<in> W then i else newh) [0..<n] p =
     (if \<exists>i < n. i \<in> R \<union> W then Max {i. i < n \<and> i \<in> R \<union> W} else p)"
proof (induction n)
  case 0
  show ?case by simp
next
  case (Suc n)
  have fin: "finite {i. i < m \<and> i \<in> R \<union> W}" for m by (rule finite_subset [of _ "{..<m}"]) auto
  show ?case
  proof (cases "n \<in> R \<union> W")
    case True
    then have "Max {i. i < Suc n \<and> i \<in> R \<union> W} = n"
      by (intro Max_eqI) (use fin in auto)
    with True show ?thesis by auto
  next
    case False
    then have "{i. i < Suc n \<and> i \<in> R \<union> W} = {i. i < n \<and> i \<in> R \<union> W}"
      by (auto simp: less_Suc_eq)
    moreover from False have "(\<exists>i < Suc n. i \<in> R \<union> W) \<longleftrightarrow> (\<exists>i < n. i \<in> R \<union> W)"
      by (auto simp: less_Suc_eq)
    ultimately show ?thesis using False Suc.IH by auto
  qed
qed

lemma new_high_max:
  assumes "pipefd0 a \<in> rfds a" and "\<forall>fd \<in> watched a. fd \<le> highfds a"
  shows "new_high a \<in> watched a" and "\<forall>fd \<in> watched a. fd \<le> new_high a"
proof -
  let ?S = "{i. i < highfds a + 1 \<and> i \<in> rfds a \<union> wfds a}"
  have eq: "?S = watched a" using assms(2) by (auto simp: watched_def less_Suc_eq_le)
  have ex: "pipefd0 a \<in> ?S" using assms by (auto simp: watched_def less_Suc_eq_le)
  have fin: "finite ?S" by (rule finite_subset [of _ "{..<highfds a + 1}"]) auto
  have "new_high a = Max ?S"
    using ex scan_high [of "rfds a" "wfds a" "highfds a + 1" "pipefd0 a"]
    unfolding new_high_def by auto
  with fin ex eq show "new_high a \<in> watched a" "\<forall>fd \<in> watched a. fd \<le> new_high a"
    using Max_in [OF fin] Max_ge [OF fin] by auto
qed

lemma aio_wf_unwatch_fd [inv_intros]:
  assumes "aio_wf a" and "fd \<noteq> pipefd0 a" and "unwatch_fd fd flag a = Inr (gone, a')"
  shows "aio_wf a'"
proof -
  define b where "b = (if flag = CB_RDONLY then a\<lparr>rfds := rfds a - {fd}\<rparr>
             else if flag = CB_WRONLY then a\<lparr>wfds := wfds a - {fd}\<rparr>
             else a\<lparr>wfds := wfds a - {fd}, rfds := rfds a - {fd}\<rparr>)"
  have b: "pipefd0 b = pipefd0 a" "highfds b = highfds a" "pipefd0 b \<in> rfds b"
    "watched b \<subseteq> watched a" "watched a - {fd} \<subseteq> watched b" "\<forall>fd \<in> watched b. fd \<le> highfds b"
    using assms(1,2) by (auto simp: b_def aio_wf_def watched_def)
  define c where "c = (if fd \<notin> rfds b \<and> fd \<notin> wfds b \<and> fd = highfds b
             then b\<lparr>highfds := new_high b\<rparr> else b)"
  have "aio_wf c"
    using b assms(1) new_high_max [OF b(3,6)] by (auto simp: c_def aio_wf_def watched_def)
  moreover have "a' = (if flag = CB_RDWR then c\<lparr>pipe_bytes := pipe_bytes c + 1\<rparr> else c)"
    using assms(3) by (auto simp: unwatch_fd_def Let_def c_def b_def split: if_splits)
  ultimately show ?thesis by (auto simp: aio_wf_def watched_def)
qed

lemma unwatch_fd_watched:
  assumes "unwatch_fd fd flag a = Inr (gone, a')"
  shows "watched a - {fd} \<subseteq> watched a'" and "watched a' \<subseteq> watched a"
    and "gone \<longleftrightarrow> fd \<notin> watched a'" and "pipefd0 a' = pipefd0 a"
  using assms by (auto simp: unwatch_fd_def Let_def watched_def split: if_splits)

section \<open>What \<open>wait_ready\<close> reports\<close>

lemma scan_fds_result:
  "scan_fds R W fds (rd, wr, a) = Inr (rd', wr', a') \<Longrightarrow>
   rd' = rd @ filter (\<lambda>fd. fd \<in> R \<and> fd \<noteq> pipefd0 a) fds \<and>
   wr' = wr @ filter (\<lambda>fd. fd \<in> W \<and> \<not> (fd = pipefd0 a \<and> fd \<in> R)) fds \<and>
   rfds a' = rfds a \<and> wfds a' = wfds a \<and> highfds a' = highfds a \<and> pipefd0 a' = pipefd0 a"
proof (induction fds arbitrary: rd wr a)
  case (Cons fd fds)
  show ?case
  proof (cases "fd = pipefd0 a \<and> fd \<in> R")
    case True
    with Cons.prems have "scan_fds R W fds (rd, wr, a\<lparr>pipe_bytes := pipe_bytes a - 1\<rparr>) = Inr (rd', wr', a')"
      by (auto simp: scan_fd_def bind_f_eq_Inr)
    from Cons.IH [OF this] True show ?thesis by auto
  next
    case False
    with Cons.prems have "scan_fds R W fds (rd @ (if fd \<in> R then [fd] else []),
        wr @ (if fd \<in> W then [fd] else []), a) = Inr (rd', wr', a')"
      by (simp add: scan_fd_def split del: if_split)
    from Cons.IH [OF this] False show ?thesis by auto
  qed
qed simp

lemmas scan_fds_ok = scan_fds_result [THEN conjunct1]
  scan_fds_result [THEN conjunct2, THEN conjunct1]
  scan_fds_result [THEN conjunct2, THEN conjunct2]

lemma aio_wf_wait_ready [inv_intros]:
  assumes "aio_wf a" and "wait_ready sel a = Inr (rd, wr, a')"
  shows "aio_wf a'"
proof (cases sel)
  case (SelReady R W)
  with assms(2) have "scan_fds R W [0..<highfds a + 1] ([], [], a) = Inr (rd, wr, a')"
    by (simp add: wait_ready_def)
  from scan_fds_ok(3) [OF this] assms(1) show ?thesis by (simp add: aio_wf_def watched_def)
qed (use assms in \<open>auto simp: wait_ready_def\<close>)

lemma scan_fds_total:
  assumes "pipefd0 a \<in> R \<Longrightarrow> 0 < pipe_bytes a" and "distinct fds"
  shows "\<exists>rd' wr' a'. scan_fds R W fds (rd, wr, a) = Inr (rd', wr', a')"
  using assms
proof (induction fds arbitrary: rd wr a)
  case (Cons fd fds)
  show ?case
  proof (cases "fd = pipefd0 a \<and> fd \<in> R")
    case True
    then have "pipefd0 a \<notin> set fds" using Cons.prems(2) by auto
    have nopipe: "\<exists>rd' wr' a'. scan_fds R W gs (rd, wr, a) = Inr (rd', wr', a')"
      if "pipefd0 a \<notin> set gs" for gs rd wr a
      using that by (induction gs arbitrary: rd wr) (auto simp: scan_fd_def)
    show ?thesis
      using True Cons.prems(1) nopipe [of "a\<lparr>pipe_bytes := pipe_bytes a - 1\<rparr>" fds] \<open>pipefd0 a \<notin> set fds\<close>
      by (auto simp: scan_fd_def)
  next
    case False
    then show ?thesis using Cons by (auto simp: scan_fd_def)
  qed
qed simp

lemma wait_ready_reports:
  assumes "aio_wf a" and "R \<subseteq> rfds a" and "W \<subseteq> wfds a"
    and "pipefd0 a \<in> R \<Longrightarrow> 0 < pipe_bytes a" and "pipefd0 a \<notin> wfds a"
  shows "\<exists>rd wr a'. wait_ready (SelReady R W) a = Inr (rd, wr, a') \<and>
           set rd = R - {pipefd0 a} \<and> set wr = W \<and> distinct rd \<and> distinct wr"
proof -
  obtain rd wr a' where s: "scan_fds R W [0..<highfds a + 1] ([], [], a) = Inr (rd, wr, a')"
    using scan_fds_total [of a R "[0..<highfds a + 1]" W "[]" "[]"] assms(4) by auto
  have "R \<subseteq> set [0..<highfds a + 1]" "W \<subseteq> set [0..<highfds a + 1]"
    using assms(1-3) by (auto simp: aio_wf_def watched_def less_Suc_eq_le simp del: upt_Suc)
  then have "set rd = R - {pipefd0 a}" "set wr = W" "distinct rd" "distinct wr"
    using assms(3,5) unfolding scan_fds_ok(1,2) [OF s] by (auto simp del: upt_Suc)
  with s show ?thesis by (simp add: wait_ready_def)
qed

text \<open>The operations of the poll manager on its descriptor sets; none of them names the pipe.\<close>

inductive aio_step :: "SelectAIO \<Rightarrow> SelectAIO \<Rightarrow> bool" where
  aio_watch: "fd \<noteq> pipefd0 a \<Longrightarrow> aio_step a (watch_fd fd flag a)"
| aio_unwatch: "fd \<noteq> pipefd0 a \<Longrightarrow> unwatch_fd fd flag a = Inr (gone, a') \<Longrightarrow> aio_step a a'"
| aio_wait: "wait_ready sel a = Inr (rd, wr, a') \<Longrightarrow> aio_step a a'"

definition aio_start :: "SelectAIO \<Rightarrow> bool" where
  "aio_start a \<longleftrightarrow> (\<exists>p. a = SelectAIO_init p)"

lemma unwatch_fd_pipe:
  "unwatch_fd fd flag a = Inr (gone, a') \<Longrightarrow> pipefd0 a' = pipefd0 a \<and> wfds a' \<subseteq> wfds a"
  by (auto simp: unwatch_fd_def Let_def split: if_splits)

lemma wait_ready_pipe:
  "wait_ready sel a = Inr (rd, wr, a') \<Longrightarrow> pipefd0 a' = pipefd0 a \<and> wfds a' = wfds a"
  by (cases sel) (auto simp: wait_ready_def simp del: upt_Suc dest: scan_fds_ok(3))

interpretation poll: step_invariant aio_start aio_step "\<lambda>a. aio_wf a \<and> pipefd0 a \<notin> wfds a"
proof
  fix a assume "aio_start a"
  then show "aio_wf a \<and> pipefd0 a \<notin> wfds a"
    by (auto simp: aio_start_def intro: aio_wf_init) (simp add: SelectAIO_init_def)
next
  fix a b assume a: "aio_wf a \<and> pipefd0 a \<notin> wfds a" and "aio_step a b"
  from this(2) show "aio_wf b \<and> pipefd0 b \<notin> wfds b"
  proof cases
    case (aio_watch fd flag)
    with a show ?thesis by (auto intro: aio_wf_watch_fd)
  next
    case (aio_unwatch fd flag gone)
    with a show ?thesis using aio_wf_unwatch_fd [of a fd flag gone b] unwatch_fd_pipe [of fd flag a gone b] by auto
  next
    case (aio_wait sel rd wr)
    with a show ?thesis using aio_wf_wait_ready [of a sel rd wr b] wait_ready_pipe [of sel a rd wr b] by auto
  qed
qed

text \<open>
  C34. The poll manager hides no descriptor from \<open>select\<close>: in every state that a sequence of
  \<open>watch_fd\<close>, \<open>unwatch_fd\<close> and \<open>wait_ready\<close> can produce, \<open>highfds_\<close> bounds the watched
  descriptors, and a round of \<open>wait_ready\<close> in which the kernel reports the sets \<open>R\<close> and \<open>W\<close>
  hands exactly these descriptors, each once, to the callbacks; only the wake-up pipe, which
  has a byte when it is reported, is kept back.
\<close>

theorem wait_ready_exact:
  assumes "reach aio_start aio_step a" and "R \<subseteq> rfds a" and "W \<subseteq> wfds a"
    and "pipefd0 a \<in> R \<longrightarrow> 0 < pipe_bytes a"
  shows "(\<exists>rd wr a'. wait_ready (SelReady R W) a = Inr (rd, wr, a') \<and>
            set rd = R - {pipefd0 a} \<and> set wr = W \<and> distinct rd \<and> distinct wr) \<and>
         (\<forall>fd \<in> rfds a \<union> wfds a. fd \<le> highfds a)"
  using wait_ready_reports [of a R W] poll.reach_inv [OF assms(1)] assms(2-4)
  by (simp add: aio_wf_def watched_def)

theorem wait_ready_exact_witness:
  "\<exists>rd wr a'. wait_ready (SelReady {5} {}) (watch_fd 5 CB_RDONLY (SelectAIO_init 3)) = Inr (rd, wr, a') \<and>
     set rd = {5} \<and> set wr = {} \<and> distinct rd \<and> distinct wr"
proof -
  have "reach aio_start aio_step (watch_fd 5 CB_RDONLY (SelectAIO_init 3))"
    by (rule reach_step, rule reach_init [where s = "SelectAIO_init 3"])
       (auto simp: aio_start_def SelectAIO_init_def intro: aio_watch)
  from wait_ready_exact [OF this, of "{5}" "{}"] show ?thesis
    by (simp add: SelectAIO_init_def)
qed

section \<open>The callback table\<close>

text \<open>Every descriptor that is watched, apart from the pipe, has a callback, and conversely.\<close>

definition pm_wf :: "PollMgr \<Rightarrow> bool" where
  "pm_wf p \<longleftrightarrow> aio_wf (aio p) \<and>
     (\<forall>fd. fd \<noteq> pipefd0 (aio p) \<longrightarrow> fd \<in> watched (aio p) \<longrightarrow> callbacks p fd \<noteq> None)"

lemma pm_wf_init [inv_intros]: "pm_wf (PollMgr_init p)"
  using aio_wf_init by (simp add: pm_wf_def PollMgr_init_def) (simp add: watched_def SelectAIO_init_def)

lemma pm_wf_add_callback [inv_intros]:
  "pm_wf p \<Longrightarrow> add_callback fd flag ch p = Inr p' \<Longrightarrow> pm_wf p' \<and> callbacks p' fd = Some ch"
  using aio_wf_watch_fd [of "aio p"]
  by (auto simp: pm_wf_def add_callback_def bind_f_eq_Inr Let_def watched_def split: if_splits)

lemma pm_wf_del_callback [inv_intros]:
  assumes "pm_wf p" and "fd \<noteq> pipefd0 (aio p)" and "del_callback fd flag p = Inr p'"
  shows "pm_wf p'"
proof -
  from assms(3) obtain gone a where a: "unwatch_fd fd flag (aio p) = Inr (gone, a)"
    and p': "p' = (if gone then p\<lparr>aio := a, callbacks := (callbacks p)(fd := None)\<rparr> else p\<lparr>aio := a\<rparr>)"
    by (auto simp: del_callback_def bind_f_eq_Inr Let_def)
  from assms(1) aio_wf_unwatch_fd [OF _ assms(2) a] unwatch_fd_watched [OF a] p'
  show ?thesis by (auto simp: pm_wf_def split: if_splits)
qed

lemma pm_wf_block_remove [inv_intros]:
  assumes "pm_wf p" and "fd \<noteq> pipefd0 (aio p)" and "block_remove_fd_begin fd p = Inr p'"
  shows "pm_wf p'" and "fd \<notin> watched (aio p')"
proof -
  from assms(3) obtain gone a where a: "unwatch_fd fd CB_RDWR (aio p) = Inr (gone, a)"
    and p': "p' = p\<lparr>aio := a, pending_change := True\<rparr>"
    by (auto simp: block_remove_fd_begin_def bind_f_eq_Inr)
  from assms(1) aio_wf_unwatch_fd [OF _ assms(2) a] unwatch_fd_watched [OF a] p'
  show "pm_wf p'" by (auto simp: pm_wf_def)
  from a p' show "fd \<notin> watched (aio p')"
    by (auto simp: unwatch_fd_def Let_def watched_def split: if_splits)
qed

section \<open>A masked comparison\<close>

lemma status_bits:
  assumes "st AND NOT 0x11 = (0 :: i32)"
  shows "st AND flag_value CB_MASK = flag_value flag \<longleftrightarrow> flag = CB_NONE"
  using assms by (cases flag) simp_all

text \<open>
  \<open>EPollAIO::is_watched\<close> never recognises a watched descriptor: on every status word that
  \<open>watch_fd\<close> can build from \<open>CB_RDONLY\<close>, \<open>CB_WRONLY\<close> and \<open>CB_RDWR\<close>, the comparison
  under \<open>CB_MASK = ~0x11\<close> answers true only for \<open>CB_NONE\<close>.
\<close>

lemma epoll_is_watched_never:
  assumes "fd < MAX_POLL_FDS" and "st fd AND NOT 0x11 = 0"
  shows "is_watched_epoll fd flag st = Inr (flag = CB_NONE)"
  using assms status_bits [of "st fd" flag] by (simp add: is_watched_epoll_def)

end
