(* ===== verification/Connection.thy ===== *)
theory Connection
  imports Marshall Pollmgr
begin

text \<open>
  TCP connections that carry PDUs, \<^verbatim>\<open>rpc/connection.cc\<close> and \<^verbatim>\<open>rpc/connection.h\<close>. The answers
  of \<open>read\<close>, \<open>write\<close>, \<open>accept\<close> and \<open>connect\<close> and the upcall \<open>got_pdu\<close> of the channel manager
  are arguments. A method that waits on a condition variable is split at the wait: the part
  before it and the part after it are operations of their own. \<open>sock_out\<close> collects the bytes
  that \<open>write\<close> has accepted. The lemmas show that a frame is assembled from any sequence of
  partial reads, that \<open>send\<close> reports success only when the whole frame has been written, and
  for which announced sizes \<open>readpdu\<close> leaves its buffer.
\<close>

section \<open>State\<close>

record charbuf =
  cb_buf :: "cell list option"
  cb_sz :: int
  cb_solong :: int

definition charbuf_init :: charbuf where
  "charbuf_init = \<lparr>cb_buf = None, cb_sz = 0, cb_solong = 0\<rparr>"

record connection =
  c_addr :: nat           \<comment> \<open>\<open>this\<close>\<close>
  c_fd :: nat
  c_dead :: bool
  c_wpdu :: charbuf
  c_rpdu :: charbuf
  c_time :: "int \<times> int"   \<comment> \<open>\<open>create_time_\<close>: seconds and microseconds\<close>
  c_waiters :: int
  c_refno :: int
  sock_out :: "cell list"

definition MAX_PDU :: int where
  "MAX_PDU = 10 * 2 ^ 20"

definition connection_init :: "nat \<Rightarrow> nat \<Rightarrow> int \<times> int \<Rightarrow> PollMgr \<Rightarrow> fault + (connection \<times> PollMgr)" where
  "connection_init addr fd now p =
     bind_f (add_callback fd CB_RDONLY addr p) (\<lambda>p.
     Inr (\<lparr>c_addr = addr, c_fd = fd, c_dead = False, c_wpdu = charbuf_init, c_rpdu = charbuf_init,
           c_time = now, c_waiters = 0, c_refno = 1, sock_out = []\<rparr>, p))"

definition connection_delete :: "connection \<Rightarrow> fault + unit" where
  "connection_delete c =
     bind_f (VERIFY (c_dead c)) (\<lambda>_. VERIFY (cb_buf (c_wpdu c) = None))"

definition incref :: "connection \<Rightarrow> connection" where
  "incref c = c\<lparr>c_refno := c_refno c + 1\<rparr>"

definition isdead :: "connection \<Rightarrow> bool" where
  "isdead c = c_dead c"

text \<open>\<open>decref\<close>; the result is \<open>None\<close> when the object has been deleted.\<close>

definition decref :: "connection \<Rightarrow> fault + connection option" where
  "decref c =
     (let c = c\<lparr>c_refno := c_refno c - 1\<rparr> in
      bind_f (VERIFY (c_refno c \<ge> 0)) (\<lambda>_.
      if c_refno c = 0 \<and> c_dead c then bind_f (connection_delete c) (\<lambda>_. Inr None)
      else Inr (Some c)))"

definition ref :: "connection \<Rightarrow> int" where
  "ref c = c_refno c"

definition compare :: "connection \<Rightarrow> connection \<Rightarrow> int" where
  "compare c another =
     (if fst (c_time c) > fst (c_time another) then 1
      else if fst (c_time c) < fst (c_time another) then -1
      else if snd (c_time c) > snd (c_time another) then 1
      else if snd (c_time c) < snd (c_time another) then -1
      else 0)"

text \<open>
  \<open>closeconn\<close>: the result tells whether it goes on to wait in \<open>block_remove_fd\<close>, which then
  ends with \<open>block_remove_fd_end\<close>.
\<close>

definition closeconn :: "connection \<Rightarrow> PollMgr \<Rightarrow> fault + (bool \<times> connection \<times> PollMgr)" where
  "closeconn c p =
     (if \<not> c_dead c
      then bind_f (block_remove_fd_begin (c_fd c) p) (\<lambda>p. Inr (True, c\<lparr>c_dead := True\<rparr>, p))
      else Inr (False, c, p))"

section \<open>Writing\<close>

text \<open>What \<open>write\<close> answers: a count, or an error that is \<open>EAGAIN\<close> or not.\<close>

datatype write_result = Wrote nat | WriteFailed bool

text \<open>\<open>htonl\<close> of an \<open>int\<close> as the four bytes that end up in memory.\<close>

definition htonl_bytes :: "int \<Rightarrow> u8 list" where
  "htonl_bytes sz = (let x = of_int sz :: u32 in
     [ucast (drop_bit 24 x AND 0xff), ucast (drop_bit 16 x AND 0xff), ucast (drop_bit 8 x AND 0xff),
      ucast (x AND 0xff)])"

text \<open>\<open>bcopy\<close> of bytes over the beginning of a buffer.\<close>

definition bcopy_front :: "u8 list \<Rightarrow> cell list \<Rightarrow> fault + cell list" where
  "bcopy_front xs b =
     (if length xs \<le> length b then Inr (map Some xs @ drop (length xs) b) else Inl OutOfBounds)"

definition writepdu :: "write_result \<Rightarrow> connection \<Rightarrow> fault + (bool \<times> connection)" where
  "writepdu w c =
     (let wp = c_wpdu c in
      bind_f (VERIFY (cb_solong wp \<ge> 0)) (\<lambda>_.
      if cb_solong wp = cb_sz wp then Inr (True, c)
      else (case cb_buf wp of None \<Rightarrow> Inl OutOfBounds
        | Some b \<Rightarrow>
          bind_f (if cb_solong wp = 0 then bcopy_front (htonl_bytes (cb_sz wp)) b else Inr b) (\<lambda>b.
          (case w of
             WriteFailed again \<Rightarrow>
               Inr (again, c\<lparr>c_wpdu := if again then wp\<lparr>cb_buf := Some b\<rparr>
                                      else wp\<lparr>cb_buf := Some b, cb_solong := -1, cb_sz := 0\<rparr>\<rparr>)
           | Wrote n \<Rightarrow>
               if nat (cb_solong wp) + n \<le> length b
               then Inr (True, c\<lparr>c_wpdu := wp\<lparr>cb_buf := Some b, cb_solong := cb_solong wp + int n\<rparr>,
                                 sock_out := sock_out c @ take n (drop (nat (cb_solong wp)) b)\<rparr>)
               else Inl OutOfBounds)))))"

text \<open>
  \<open>send\<close>: after the announcement in \<open>waiters_\<close> it waits while the connection is alive and
  another PDU is being written.
\<close>

definition send_enter :: "connection \<Rightarrow> connection" where
  "send_enter c = c\<lparr>c_waiters := c_waiters c + 1\<rparr>"

definition send_may_go :: "connection \<Rightarrow> bool" where
  "send_may_go c = (c_dead c \<or> cb_buf (c_wpdu c) = None)"

text \<open>Where \<open>send\<close> continues: it returns, removes the descriptor, or waits for \<open>write_cb\<close>.\<close>

datatype send_next = SendReturns bool | SendRemoves | SendWaits | SendFinishes

text \<open>
  The part up to the next wait. The random shutdown of the lossy test mode only influences
  what the kernel answers afterwards.
\<close>

definition send_go ::
  "cell list \<Rightarrow> int \<Rightarrow> write_result \<Rightarrow> connection \<Rightarrow> PollMgr \<Rightarrow>
   fault + (send_next \<times> connection \<times> PollMgr)" where
  "send_go b sz w c p =
     (let c = c\<lparr>c_waiters := c_waiters c - 1\<rparr> in
      if c_dead c then Inr (SendReturns False, c, p)
      else
        let c = c\<lparr>c_wpdu := \<lparr>cb_buf = Some b, cb_sz = sz, cb_solong = 0\<rparr>\<rparr> in
        bind_f (writepdu w c) (\<lambda>(ok, c).
        if \<not> ok
        then bind_f (block_remove_fd_begin (c_fd c) p) (\<lambda>p. Inr (SendRemoves, c\<lparr>c_dead := True\<rparr>, p))
        else if cb_solong (c_wpdu c) = cb_sz (c_wpdu c) then Inr (SendFinishes, c, p)
        else bind_f (add_callback (c_fd c) CB_WRONLY (c_addr c) p) (\<lambda>p. Inr (SendWaits, c, p))))"

definition send_wakes :: "connection \<Rightarrow> bool" where
  "send_wakes c = (\<not> (\<not> c_dead c \<and> cb_solong (c_wpdu c) \<ge> 0 \<and> cb_solong (c_wpdu c) < cb_sz (c_wpdu c)))"

definition send_finish :: "connection \<Rightarrow> bool \<times> connection" where
  "send_finish c =
     (\<not> c_dead c \<and> cb_solong (c_wpdu c) = cb_sz (c_wpdu c), c\<lparr>c_wpdu := charbuf_init\<rparr>)"

definition write_cb :: "write_result \<Rightarrow> nat \<Rightarrow> connection \<Rightarrow> PollMgr \<Rightarrow> fault + (connection \<times> PollMgr)" where
  "write_cb w s c p =
     bind_f (VERIFY (\<not> c_dead c)) (\<lambda>_.
     bind_f (VERIFY (c_fd c = s)) (\<lambda>_.
     if cb_sz (c_wpdu c) = 0
     then bind_f (del_callback (c_fd c) CB_WRONLY p) (\<lambda>p. Inr (c, p))
     else bind_f (writepdu w c) (\<lambda>(ok, c).
       if \<not> ok
       then bind_f (del_callback (c_fd c) CB_RDWR p) (\<lambda>p. Inr (c\<lparr>c_dead := True\<rparr>, p))
       else bind_f (VERIFY (cb_solong (c_wpdu c) \<ge> 0)) (\<lambda>_. Inr (c, p)))))"

section \<open>Reading\<close>

text \<open>
  What \<open>read\<close> answers: \<open>Some\<close> of the bytes (none at the end of the stream) or \<open>None\<close> for an
  error, together with whether \<open>errno\<close> is \<open>EAGAIN\<close> afterwards.
\<close>

type_synonym read_result = "u8 list option \<times> bool"

definition ntohl_bytes :: "u8 list \<Rightarrow> int" where
  "ntohl_bytes bs = sint (((push_bit 24 (ucast (bs ! 0)) OR push_bit 16 (ucast (bs ! 1)))
     OR push_bit 8 (ucast (bs ! 2))) OR ucast (bs ! 3) :: u32)"

text \<open>
  \<open>malloc (sz + sizeof (sz))\<close> with the sum in \<open>size_t\<close>: a negative \<open>sz\<close> below \<open>-4\<close> becomes a
  request of almost \<open>2^64\<close> bytes, which cannot be met.
\<close>

definition malloc_pdu :: "int \<Rightarrow> cell list option" where
  "malloc_pdu sz = (if sz + 4 < 0 then None else Some (replicate (nat (sz + 4)) None))"

definition read_body :: "read_result \<Rightarrow> connection \<Rightarrow> fault + (bool \<times> connection)" where
  "read_body r c =
     (let rp = c_rpdu c in
      (case r of
         (Some (x # xs), _) \<Rightarrow>
           (case cb_buf rp of None \<Rightarrow> Inl OutOfBounds
            | Some b \<Rightarrow>
                let bs = x # xs; i = nat (cb_solong rp) in
                if i + length bs \<le> length b
                then Inr (True, c\<lparr>c_rpdu := rp\<lparr>cb_buf := Some (take i b @ map Some bs @ drop (i + length bs) b),
                                               cb_solong := cb_solong rp + int (length bs)\<rparr>\<rparr>)
                else Inl OutOfBounds)
       | (_, again) \<Rightarrow>
           if again then Inr (True, c)
           else Inr (False, c\<lparr>c_rpdu := charbuf_init\<rparr>)))"

definition readpdu :: "read_result \<Rightarrow> read_result \<Rightarrow> connection \<Rightarrow> fault + (bool \<times> connection)" where
  "readpdu r1 r2 c =
     (if cb_sz (c_rpdu c) \<noteq> 0 then read_body r2 c
      else (case r1 of
          (None, again) \<Rightarrow> bind_f (VERIFY (\<not> again)) (\<lambda>_. Inr (False, c))
        | (Some bs, _) \<Rightarrow>
            if length bs \<noteq> 4 then Inr (False, c)
            else let sz = ntohl_bytes bs in
              if sz > MAX_PDU then Inr (False, c)
              else bind_f (VERIFY (cb_buf (c_rpdu c) = None)) (\<lambda>_.
                (case malloc_pdu sz of None \<Rightarrow> Inl VerifyFailed
                 | Some b \<Rightarrow>
                     bind_f (bcopy_front bs b) (\<lambda>b.
                     read_body r2 (c\<lparr>c_rpdu := \<lparr>cb_buf = Some b, cb_sz = sz, cb_solong = 4\<rparr>\<rparr>))))))"

text \<open>\<open>got_pdu\<close> is the upcall of the channel manager with the state \<open>'s\<close>.\<close>

definition read_cb ::
  "(connection \<Rightarrow> cell list \<Rightarrow> int \<Rightarrow> 's \<Rightarrow> fault + (bool \<times> connection \<times> 's)) \<Rightarrow>
   read_result \<Rightarrow> read_result \<Rightarrow> nat \<Rightarrow> connection \<Rightarrow> PollMgr \<Rightarrow> 's \<Rightarrow>
   fault + (connection \<times> PollMgr \<times> 's)" where
  "read_cb got_pdu r1 r2 s c p st =
     bind_f (VERIFY (c_fd c = s)) (\<lambda>_.
     if c_dead c then Inr (c, p, st)
     else
       bind_f (if cb_buf (c_rpdu c) = None \<or> cb_solong (c_rpdu c) < cb_sz (c_rpdu c)
               then readpdu r1 r2 c else Inr (True, c)) (\<lambda>(succ, c).
       bind_f (if \<not> succ
               then bind_f (del_callback (c_fd c) CB_RDWR p) (\<lambda>p. Inr (c\<lparr>c_dead := True\<rparr>, p))
               else Inr (c, p)) (\<lambda>(c, p).
       (case cb_buf (c_rpdu c) of
          None \<Rightarrow> Inr (c, p, st)
        | Some b \<Rightarrow>
            if cb_sz (c_rpdu c) = cb_solong (c_rpdu c)
            then bind_f (got_pdu c b (cb_sz (c_rpdu c)) st) (\<lambda>(consumed, c, st).
                 Inr (if consumed then c\<lparr>c_rpdu := charbuf_init\<rparr> else c, p, st))
            else Inr (c, p, st)))))"

section \<open>Listening and connecting\<close>

record tcpsconn =
  ts_port :: int
  ts_pipe0 :: nat
  ts_tcp :: nat
  ts_conns :: "(nat \<times> connection) list"   \<comment> \<open>\<open>conns_\<close> in the order of its keys\<close>

text \<open>
  The constructor; the arguments are what \<open>socket\<close>, \<open>bind\<close> and \<open>listen\<close> return, the port that \<open>getsockname\<close> reports, the ends of the
  pipe, and whether the accepting thread could be started. \<open>None\<close> stands for a failed call.
\<close>

definition tcpsconn_init ::
  "int \<Rightarrow> int \<Rightarrow> int \<Rightarrow> u16 option \<Rightarrow> (nat \<times> nat) option \<Rightarrow> bool \<Rightarrow> fault + tcpsconn" where
  "tcpsconn_init sock bound listening name pipe th =
     bind_f (VERIFY (0 \<le> sock)) (\<lambda>_.
     bind_f (VERIFY (0 \<le> bound)) (\<lambda>_.
     bind_f (VERIFY (0 \<le> listening)) (\<lambda>_.
     (case name of None \<Rightarrow> Inl VerifyFailed
      | Some port \<Rightarrow>
          (case pipe of None \<Rightarrow> Inl VerifyFailed
           | Some (p0, p1) \<Rightarrow>
               bind_f (VERIFY th) (\<lambda>_.
               Inr \<lparr>ts_port = uint port, ts_pipe0 = p0, ts_tcp = nat sock, ts_conns = []\<rparr>))))))"

text \<open>The loop of \<open>process_accept\<close> that collects dead connections.\<close>

fun gc_conns :: "(nat \<times> connection) list \<Rightarrow> fault + (nat \<times> connection) list" where
  "gc_conns [] = Inr []"
| "gc_conns ((fd, c) # cs) =
     (if isdead c \<and> ref c = 1
      then bind_f (decref c) (\<lambda>_. gc_conns cs)
      else bind_f (gc_conns cs) (\<lambda>cs'. Inr ((fd, c) # cs')))"

definition conns_put :: "nat \<Rightarrow> connection \<Rightarrow> (nat \<times> connection) list \<Rightarrow> (nat \<times> connection) list" where
  "conns_put fd c cs = filter (\<lambda>(f, _). f < fd) cs @ (fd, c) # filter (\<lambda>(f, _). fd < f) cs"

text \<open>\<open>None\<close> as the new descriptor is a failed \<open>accept\<close>, which ends the accepting thread.\<close>

definition process_accept ::
  "nat option \<Rightarrow> nat \<Rightarrow> int \<times> int \<Rightarrow> tcpsconn \<Rightarrow> PollMgr \<Rightarrow> fault + (bool \<times> tcpsconn \<times> PollMgr)" where
  "process_accept s1 addr now t p =
     (case s1 of None \<Rightarrow> Inr (False, t, p)
      | Some fd \<Rightarrow>
          bind_f (connection_init addr fd now p) (\<lambda>(ch, p).
          bind_f (gc_conns (ts_conns t)) (\<lambda>cs.
          Inr (True, t\<lparr>ts_conns := conns_put (c_fd ch) ch cs\<rparr>, p))))"

text \<open>
  One round of \<open>accept_conn\<close>; \<open>sel\<close> is the set of ready descriptors. The first component of
  the result tells whether the loop goes on.
\<close>

definition accept_conn_round ::
  "select_result \<Rightarrow> nat option \<Rightarrow> nat \<Rightarrow> int \<times> int \<Rightarrow> tcpsconn \<Rightarrow> PollMgr \<Rightarrow>
   fault + (bool \<times> tcpsconn \<times> PollMgr)" where
  "accept_conn_round sel s1 addr now t p =
     (case sel of
        SelEINTR \<Rightarrow> Inr (True, t, p)
      | SelError \<Rightarrow> Inl VerifyFailed
      | SelReady rd _ \<Rightarrow>
          if ts_pipe0 t \<in> rd then Inr (False, t, p)
          else if ts_tcp t \<in> rd then process_accept s1 addr now t p
          else Inl VerifyFailed)"

text \<open>The destructor of \<open>tcpsconn\<close> closes all connections and drops its references.\<close>

fun tcpsconn_delete :: "(nat \<times> connection) list \<Rightarrow> PollMgr \<Rightarrow> fault + PollMgr" where
  "tcpsconn_delete [] p = Inr p"
| "tcpsconn_delete ((fd, c) # cs) p =
     bind_f (closeconn c p) (\<lambda>(waits, c, p).
     bind_f (decref c) (\<lambda>_.
     tcpsconn_delete cs (if waits then block_remove_fd_end (c_fd c) p else p)))"

text \<open>\<open>connect_to_dst\<close>; \<open>None\<close> stands for a failed \<open>connect\<close>.\<close>

definition connect_to_dst ::
  "nat option \<Rightarrow> nat \<Rightarrow> int \<times> int \<Rightarrow> PollMgr \<Rightarrow> fault + (connection option \<times> PollMgr)" where
  "connect_to_dst s addr now p =
     (case s of None \<Rightarrow> Inr (None, p)
      | Some fd \<Rightarrow> bind_f (connection_init addr fd now p) (\<lambda>(c, p). Inr (Some c, p)))"

section \<open>Frames\<close>

lemma ntohl_htonl:
  assumes "- (2 ^ 31) \<le> sz" and "sz < 2 ^ 31"
  shows "ntohl_bytes (htonl_bytes sz) = sz"
proof -
  have "ntohl_bytes (htonl_bytes sz) = sint (of_int sz :: u32)"
    by (simp add: ntohl_bytes_def htonl_bytes_def Let_def u32_of_bytes)
  also have "\<dots> = sz"
    using assms by (simp add: int_word_sint mod_pos_pos_trivial)
  finally show ?thesis .
qed

lemma length_htonl_bytes [simp]: "length (htonl_bytes sz) = 4"
  by (simp add: htonl_bytes_def Let_def)

text \<open>The frame that carries the first \<open>sz\<close> cells of a buffer: its size and then the cells from 4 on.\<close>

definition framed :: "nat \<Rightarrow> cell list \<Rightarrow> cell list" where
  "framed sz b = map Some (htonl_bytes (int sz)) @ drop 4 b"

lemma length_framed [simp]: "4 \<le> length b \<Longrightarrow> length (framed sz b) = length b"
  by (simp add: framed_def)

section \<open>Sending\<close>

definition write_ok :: "write_result \<Rightarrow> connection \<Rightarrow> bool" where
  "write_ok w c = (case w of Wrote n \<Rightarrow> int n \<le> cb_sz (c_wpdu c) - cb_solong (c_wpdu c) | WriteFailed _ \<Rightarrow> True)"

definition writing :: "nat \<Rightarrow> cell list \<Rightarrow> cell list \<Rightarrow> connection \<Rightarrow> bool" where
  "writing sz b out c \<longleftrightarrow>
     (\<exists>k b'. k \<le> sz \<and> c_wpdu c = \<lparr>cb_buf = Some b', cb_sz = int sz, cb_solong = int k\<rparr> \<and>
             (if k = 0 then b' = b \<or> b' = framed sz b else b' = framed sz b) \<and>
             sock_out c = out @ take k (framed sz b))"

lemma writepdu_writing:
  assumes w: "writing sz b out c" and sz: "4 \<le> sz" "sz \<le> length b" and ok: "write_ok w c"
    and r: "writepdu w c = Inr (good, c')"
  shows "if good then writing sz b out c' \<and> c_dead c' = c_dead c
         else cb_solong (c_wpdu c') \<noteq> cb_sz (c_wpdu c')"
proof -
  from w obtain k b' where k: "k \<le> sz" and wp: "c_wpdu c = \<lparr>cb_buf = Some b', cb_sz = int sz, cb_solong = int k\<rparr>"
    and b': "if k = 0 then b' = b \<or> b' = framed sz b else b' = framed sz b"
    and out: "sock_out c = out @ take k (framed sz b)"
    by (auto simp: writing_def)
  have fr: "bcopy_front (htonl_bytes (int sz)) x = Inr (framed sz b)" if "x = b \<or> x = framed sz b" for x
    using that sz by (auto simp: bcopy_front_def framed_def)
  show ?thesis
  proof (cases "k = sz")
    case True
    with r wp w show ?thesis by (auto simp: writepdu_def Let_def)
  next
    case False
    have buf: "(if k = 0 then bcopy_front (htonl_bytes (int sz)) b' else Inr b') = Inr (framed sz b)"
      using b' fr by auto
    show ?thesis
    proof (cases w)
      case (Wrote n)
      with ok wp have n: "k + n \<le> sz" by (simp add: write_ok_def)
      have "writepdu w c = Inr (True, c\<lparr>c_wpdu := \<lparr>cb_buf = Some (framed sz b), cb_sz = int sz,
          cb_solong = int (k + n)\<rparr>, sock_out := sock_out c @ take n (drop k (framed sz b))\<rparr>)"
        using wp False Wrote n buf sz by (cases "k = 0") (simp_all add: writepdu_def Let_def)
      with r n out show ?thesis
        by (auto simp: writing_def take_add intro!: exI [of _ "k + n"])
    next
      case (WriteFailed again)
      have "writepdu w c = Inr (again, c\<lparr>c_wpdu := if again
          then \<lparr>cb_buf = Some (framed sz b), cb_sz = int sz, cb_solong = int k\<rparr>
          else \<lparr>cb_buf = Some (framed sz b), cb_sz = 0, cb_solong = -1\<rparr>\<rparr>)"
        using wp False WriteFailed buf by (cases "k = 0") (simp_all add: writepdu_def Let_def)
      with r k out show ?thesis
        by (cases again) (auto simp: writing_def intro!: exI [of _ k])
    qed
  qed
qed

text \<open>Rounds of \<open>write_cb\<close> while \<open>send\<close> waits; the kernel never accepts more than it was given.\<close>

inductive write_cbs :: "connection \<times> PollMgr \<Rightarrow> connection \<times> PollMgr \<Rightarrow> bool" where
  write_cbs_none: "write_cbs cp cp"
| write_cbs_more: "\<lbrakk>write_ok w c; write_cb w (c_fd c) c p = Inr cp; write_cbs cp cp'\<rbrakk> \<Longrightarrow> write_cbs (c, p) cp'"

definition sent_or_dead :: "nat \<Rightarrow> cell list \<Rightarrow> cell list \<Rightarrow> connection \<Rightarrow> bool" where
  "sent_or_dead sz b out c \<longleftrightarrow> c_dead c \<or> writing sz b out c"

lemma write_cb_writing:
  assumes "sent_or_dead sz b out c" and "4 \<le> sz" and "sz \<le> length b" and "write_ok w c"
    and "write_cb w s c p = Inr (c', p')"
  shows "sent_or_dead sz b out c'"
proof -
  from assms(5) have "\<not> c_dead c" by (auto simp: write_cb_def bind_f_eq_Inr)
  with assms(1) have wr: "writing sz b out c" by (simp add: sent_or_dead_def)
  then have "cb_sz (c_wpdu c) \<noteq> 0" using assms(2) by (auto simp: writing_def)
  with assms(5) obtain ok c1 where c1: "writepdu w c = Inr (ok, c1)"
    and c': "ok \<longrightarrow> c' = c1" "\<not> ok \<longrightarrow> c' = c1\<lparr>c_dead := True\<rparr>"
    by (auto simp: write_cb_def bind_f_eq_Inr split: if_splits)
  from writepdu_writing [OF wr assms(2-4) c1] c' show ?thesis
    by (cases ok) (auto simp: sent_or_dead_def)
qed

lemma write_cbs_writing:
  assumes "write_cbs cp cp'" and "sent_or_dead sz b out (fst cp)" and "4 \<le> sz" and "sz \<le> length b"
  shows "sent_or_dead sz b out (fst cp')"
  using assms by (induction rule: write_cbs.induct) (auto dest: write_cb_writing)

lemma send_go_writing:
  assumes "\<not> c_dead c" and "4 \<le> sz" and "sz \<le> length b"
    and "case w of Wrote n \<Rightarrow> n \<le> sz | WriteFailed _ \<Rightarrow> True"
    and "send_go b (int sz) w c p = Inr (nx, c1, p1)"
  shows "sent_or_dead sz b (sock_out c) c1"
proof -
  define c0 where "c0 = c\<lparr>c_waiters := c_waiters c - 1, c_wpdu := \<lparr>cb_buf = Some b, cb_sz = int sz, cb_solong = 0\<rparr>\<rparr>"
  have wr: "writing sz b (sock_out c) c0" by (simp add: writing_def c0_def)
  have ok: "write_ok w c0" using assms(4) by (simp add: write_ok_def c0_def split: write_result.splits)
  from assms(1,5) obtain good c2 where c2: "writepdu w c0 = Inr (good, c2)"
    and c1: "good \<longrightarrow> c1 = c2" "\<not> good \<longrightarrow> c1 = c2\<lparr>c_dead := True\<rparr>"
    by (auto simp: send_go_def Let_def c0_def bind_f_eq_Inr split: if_splits)
  from writepdu_writing [OF wr assms(2,3) ok c2] c1 show ?thesis
    by (cases good) (auto simp: sent_or_dead_def)
qed

text \<open>
  C28. When \<open>connection::send\<close> reports success, the whole frame is on the wire: for every split
  of the writing between the first \<open>writepdu\<close> and any number of \<open>write_cb\<close> rounds, with
  \<open>EAGAIN\<close> in between, the bytes that the kernel accepted during the call are exactly the
  size in network order followed by the caller's bytes from position 4 on.
\<close>

theorem send_success_frame:
  assumes "\<not> c_dead c" and "4 \<le> sz" and "sz \<le> length b"
    and "case w of Wrote n \<Rightarrow> n \<le> sz | WriteFailed _ \<Rightarrow> True"
    and "send_go b (int sz) w c p = Inr (nx, c1, p1)" and "write_cbs (c1, p1) (c2, p2)"
    and "send_finish c2 = (True, c3)"
  shows "sock_out c3 = sock_out c @ take sz (framed sz b)"
proof -
  have "sent_or_dead sz b (sock_out c) c2"
    using write_cbs_writing [OF assms(6) _ assms(2,3)] send_go_writing [OF assms(1-5)] by simp
  with assms(7) show ?thesis
    by (auto simp: send_finish_def sent_or_dead_def writing_def)
qed

definition demo_conn :: connection where
  "demo_conn = \<lparr>c_addr = 1, c_fd = 5, c_dead = False, c_wpdu = charbuf_init, c_rpdu = charbuf_init,
     c_time = (0, 0), c_waiters = 1, c_refno = 1, sock_out = []\<rparr>"

theorem send_success_frame_witness:
  "\<exists>nx c1 p1 c3. send_go (map Some [9, 9, 9, 9, 42]) 5 (Wrote 5) demo_conn (PollMgr_init 3) = Inr (nx, c1, p1) \<and>
     send_finish c1 = (True, c3) \<and> sock_out c3 = map Some [0, 0, 0, 5, 42]"
proof -
  obtain nx c1 p1 where go: "send_go (map Some [9, 9, 9, 9, 42]) 5 (Wrote 5) demo_conn (PollMgr_init 3) = Inr (nx, c1, p1)"
    and fin: "send_finish c1 = (True, snd (send_finish c1))"
    by (simp add: send_go_def demo_conn_def writepdu_def Let_def bcopy_front_def htonl_bytes_def send_finish_def)
  from send_success_frame [of demo_conn 5 "map Some [9, 9, 9, 9, 42]" "Wrote 5" "PollMgr_init 3" nx c1 p1 c1 p1,
      OF _ _ _ _ _ write_cbs_none fin] go
  have "sock_out (snd (send_finish c1)) = sock_out demo_conn @ take 5 (framed 5 (map Some [9, 9, 9, 9, 42]))"
    by (simp add: demo_conn_def)
  then have "sock_out (snd (send_finish c1)) = map Some [0, 0, 0, 5, 42]"
    by (simp add: demo_conn_def framed_def htonl_bytes_def Let_def)
  with go fin show ?thesis by blast
qed

section \<open>Receiving\<close>

definition assembling :: "int \<Rightarrow> u8 list \<Rightarrow> charbuf" where
  "assembling sz bs =
     \<lparr>cb_buf = Some (map Some bs @ replicate (nat (sz + 4) - length bs) None), cb_sz = sz,
      cb_solong = int (length bs)\<rparr>"

lemma read_body_assembling:
  assumes "xs \<noteq> []" and "int (length bs + length xs) \<le> sz + 4"
  shows "read_body (Some xs, e) (c\<lparr>c_rpdu := assembling sz bs\<rparr>) =
           Inr (True, c\<lparr>c_rpdu := assembling sz (bs @ xs)\<rparr>)"
proof -
  obtain y ys where xs: "xs = y # ys" using assms(1) by (cases xs) auto
  have "length bs + length xs \<le> nat (sz + 4)" using assms(2) by simp
  then show ?thesis unfolding xs by (simp add: read_body_def assembling_def Let_def)
qed

lemma readpdu_start:
  assumes "c_rpdu c = charbuf_init" and "length h = 4" and "0 \<le> ntohl_bytes h" and "ntohl_bytes h \<le> MAX_PDU"
  shows "readpdu (Some h, e) r2 c = read_body r2 (c\<lparr>c_rpdu := assembling (ntohl_bytes h) h\<rparr>)"
  using assms
  by (auto simp: readpdu_def charbuf_init_def malloc_pdu_def bcopy_front_def assembling_def Let_def
      nat_add_distrib)

lemma readpdu_more: "sz \<noteq> 0 \<Longrightarrow> readpdu r1 r2 (c\<lparr>c_rpdu := assembling sz bs\<rparr>) = read_body r2 (c\<lparr>c_rpdu := assembling sz bs\<rparr>)"
  by (simp add: readpdu_def assembling_def)

text \<open>
  Rounds of \<open>readpdu\<close> in which the kernel hands out the body of a frame in pieces; an empty
  piece stands for \<open>EAGAIN\<close>.
\<close>

definition piece :: "u8 list \<Rightarrow> read_result" where
  "piece xs = (if xs = [] then (None, True) else (Some xs, False))"

fun readpdus :: "read_result \<Rightarrow> u8 list list \<Rightarrow> connection \<Rightarrow> fault + (bool \<times> connection)" where
  "readpdus r1 [] c = Inr (True, c)"
| "readpdus r1 (x # xs) c =
     bind_f (readpdu r1 (piece x) c) (\<lambda>(ok, c). if ok then readpdus r1 xs c else Inr (False, c))"

lemma read_body_piece:
  assumes "int (length bs + length xs) \<le> sz + 4"
  shows "read_body (piece xs) (c\<lparr>c_rpdu := assembling sz bs\<rparr>) =
           Inr (True, c\<lparr>c_rpdu := assembling sz (bs @ xs)\<rparr>)"
  using assms read_body_assembling [of xs bs sz False c]
  by (cases "xs = []") (auto simp: piece_def read_body_def)

lemma readpdus_assembling:
  assumes "int (length bs + length (concat xss)) \<le> sz + 4" and "sz \<noteq> 0"
  shows "readpdus r1 xss (c\<lparr>c_rpdu := assembling sz bs\<rparr>) =
           Inr (True, c\<lparr>c_rpdu := assembling sz (bs @ concat xss)\<rparr>)"
  using assms
proof (induction xss arbitrary: bs)
  case (Cons xs xss)
  have "int (length bs + length xs) \<le> sz + 4" using Cons.prems(1) by simp
  then show ?case
    using Cons.prems Cons.IH [of "bs @ xs"] by (simp add: readpdu_more read_body_piece)
qed simp

text \<open>
  C22. A frame is assembled whatever the sizes of the partial reads: when the four bytes of
  the size announce \<open>n\<close> with \<open>4 \<le> n \<le> MAX_PDU\<close> and the body arrives in any pieces, with
  \<open>EAGAIN\<close> in between, no round of \<open>readpdu\<close> fails or leaves the buffer, and at the end the
  buffer holds the frame and \<open>solong\<close> equals \<open>sz\<close>, which is when \<open>read_cb\<close> passes it on.
\<close>

theorem frame_assembled:
  assumes "c_rpdu c = charbuf_init" and "length h = 4" and "ntohl_bytes h = int n"
    and "4 \<le> n" and "int n \<le> MAX_PDU" and "length (concat (xs # xss)) = n - 4"
  shows "readpdus (Some h, e) (xs # xss) c =
           Inr (True, c\<lparr>c_rpdu := \<lparr>cb_buf = Some (map Some (h @ concat (xs # xss)) @ replicate 4 None),
                                  cb_sz = int n, cb_solong = int n\<rparr>\<rparr>)"
proof -
  have "readpdus (Some h, e) (xs # xss) c =
      readpdus (Some h, e) xss (c\<lparr>c_rpdu := assembling (int n) (h @ xs)\<rparr>)"
    using assms by (simp add: readpdu_start read_body_piece)
  also have "\<dots> = Inr (True, c\<lparr>c_rpdu := assembling (int n) ((h @ xs) @ concat xss)\<rparr>)"
    using assms by (intro readpdus_assembling) auto
  finally show ?thesis using assms by (simp add: assembling_def nat_add_distrib)
qed

theorem frame_assembled_witness:
  "readpdus (Some [0, 0, 0, 7], False) [[1], [], [2, 3]] demo_conn =
     Inr (True, demo_conn\<lparr>c_rpdu := \<lparr>cb_buf = Some (map Some [0, 0, 0, 7, 1, 2, 3] @ replicate 4 None),
                                   cb_sz = 7, cb_solong = 7\<rparr>\<rparr>)"
  using frame_assembled [of demo_conn "[0, 0, 0, 7]" 7 "[1]" "[[], [2, 3]]" False]
  by (simp add: demo_conn_def ntohl_bytes_def MAX_PDU_def)

lemma readpdu_negative:
  assumes "c_rpdu c = charbuf_init" and "length h = 4" and "ntohl_bytes h < 0"
  shows "\<exists>f. readpdu (Some h, e) r2 c = Inl f"
proof (cases "ntohl_bytes h + 4 < 0")
  case True
  with assms show ?thesis
    by (auto simp: readpdu_def charbuf_init_def malloc_pdu_def Let_def MAX_PDU_def)
next
  case False
  then have "nat (ntohl_bytes h + 4) < 4" using assms(3) by linarith
  with False assms show ?thesis
    by (auto simp: readpdu_def charbuf_init_def malloc_pdu_def bcopy_front_def Let_def MAX_PDU_def)
qed

text \<open>
  C29. The announced size decides whether \<open>readpdu\<close> stays in its buffer. On an idle connection
  whose peer sends a size field and then data, with a kernel that never returns more than it
  is asked for when the count is not negative, the process stops or writes out of bounds
  exactly if the size is negative, or if it is below 4 and less than the number of
  bytes that follow; the count passed to \<open>read\<close> is then negative.
\<close>

theorem readpdu_fault_iff:
  assumes "c_rpdu c = charbuf_init" and "length h = 4" and "4 \<le> ntohl_bytes h \<longrightarrow> int (length data) \<le> ntohl_bytes h - 4"
  shows "(\<exists>f. readpdu (Some h, e) (Some data, e') c = Inl f) \<longleftrightarrow>
           ntohl_bytes h < 0 \<or> ntohl_bytes h < 4 \<and> ntohl_bytes h < int (length data)"
proof -
  consider "ntohl_bytes h < 0" | "MAX_PDU < ntohl_bytes h" | "0 \<le> ntohl_bytes h" "ntohl_bytes h \<le> MAX_PDU"
    by linarith
  then show ?thesis
  proof cases
    case 1
    then show ?thesis using readpdu_negative [OF assms(1,2)] by simp
  next
    case 2
    then show ?thesis using assms(1,2) by (auto simp: readpdu_def charbuf_init_def MAX_PDU_def Let_def)
  next
    case 3
    have "(\<exists>f. read_body (Some data, e') (c\<lparr>c_rpdu := assembling (ntohl_bytes h) h\<rparr>) = Inl f) \<longleftrightarrow>
        ntohl_bytes h < int (length data)"
      using assms(2) 3 by (cases data) (auto simp: read_body_def assembling_def Let_def nat_add_distrib)
    with 3 show ?thesis unfolding readpdu_start [OF assms(1,2) 3] using assms(3) by auto
  qed
qed

theorem readpdu_fault_iff_witness:
  "(\<exists>f. readpdu (Some [255, 255, 255, 255], False) (Some [1], False) demo_conn = Inl f) \<and>
   (\<exists>f. readpdu (Some [0, 0, 0, 1], False) (Some [1, 2], False) demo_conn = Inl f)"
  using readpdu_fault_iff [of demo_conn "[255, 255, 255, 255]" "[1]" False False]
    readpdu_fault_iff [of demo_conn "[0, 0, 0, 1]" "[1, 2]" False False]
  by (simp add: demo_conn_def ntohl_bytes_def)

section \<open>Reference counts\<close>

text \<open>\<open>decref\<close> frees a connection exactly when the last reference goes and it is dead.\<close>

lemma decref_cases:
  assumes "0 < c_refno c" and "c_dead c \<longrightarrow> cb_buf (c_wpdu c) = None"
  shows "decref c = Inr (if c_refno c = 1 \<and> c_dead c then None else Some (c\<lparr>c_refno := c_refno c - 1\<rparr>))"
  using assms by (auto simp: decref_def Let_def connection_delete_def)

lemma gc_conns_filter:
  assumes "\<forall>(fd, c) \<in> set cs. 0 < c_refno c \<and> (c_dead c \<longrightarrow> cb_buf (c_wpdu c) = None)"
  shows "gc_conns cs = Inr (filter (\<lambda>(fd, c). \<not> (c_dead c \<and> c_refno c = 1)) cs)"
  using assms
  by (induction cs rule: gc_conns.induct) (auto simp: isdead_def ref_def decref_cases)

end
