(* ===== verification/Text_Streams.thy ===== *)
theory Text_Streams
  imports DS_Prelude
begin

text \<open>
  Formatted text input and output of the C++ standard library, as far as the sources use
  it: \<open>ostream << unsigned\<close>, \<open>istream >> std::string\<close>, \<open>istream >> unsigned\<close>,
  \<open>std::getline\<close> and \<open>istream::get\<close>. A stream is the string that is still to be read;
  extractors return what they extract and the rest of the stream. The lemmas at the end
  are the round trips between printing and extracting that the directory format, the
  view format and the Paxos log rely on.
\<close>

section \<open>Characters\<close>

definition newline :: char where
  "newline = CHR 0x0A"

definition isspace :: "char \<Rightarrow> bool" where
  "isspace c \<longleftrightarrow> c \<in> set [CHR 0x20, CHR 0x09, CHR 0x0A, CHR 0x0B, CHR 0x0C, CHR 0x0D]"

definition isdigit :: "char \<Rightarrow> bool" where
  "isdigit c \<longleftrightarrow> 48 \<le> (of_char c :: nat) \<and> (of_char c :: nat) \<le> 57"

definition digit_char :: "nat \<Rightarrow> char" where
  "digit_char d = char_of (48 + d)"

definition digit_value :: "char \<Rightarrow> nat" where
  "digit_value c = of_char c - 48"

section \<open>Output\<close>

text \<open>\<open>ost << n\<close> for an unsigned number in the default (decimal) format.\<close>

fun print_nat :: "nat \<Rightarrow> string" where
  "print_nat n = (if n < 10 then [digit_char n]
                  else print_nat (n div 10) @ [digit_char (n mod 10)])"

declare print_nat.simps [simp del]

section \<open>Input\<close>

definition skipws :: "string \<Rightarrow> string" where
  "skipws = dropWhile isspace"

text \<open>\<open>ist >> str\<close>: skip white space, take the next word; \<open>None\<close> when there is none.\<close>

definition extract_word :: "string \<Rightarrow> (string \<times> string) option" where
  "extract_word s =
     (let t = skipws s in
      if t = [] then None
      else Some (takeWhile (\<lambda>c. \<not> isspace c) t, dropWhile (\<lambda>c. \<not> isspace c) t))"

text \<open>The accumulation of digits inside \<open>ist >> n\<close>.\<close>

fun scan_digits :: "nat \<Rightarrow> string \<Rightarrow> nat \<times> string" where
  "scan_digits acc [] = (acc, [])"
| "scan_digits acc (c # cs) =
     (if isdigit c then scan_digits (acc * 10 + digit_value c) cs else (acc, c # cs))"

text \<open>
  \<open>ist >> n\<close> for an unsigned \<open>n\<close> with the largest value \<open>mx\<close>. The result is the value
  stored (\<open>None\<close>: the variable is left alone, which happens when the stream ends before a
  character is seen), whether the stream is still good, and the rest of the stream. A
  leading minus negates modulo \<open>mx + 1\<close>; a number above \<open>mx\<close> stores \<open>mx\<close> and fails; a
  missing number stores \<open>0\<close> and fails.
\<close>

definition extract_unsigned :: "nat \<Rightarrow> string \<Rightarrow> nat option \<times> bool \<times> string" where
  "extract_unsigned mx s =
     (let t = skipws s in
      if t = [] then (None, False, [])
      else
        let neg = (hd t = CHR ''-'');
            u = (if hd t = CHR ''-'' \<or> hd t = CHR ''+'' then tl t else t)
        in if u = [] \<or> \<not> isdigit (hd u) then (Some 0, False, u)
           else case scan_digits 0 u of (v, rest) \<Rightarrow>
             if mx < v then (Some mx, False, rest)
             else if neg then (Some ((mx + 1 - v) mod (mx + 1)), True, rest)
             else (Some v, True, rest))"

text \<open>\<open>std::getline(ist, str)\<close>: \<open>None\<close> at the end of the stream.\<close>

definition getline :: "string \<Rightarrow> (string \<times> string) option" where
  "getline s = (if s = [] then None
                else Some (takeWhile (\<lambda>c. c \<noteq> newline) s,
                           drop 1 (dropWhile (\<lambda>c. c \<noteq> newline) s)))"

text \<open>\<open>ist.get()\<close> with the character thrown away.\<close>

definition get_char :: "string \<Rightarrow> string" where
  "get_char s = drop 1 s"

text \<open>\<open>while (ist >> m) view.push_back(m)\<close>: all the words of a stream.\<close>

lemma extract_word_shorter:
  assumes "extract_word s = Some (w, rest)"
  shows "length rest < length s"
proof -
  from assms have t: "skipws s \<noteq> []" and rest: "rest = dropWhile (\<lambda>c. \<not> isspace c) (skipws s)"
    by (auto simp: extract_word_def Let_def split: if_splits)
  then have "\<not> isspace (hd (skipws s))"
    by (metis hd_dropWhile skipws_def)
  with t rest have "rest = dropWhile (\<lambda>c. \<not> isspace c) (tl (skipws s))"
    by (cases "skipws s") auto
  then have "length rest \<le> length (tl (skipws s))"
    by (simp only: length_dropWhile_le)
  also from t have "\<dots> < length (skipws s)" by simp
  also have "\<dots> \<le> length s"
    by (simp add: skipws_def length_dropWhile_le)
  finally show ?thesis .
qed

function extract_words :: "string \<Rightarrow> string list" where
  "extract_words s = (case extract_word s of None \<Rightarrow> [] | Some (w, rest) \<Rightarrow> w # extract_words rest)"
  by pat_completeness auto
termination
  by (relation "measure length") (auto dest: extract_word_shorter)

declare extract_words.simps [simp del]

section \<open>Round trips\<close>

lemma of_char_digit_char: "d < 10 \<Longrightarrow> (of_char (digit_char d) :: nat) = 48 + d"
  by (simp add: digit_char_def)

lemma isdigit_digit_char [simp]: "d < 10 \<Longrightarrow> isdigit (digit_char d)"
  by (simp add: isdigit_def of_char_digit_char)

lemma digit_value_digit_char [simp]: "d < 10 \<Longrightarrow> digit_value (digit_char d) = d"
  by (simp add: digit_value_def of_char_digit_char)

lemma isdigit_not_isspace: "isdigit c \<Longrightarrow> \<not> isspace c"
  by (auto simp: isdigit_def isspace_def)

lemma isdigit_not_newline: "isdigit c \<Longrightarrow> c \<noteq> newline"
  by (auto simp: isdigit_def newline_def)

lemma isdigit_not_sign: "isdigit c \<Longrightarrow> c \<noteq> CHR ''-'' \<and> c \<noteq> CHR ''+''"
  by (auto simp: isdigit_def)

lemma print_nat_not_Nil [simp]: "print_nat n \<noteq> []"
  by (subst print_nat.simps) simp

lemma print_nat_digits: "c \<in> set (print_nat n) \<Longrightarrow> isdigit c"
proof (induction n rule: print_nat.induct)
  case (1 n)
  then show ?case
    by (subst (asm) (2) print_nat.simps) (auto split: if_splits)
qed

lemma print_nat_hd_digit: "isdigit (hd (print_nat n))"
  using print_nat_digits [OF hd_in_set [OF print_nat_not_Nil]] .

lemma scan_digits_print_nat:
  "scan_digits acc (print_nat n @ rest) = scan_digits (acc * 10 ^ length (print_nat n) + n) rest"
proof (induction n arbitrary: acc rest rule: print_nat.induct)
  case (1 n)
  show ?case
  proof (cases "n < 10")
    case True
    then show ?thesis by (simp add: print_nat.simps)
  next
    case False
    then have p: "print_nat n = print_nat (n div 10) @ [digit_char (n mod 10)]"
      by (subst print_nat.simps) simp
    show ?thesis
      using 1 [OF False, of acc "digit_char (n mod 10) # rest"]
      by (simp add: p algebra_simps)
  qed
qed

lemma scan_digits_stop: "rest = [] \<or> \<not> isdigit (hd rest) \<Longrightarrow> scan_digits acc rest = (acc, rest)"
  by (cases rest) auto

lemma skipws_print_nat: "skipws (print_nat n @ rest) = print_nat n @ rest"
  using print_nat_hd_digit [of n] isdigit_not_isspace
  by (cases "print_nat n") (auto simp: skipws_def)

lemma skipws_space [simp]: "skipws (CHR '' '' # s) = skipws s"
  by (simp add: skipws_def isspace_def)

lemma skipws_nonspace: "s = [] \<or> \<not> isspace (hd s) \<Longrightarrow> skipws s = s"
  by (cases s) (auto simp: skipws_def)

theorem extract_print_nat:
  assumes "n \<le> mx" and "rest = [] \<or> \<not> isdigit (hd rest)"
  shows "extract_unsigned mx (print_nat n @ rest) = (Some n, True, rest)"
proof -
  have "hd (print_nat n @ rest) = hd (print_nat n)" by simp
  then show ?thesis
    using assms print_nat_hd_digit [of n] isdigit_not_sign [OF print_nat_hd_digit [of n]]
    by (simp add: extract_unsigned_def skipws_print_nat scan_digits_print_nat scan_digits_stop)
qed

lemma extract_unsigned_space [simp]:
  "extract_unsigned mx (CHR '' '' # s) = extract_unsigned mx s"
  by (simp add: extract_unsigned_def)

lemma extract_word_space [simp]: "extract_word (CHR '' '' # s) = extract_word s"
  by (simp add: extract_word_def)

definition is_word :: "string \<Rightarrow> bool" where
  "is_word w \<longleftrightarrow> w \<noteq> [] \<and> list_all (\<lambda>c. \<not> isspace c) w"

lemma is_word_print_nat [simp]: "is_word (print_nat n)"
  by (auto simp: is_word_def list_all_iff dest: print_nat_digits isdigit_not_isspace)

lemma extract_word_append:
  assumes "is_word w" and "rest = [] \<or> isspace (hd rest)"
  shows "extract_word (w @ rest) = Some (w, rest)"
proof -
  from assms(1) have w: "w \<noteq> []" "\<not> isspace (hd w)" "\<forall>c\<in>set w. \<not> isspace c"
    by (auto simp: is_word_def list_all_iff)
  then have "skipws (w @ rest) = w @ rest"
    by (cases w) (auto simp: skipws_def)
  moreover from w assms(2) have "takeWhile (\<lambda>c. \<not> isspace c) (w @ rest) = w"
    and "dropWhile (\<lambda>c. \<not> isspace c) (w @ rest) = rest"
    by (cases rest; auto)+
  ultimately show ?thesis
    using w by (simp add: extract_word_def)
qed

lemma getline_append:
  assumes "newline \<notin> set v"
  shows "getline (v @ newline # rest) = Some (v, rest)"
proof -
  from assms have "takeWhile (\<lambda>c. c \<noteq> newline) (v @ newline # rest) = v"
    and "dropWhile (\<lambda>c. c \<noteq> newline) (v @ newline # rest) = newline # rest"
    by (induction v) auto
  then show ?thesis by (simp add: getline_def)
qed

lemma isspace_newline [simp]: "isspace newline"
  by (simp add: isspace_def newline_def)

lemma isspace_blank [simp]: "isspace (CHR '' '')"
  by (simp add: isspace_def)

lemma extract_word_skip_newline [simp]: "extract_word (newline # s) = extract_word s"
  by (simp add: extract_word_def skipws_def)

lemma extract_words_Nil [simp]: "extract_words [] = []"
  by (simp add: extract_words.simps extract_word_def skipws_def)

lemma extract_word_is_word: "extract_word s = Some (w, rest) \<Longrightarrow> is_word w"
proof -
  assume a: "extract_word s = Some (w, rest)"
  then have t: "skipws s \<noteq> []" "w = takeWhile (\<lambda>c. \<not> isspace c) (skipws s)"
    by (auto simp: extract_word_def Let_def split: if_splits)
  then have "\<not> isspace (hd (skipws s))" by (metis hd_dropWhile skipws_def)
  with t show ?thesis
    by (cases "skipws s") (auto simp: is_word_def list_all_iff dest: set_takeWhileD)
qed

lemma extract_words_is_word: "list_all is_word (extract_words s)"
proof (induction s rule: extract_words.induct)
  case (1 s)
  then show ?case
    by (subst extract_words.simps) (auto dest: extract_word_is_word split: option.split)
qed

lemma extract_words_word:
  "is_word w \<Longrightarrow> extract_words (w @ CHR '' '' # rest) = w # extract_words rest"
  by (subst extract_words.simps)
     (simp add: extract_word_append extract_words.simps [of "CHR '' '' # rest"]
        extract_words.simps [of rest])

end
