(* ===== verification/Rpc_Aux.thy ===== *)
theory Rpc_Aux
  imports Text_Streams "HOL-Library.Signed_Division"
begin

text \<open>
  The auxiliary functions at the end of \<^verbatim>\<open>rpc/rpc.cc\<close>: the order on socket addresses,
  \<open>make_sockaddr\<close>, and the arithmetic on \<open>struct timespec\<close> from which \<open>rpcc::call1\<close> computes its
  deadlines. \<open>inet_addr\<close> and \<open>gethostbyname\<close> are arguments.
\<close>

section \<open>Socket addresses\<close>

record sockaddr_in =
  s_addr :: u32
  sin_port :: u16

definition sockaddr_less :: "sockaddr_in \<Rightarrow> sockaddr_in \<Rightarrow> bool" where
  "sockaddr_less a b =
     (s_addr a < s_addr b \<or> (s_addr a = s_addr b \<and> sin_port a < sin_port b))"

text \<open>\<open>atoi\<close>: blanks, a sign, digits; 0 when there are none.\<close>

definition atoi :: "string \<Rightarrow> int" where
  "atoi s =
     (let t = skipws s;
          neg = (t \<noteq> [] \<and> hd t = CHR ''-'');
          u = (if t \<noteq> [] \<and> (hd t = CHR ''-'' \<or> hd t = CHR ''+'') then tl t else t);
          v = int (fst (scan_digits 0 u))
      in if neg then - v else v)"

definition INADDR_NONE :: u32 where
  "INADDR_NONE = 0xffffffff"

text \<open>\<open>htons\<close> on a little-endian machine; the argument is converted to 16 bits first.\<close>

definition htons :: "int \<Rightarrow> u16" where
  "htons x = (let w = of_int x :: u16 in push_bit 8 w OR drop_bit 8 w)"

definition make_sockaddr2 ::
  "(string \<Rightarrow> u32) \<Rightarrow> (string \<Rightarrow> u32 option) \<Rightarrow> string \<Rightarrow> string \<Rightarrow> fault + sockaddr_in" where
  "make_sockaddr2 inet_addr gethostbyname host port =
     (let a = inet_addr host in
      bind_f (if a \<noteq> INADDR_NONE then Inr a
              else case gethostbyname host of None \<Rightarrow> Inl (Exited 1) | Some h \<Rightarrow> Inr h) (\<lambda>a.
      Inr \<lparr>s_addr = a, sin_port = htons (atoi port)\<rparr>))"

text \<open>\<open>host\<close> is a buffer of 200 characters, one of which holds the terminating zero.\<close>

definition make_sockaddr ::
  "(string \<Rightarrow> u32) \<Rightarrow> (string \<Rightarrow> u32 option) \<Rightarrow> string \<Rightarrow> fault + sockaddr_in" where
  "make_sockaddr inet_addr gethostbyname hostandport =
     (if CHR '':'' \<notin> set hostandport
      then make_sockaddr2 inet_addr gethostbyname ''127.0.0.1'' hostandport
      else let host = takeWhile (\<lambda>c. c \<noteq> CHR '':'') hostandport;
               port = tl (dropWhile (\<lambda>c. c \<noteq> CHR '':'') hostandport)
           in if length host < 200 then make_sockaddr2 inet_addr gethostbyname host port
              else Inl OutOfBounds)"

section \<open>Times\<close>

record timespec =
  tv_sec :: int
  tv_nsec :: int

definition cmp_timespec :: "timespec \<Rightarrow> timespec \<Rightarrow> int" where
  "cmp_timespec a b =
     (if tv_sec a > tv_sec b then 1
      else if tv_sec a < tv_sec b then -1
      else if tv_nsec a > tv_nsec b then 1
      else if tv_nsec a < tv_nsec b then -1
      else 0)"

text \<open>The \<open>while\<close> loop of \<open>add_timespec\<close>.\<close>

function carry :: "timespec \<Rightarrow> timespec" where
  "carry t = (if tv_nsec t > 1000000000
              then carry (t\<lparr>tv_sec := tv_sec t + 1, tv_nsec := tv_nsec t - 1000000000\<rparr>) else t)"
  by pat_completeness auto
termination by (relation "measure (\<lambda>t. nat (tv_nsec t))") auto

declare carry.simps [simp del]

text \<open>\<open>b / 1000\<close> and \<open>b % 1000\<close> truncate towards zero.\<close>

definition add_timespec :: "timespec \<Rightarrow> int \<Rightarrow> fault + timespec" where
  "add_timespec a b =
     (let r = \<lparr>tv_sec = tv_sec a + b sdiv 1000, tv_nsec = tv_nsec a + (b smod 1000) * 1000000\<rparr> in
      bind_f (VERIFY (tv_nsec r \<ge> 0)) (\<lambda>_. Inr (carry r)))"

definition diff_timespec :: "timespec \<Rightarrow> timespec \<Rightarrow> fault + int" where
  "diff_timespec end_t start =
     (let diff = (if tv_sec end_t > tv_sec start then (tv_sec end_t - tv_sec start) * 1000 else 0) in
      bind_f (VERIFY (diff \<noteq> 0 \<or> tv_sec end_t = tv_sec start)) (\<lambda>_.
      Inr (if tv_nsec end_t > tv_nsec start
           then diff + (tv_nsec end_t - tv_nsec start) sdiv 1000000
           else diff - (tv_nsec start - tv_nsec end_t) sdiv 1000000)))"

section \<open>Total time\<close>

definition nanos :: "timespec \<Rightarrow> int" where
  "nanos t = tv_sec t * 1000000000 + tv_nsec t"

definition ts_wf :: "timespec \<Rightarrow> bool" where
  "ts_wf t \<longleftrightarrow> 0 \<le> tv_nsec t \<and> tv_nsec t \<le> 1000000000"

lemma carry_spec: "0 \<le> tv_nsec t \<Longrightarrow> nanos (carry t) = nanos t \<and> ts_wf (carry t) \<and> tv_sec t \<le> tv_sec (carry t)"
proof (induction t rule: carry.induct)
  case (1 t)
  show ?case
  proof (cases "tv_nsec t > 1000000000")
    case True
    with 1 have "nanos (carry (t\<lparr>tv_sec := tv_sec t + 1, tv_nsec := tv_nsec t - 1000000000\<rparr>)) = nanos t \<and>
        ts_wf (carry (t\<lparr>tv_sec := tv_sec t + 1, tv_nsec := tv_nsec t - 1000000000\<rparr>)) \<and>
        tv_sec t + 1 \<le> tv_sec (carry (t\<lparr>tv_sec := tv_sec t + 1, tv_nsec := tv_nsec t - 1000000000\<rparr>))"
      by (simp add: nanos_def)
    with True show ?thesis by (subst (1 2 3) carry.simps) simp
  next
    case False
    with "1.prems" show ?thesis by (simp add: carry.simps [of t] ts_wf_def)
  qed
qed

lemma sdiv_nonneg: "0 \<le> b \<Longrightarrow> b sdiv 1000 = b div (1000 :: int)" "0 \<le> b \<Longrightarrow> b smod 1000 = b mod (1000 :: int)"
  by (auto simp: signed_divide_int_def signed_modulo_int_def sgn_if)

lemma add_timespec_spec:
  assumes "0 \<le> b" and "0 \<le> tv_nsec a"
  obtains r where "add_timespec a b = Inr r" and "nanos r = nanos a + b * 1000000" and "ts_wf r"
    and "tv_sec a \<le> tv_sec r"
proof -
  let ?r = "\<lparr>tv_sec = tv_sec a + b div 1000, tv_nsec = tv_nsec a + (b mod 1000) * 1000000\<rparr>"
  have n: "0 \<le> tv_nsec ?r" using assms by simp
  have ms: "(s + d) * 1000000000 + (n + m * 1000000) = s * 1000000000 + n + (1000 * d + m) * (1000000 :: int)"
    for s n d m by simp
  have "nanos ?r = nanos a + b * 1000000"
    unfolding nanos_def timespec.simps ms mult_div_mod_eq by simp
  moreover have "tv_sec a \<le> tv_sec ?r" using assms(1) by simp
  moreover have "add_timespec a b = Inr (carry ?r)"
    using n assms by (simp add: add_timespec_def Let_def sdiv_nonneg)
  ultimately show ?thesis using carry_spec [OF n] that by fastforce
qed

lemma cmp_timespec_nanos:
  assumes "ts_wf a" and "ts_wf b"
  shows "cmp_timespec a b > 0 \<Longrightarrow> nanos b \<le> nanos a" and "\<not> cmp_timespec a b > 0 \<Longrightarrow> nanos a \<le> nanos b"
  using assms by (auto simp: cmp_timespec_def nanos_def ts_wf_def split: if_splits)

end
