(* ===== verification/Rpc_Client.thy ===== *)
theory Rpc_Client
  imports Wire_Codec Connection Rpc_Aux
begin

text \<open>
  The client end of the RPC library: class \<open>rpcc\<close> of \<^verbatim>\<open>rpc/rpc.h\<close> and \<^verbatim>\<open>rpc/rpc.cc\<close>. \<open>call1\<close> is
  split where it gives up its locks: \<open>call1_begin\<close> registers the call and packs the header,
  \<open>get_refconn\<close> and \<open>call1_requests\<close> say what is sent, \<open>call1_deadline\<close> and \<open>call1_timeout\<close>
  are the two halves of a round of the retry loop around the timed wait, and \<open>call1_end\<close>
  unregisters the call. The lemmas show that the window of received replies tells the server
  exactly which prefix of the requests is finished, that a pending call is never
  acknowledged, and that the retry loop ends.
\<close>

section \<open>Constants\<close>

definition rpc_bind :: u32 where "rpc_bind = 1"
definition timeout_failure :: i32 where "timeout_failure = -1"
definition unmarshal_args_failure :: i32 where "unmarshal_args_failure = -2"
definition unmarshal_reply_failure :: i32 where "unmarshal_reply_failure = -3"
definition atmostonce_failure :: i32 where "atmostonce_failure = -4"
definition oldsrv_failure :: i32 where "oldsrv_failure = -5"
definition bind_failure :: i32 where "bind_failure = -6"
definition cancel_failure :: i32 where "cancel_failure = -7"

definition to_max :: int where "to_max = 120000"
definition to_min :: int where "to_min = 1000"

section \<open>State\<close>

record caller =
  ca_xid :: u32
  ca_un :: unmarshall
  ca_intret :: "i32 option"   \<comment> \<open>not initialised by the constructor\<close>
  ca_done :: bool

definition caller_init :: "u32 \<Rightarrow> unmarshall \<Rightarrow> caller" where
  "caller_init xxid xun = \<lparr>ca_xid = xxid, ca_un = xun, ca_intret = None, ca_done = False\<rparr>"

record request =
  rqst_buf :: "cell list"
  rqst_xid :: int

definition request_clear :: request where
  "request_clear = \<lparr>rqst_buf = [], rqst_xid = -1\<rparr>"

definition isvalid :: "request \<Rightarrow> bool" where
  "isvalid r = (rqst_xid r \<noteq> -1)"

record rpcc =
  dst :: sockaddr_in
  clt_nonce :: u32
  srv_nonce :: u32
  bind_done :: bool
  next_xid :: u32              \<comment> \<open>\<open>xid_\<close>\<close>
  lossytest :: int
  retrans :: bool
  reachable :: bool
  chan :: "nat option"
  destroy_wait :: bool
  calls :: "u32 \<rightharpoonup> caller"
  xid_rep_window :: "u32 list"
  dup_req :: request
  xid_rep_done :: int

text \<open>The constructor; \<open>nonce\<close> is what \<open>random()\<close> returns, \<open>lossy\<close> comes from \<open>RPC_LOSSY\<close>.\<close>

definition rpcc_init :: "sockaddr_in \<Rightarrow> bool \<Rightarrow> u32 \<Rightarrow> int \<Rightarrow> rpcc" where
  "rpcc_init d rt nonce lossy =
     \<lparr>dst = d, clt_nonce = (if rt then nonce else 0), srv_nonce = 0, bind_done = False, next_xid = 1,
      lossytest = lossy, retrans = rt, reachable = True, chan = None, destroy_wait = False,
      calls = Map.empty, xid_rep_window = [0], dup_req = request_clear, xid_rep_done = -1\<rparr>"

section \<open>The window of received replies\<close>

text \<open>
  The second loop of \<open>update_xid_rep\<close>: \<open>pre\<close> is what the list holds before the iterator. The
  inner loop pops the front while its successor is \<open>*it\<close>; it stops at \<open>*it\<close> at the latest.
\<close>

fun compress :: "u32 list \<Rightarrow> u32 list \<Rightarrow> u32 list" where
  "compress pre [] = pre"
| "compress pre (x # rest) = compress (dropWhile (\<lambda>f. f + 1 = x) pre @ [x]) rest"

definition window_insert :: "u32 \<Rightarrow> u32 list \<Rightarrow> u32 list" where
  "window_insert xid w = takeWhile (\<lambda>y. \<not> y > xid) w @ [xid] @ dropWhile (\<lambda>y. \<not> y > xid) w"

definition update_window :: "u32 \<Rightarrow> u32 list \<Rightarrow> u32 list" where
  "update_window xid w =
     (if xid \<le> hd w then w
      else let w' = window_insert xid w in compress [hd w'] (tl w'))"

definition update_xid_rep :: "u32 \<Rightarrow> rpcc \<Rightarrow> rpcc" where
  "update_xid_rep xid s = s\<lparr>xid_rep_window := update_window xid (xid_rep_window s)\<rparr>"

section \<open>Calls\<close>

text \<open>The \<open>call\<close> templates marshal their arguments one after the other.\<close>

definition call_marshal :: "(marshall \<Rightarrow> fault + marshall) list \<Rightarrow> fault + marshall" where
  "call_marshal args = fold (\<lambda>put r. bind_f r put) args (Inr marshall_init)"

text \<open>\<open>call_m\<close> from the return of \<open>call1\<close> on; \<open>get\<close> is the \<open>>>\<close> of the result type.\<close>

definition call_m_reply ::
  "('r \<Rightarrow> unmarshall \<Rightarrow> fault + ('r \<times> unmarshall)) \<Rightarrow> 'r \<Rightarrow> i32 \<Rightarrow> unmarshall \<Rightarrow> fault + (i32 \<times> 'r)" where
  "call_m_reply get r intret u =
     (if intret <s 0 then Inr (intret, r)
      else bind_f (get r u) (\<lambda>(r, u). bind_f (VERIFY (okdone u)) (\<lambda>_. Inr (intret, r))))"

text \<open>The first critical section of \<open>call1\<close>: an error, or the xid, the acknowledged prefix and the request.\<close>

definition call1_begin ::
  "u32 \<Rightarrow> marshall \<Rightarrow> unmarshall \<Rightarrow> rpcc \<Rightarrow> fault + ((i32 + (u32 \<times> i32 \<times> marshall)) \<times> rpcc)" where
  "call1_begin proc req rep s =
     (if (proc \<noteq> rpc_bind \<and> \<not> bind_done s) \<or> (proc = rpc_bind \<and> bind_done s)
      then Inr (Inl bind_failure, s)
      else if destroy_wait s then Inr (Inl cancel_failure, s)
      else
        let xid = next_xid s;
            s = s\<lparr>next_xid := xid + 1, calls := (calls s)(xid \<mapsto> caller_init xid rep)\<rparr>;
            h = \<lparr>rq_xid = xid, rq_proc = proc, rq_clt_nonce = clt_nonce s, rq_srv_nonce = srv_nonce s,
                 rq_xid_rep = hd (xid_rep_window s)\<rparr>
        in bind_f (pack_req_header h req) (\<lambda>req. Inr (Inr (xid, hd (xid_rep_window s), req), s)))"

text \<open>The connections of the process, by address; using a deleted one is a fault.\<close>

type_synonym conns = "nat \<rightharpoonup> connection"

definition deref :: "nat \<Rightarrow> conns \<Rightarrow> fault + connection" where
  "deref a hp = (case hp a of None \<Rightarrow> Inl OutOfBounds | Some c \<Rightarrow> Inr c)"

definition heap_incref :: "nat \<Rightarrow> conns \<Rightarrow> fault + conns" where
  "heap_incref a hp = bind_f (deref a hp) (\<lambda>c. Inr (hp(a \<mapsto> incref c)))"

definition heap_decref :: "nat \<Rightarrow> conns \<Rightarrow> fault + conns" where
  "heap_decref a hp = bind_f (deref a hp) (\<lambda>c. bind_f (decref c) (\<lambda>r. Inr (hp(a := r))))"

text \<open>
  \<open>get_refconn\<close>: \<open>sock\<close> is what \<open>socket\<close> and \<open>connect\<close> yield, \<open>addr\<close> the address of a new object.
\<close>

definition get_refconn ::
  "nat option \<Rightarrow> nat \<Rightarrow> int \<times> int \<Rightarrow> nat option \<Rightarrow> rpcc \<times> conns \<times> PollMgr \<Rightarrow>
   fault + (nat option \<times> rpcc \<times> conns \<times> PollMgr)" where
  "get_refconn sock addr now ch = (\<lambda>(s, hp, p).
     bind_f (case chan s of None \<Rightarrow> Inr True | Some a \<Rightarrow> bind_f (deref a hp) (\<lambda>c. Inr (isdead c))) (\<lambda>renew.
     bind_f (if renew
             then bind_f (case chan s of None \<Rightarrow> Inr hp | Some a \<Rightarrow> heap_decref a hp) (\<lambda>hp.
                  bind_f (connect_to_dst sock addr now p) (\<lambda>(c, p).
                  Inr (case c of None \<Rightarrow> (s\<lparr>chan := None\<rparr>, hp, p)
                       | Some c \<Rightarrow> (s\<lparr>chan := Some (c_addr c)\<rparr>, hp(c_addr c \<mapsto> c), p))))
             else Inr (s, hp, p)) (\<lambda>(s, hp, p).
     (case chan s of None \<Rightarrow> Inr (ch, s, hp, p)
      | Some a \<Rightarrow>
          bind_f (case ch of None \<Rightarrow> Inr hp | Some b \<Rightarrow> heap_decref b hp) (\<lambda>hp.
          bind_f (heap_incref a hp) (\<lambda>hp. Inr (Some a, s, hp, p)))))))"

text \<open>The destructor: the connection is closed and released; no call may be pending.\<close>

definition rpcc_delete :: "rpcc \<Rightarrow> conns \<Rightarrow> PollMgr \<Rightarrow> fault + (conns \<times> PollMgr)" where
  "rpcc_delete s hp p =
     bind_f (case chan s of None \<Rightarrow> Inr (hp, p)
             | Some a \<Rightarrow>
                 bind_f (deref a hp) (\<lambda>c.
                 bind_f (closeconn c p) (\<lambda>(waits, c, p).
                 bind_f (heap_decref a (hp(a \<mapsto> c))) (\<lambda>hp.
                 Inr (hp, if waits then block_remove_fd_end (c_fd c) p else p))))) (\<lambda>(hp, p).
     bind_f (VERIFY (calls s = Map.empty)) (\<lambda>_. Inr (hp, p)))"

text \<open>What a round of \<open>call1\<close> sends on a reachable connection.\<close>

definition call1_requests :: "marshall \<Rightarrow> rpcc \<Rightarrow> cell list list \<times> rpcc" where
  "call1_requests req s =
     (if isvalid (dup_req s) \<and> xid_rep_done s > rqst_xid (dup_req s)
      then ([rqst_buf (dup_req s), contents req], s\<lparr>dup_req := request_clear\<rparr>)
      else ([contents req], s))"

record call1_loop =
  curr_to :: int
  finaldeadline :: timespec
  transmit :: bool

definition call1_loop_init :: "timespec \<Rightarrow> int \<Rightarrow> fault + call1_loop" where
  "call1_loop_init now to =
     bind_f (add_timespec now to) (\<lambda>fd. Inr \<lparr>curr_to = to_min, finaldeadline = fd, transmit = True\<rparr>)"

text \<open>The deadline of the next timed wait; \<open>None\<close> leaves the loop.\<close>

definition call1_deadline :: "timespec \<Rightarrow> call1_loop \<Rightarrow> fault + (timespec \<times> call1_loop) option" where
  "call1_deadline now l =
     (if tv_sec (finaldeadline l) = 0 then Inr None
      else bind_f (add_timespec now (curr_to l)) (\<lambda>nd.
        if cmp_timespec nd (finaldeadline l) > 0
        then Inr (Some (finaldeadline l, l\<lparr>finaldeadline := (finaldeadline l)\<lparr>tv_sec := 0\<rparr>\<rparr>))
        else Inr (Some (nd, l))))"

text \<open>After a wait that timed out; \<open>dead\<close> tells that there is no live connection.\<close>

definition call1_timeout :: "bool \<Rightarrow> bool \<Rightarrow> call1_loop \<Rightarrow> call1_loop" where
  "call1_timeout rt dead l = l\<lparr>transmit := (rt \<and> dead), curr_to := 2 * curr_to l\<rparr>"

text \<open>The end of \<open>call1\<close>: the return value, and whether a waiting \<open>cancel\<close> is signalled.\<close>

definition call1_end :: "u32 \<Rightarrow> i32 \<Rightarrow> marshall \<Rightarrow> rpcc \<Rightarrow> (i32 option \<times> bool) \<times> rpcc" where
  "call1_end xid xid_rep req s =
     (let ca = map_at (caller_init xid unmarshall_empty) (calls s) xid;
          s = update_xid_rep xid (s\<lparr>calls := (calls s)(xid := None)\<rparr>);
          s = (if ca_done ca \<and> lossytest s \<noteq> 0
               then let s = (if \<not> isvalid (dup_req s)
                             then s\<lparr>dup_req := \<lparr>rqst_buf = contents req, rqst_xid = sint xid\<rparr>\<rparr> else s)
                    in (if sint xid_rep > xid_rep_done s then s\<lparr>xid_rep_done := sint xid_rep\<rparr> else s)
               else s)
      in ((if ca_done ca then ca_intret ca else Some timeout_failure, destroy_wait s), s))"

text \<open>\<open>bind\<close> after its call has returned \<open>ret\<close> and the nonce \<open>r\<close>.\<close>

definition rpcc_bind_finish :: "i32 \<Rightarrow> i32 \<Rightarrow> rpcc \<Rightarrow> i32 \<times> rpcc" where
  "rpcc_bind_finish ret r s =
     (if ret = 0 then (ret, s\<lparr>bind_done := True, srv_nonce := r\<rparr>) else (ret, s))"

text \<open>\<open>cancel\<close> up to its wait for the callers, and the condition under which it returns.\<close>

definition cancel_begin :: "rpcc \<Rightarrow> rpcc" where
  "cancel_begin s =
     (let s = s\<lparr>calls := map_option (\<lambda>ca. ca\<lparr>ca_done := True, ca_intret := Some cancel_failure\<rparr>) \<circ> calls s\<rparr>
      in if calls s \<noteq> Map.empty then s\<lparr>destroy_wait := True\<rparr> else s)"

definition cancel_returns :: "rpcc \<Rightarrow> bool" where
  "cancel_returns s \<longleftrightarrow> calls s = Map.empty"

text \<open>A PDU from the server.\<close>

definition got_pdu :: "u8 list \<Rightarrow> nat \<Rightarrow> rpcc \<Rightarrow> fault + rpcc" where
  "got_pdu b sz s =
     bind_f (unpack_reply_header (unmarshall_init b sz)) (\<lambda>(h, rep).
     if \<not> u_ok rep then Inr s
     else
       let s = update_xid_rep (rp_xid h) s in
       (case calls s (rp_xid h) of None \<Rightarrow> Inr s
        | Some ca \<Rightarrow>
            if \<not> ca_done ca
            then Inr (s\<lparr>calls := (calls s)(rp_xid h \<mapsto>
                   ca\<lparr>ca_un := fst (take_in (ca_un ca) rep), ca_intret := Some (rp_ret h), ca_done := True\<rparr>)\<rparr>)
            else Inr s))"

section \<open>What the window tells the server\<close>

text \<open>The requests that a window acknowledges.\<close>

definition acked :: "u32 list \<Rightarrow> u32 set" where
  "acked w = {x. x \<le> hd w} \<union> set w"

definition window_ok :: "u32 list \<Rightarrow> bool" where
  "window_ok w \<longleftrightarrow> w \<noteq> [] \<and> sorted w \<and> hd w + 1 \<notin> set w"

lemma compress_ok:
  assumes "pre \<noteq> []" and "sorted (pre @ rest)" and "hd pre + 1 \<notin> set pre"
  shows "window_ok (compress pre rest) \<and> acked (compress pre rest) = acked (pre @ rest)"
  using assms
proof (induction rest arbitrary: pre)
  case Nil
  then show ?case by (simp add: window_ok_def)
next
  case (Cons x rest)
  let ?f = "hd pre"
  have le: "\<forall>y \<in> set pre. ?f \<le> y \<and> y \<le> x"
    using Cons.prems by (cases pre) (auto simp: sorted_append)
  show ?case
  proof (cases "?f + 1 = x")
    case True
    have max: "y = ?f" if "y \<in> set pre" for y
    proof -
      have "y \<noteq> ?f + 1" using Cons.prems(3) that by auto
      with le that True show ?thesis by (metis inc_le order_antisym_conv order.not_eq_order_implies_strict)
    qed
    then have dr: "dropWhile (\<lambda>f. f + 1 = x) pre = []" using True by (auto simp: dropWhile_eq_Nil_conv)
    have "?f \<le> x" using le Cons.prems(1) by auto
    have "{y. y \<le> x} = {y. y \<le> ?f} \<union> {x}"
    proof -
      have "?f < x" using \<open>?f \<le> x\<close> True by (metis add_cancel_right_right order.not_eq_order_implies_strict zero_neq_one)
      then show ?thesis using True by (auto simp: inc_le not_le) (metis inc_le linorder_not_le order_antisym_conv)
    qed
    moreover have "set pre = {?f}" using max Cons.prems(1) hd_in_set by fastforce
    ultimately have "acked ([x] @ rest) = acked (pre @ x # rest)"
      using Cons.prems(1) by (auto simp: acked_def)
    moreover have "sorted ([x] @ rest)" using Cons.prems(2) by (simp add: sorted_append)
    ultimately show ?thesis unfolding compress.simps dr using Cons.IH [of "[x]"] by simp
  next
    case False
    then have "dropWhile (\<lambda>f. f + 1 = x) pre = pre" using Cons.prems(1) by (cases pre) auto
    then show ?thesis using Cons.IH [of "pre @ [x]"] Cons.prems False by simp
  qed
qed

lemma window_insert_set: "set (window_insert x w) = insert x (set w)"
proof -
  have "set w = set (takeWhile (\<lambda>y. \<not> y > x) w) \<union> set (dropWhile (\<lambda>y. \<not> y > x) w)"
    by (simp only: set_append [symmetric] takeWhile_dropWhile_id)
  then show ?thesis by (auto simp: window_insert_def)
qed

lemma window_insert_sorted:
  assumes "sorted w"
  shows "sorted (window_insert x w)"
  using assms
proof (induction w)
  case Nil
  show ?case by (simp add: window_insert_def)
next
  case (Cons a w)
  show ?case
  proof (cases "x < a")
    case True
    with Cons.prems have "\<forall>y \<in> set w. x \<le> y" by (metis less_imp_le order_trans sorted_simps(2))
    with True Cons.prems show ?thesis by (simp add: window_insert_def less_imp_le)
  next
    case False
    then have eq: "window_insert x (a # w) = a # window_insert x w" by (simp add: window_insert_def)
    from Cons False show ?thesis
      unfolding eq sorted_simps(2) window_insert_set by (simp add: not_less)
  qed
qed

lemma update_window_ok:
  assumes "window_ok w"
  shows "window_ok (update_window x w) \<and> acked (update_window x w) = insert x (acked w)"
proof (cases "x \<le> hd w")
  case True
  then have "x \<in> acked w" by (simp add: acked_def)
  with assms True show ?thesis by (simp add: update_window_def insert_absorb)
next
  case False
  let ?w = "window_insert x w"
  from assms obtain a v where w: "w = a # v" by (cases w) (auto simp: window_ok_def)
  with False have "\<not> x < a" by auto
  then obtain t where t: "?w = a # t"
    by (simp add: window_insert_def w)
  have "sorted ([a] @ t)"
    using assms window_insert_sorted [of w x] unfolding t window_ok_def by simp
  from compress_ok [OF _ this] have "window_ok (compress [a] t) \<and> acked (compress [a] t) = acked ?w"
    unfolding t by simp
  moreover have "hd ?w = a" by (simp only: t list.sel)
  then have "acked ?w = insert x (acked w)"
    unfolding acked_def window_insert_set by (simp add: w)
  ultimately show ?thesis using False by (simp add: update_window_def Let_def t)
qed

lemma window_front_gap:
  assumes "window_ok w"
  shows "hd w + 1 \<notin> acked w - {0}"
proof
  assume a: "hd w + 1 \<in> acked w - {0}"
  then have "hd w + 1 \<le> hd w"
    using assms unfolding acked_def window_ok_def by blast
  then have "hd w = -1" by (rule inc_less_eq_triv_imp)
  with a show False by simp
qed

lemma fold_update_window:
  "window_ok (fold update_window xs [0]) \<and> acked (fold update_window xs [0]) = insert 0 (set xs)"
proof (induction xs rule: rev_induct)
  case Nil
  show ?case by (auto simp: window_ok_def acked_def)
next
  case (snoc x xs)
  then show ?case using update_window_ok [of "fold update_window xs [0]" x] by auto
qed

text \<open>
  C21. The number that \<open>call1\<close> sends as \<open>xid_rep\<close> is exact: after any sequence of calls of
  \<open>update_xid_rep\<close> (replies may arrive in any order and more than once), the front \<open>f\<close> of
  \<open>xid_rep_window_\<close> is the largest number such that all requests \<open>1..f\<close> have been reported:
  everything up to \<open>f\<close> has been, and \<open>f + 1\<close> has not (unless it wraps to 0). The window stays
  sorted.
\<close>

theorem xid_rep_front:
  "let w = fold update_window xs [0] in
     {y. y \<le> hd w} \<subseteq> insert 0 (set xs) \<and> hd w + 1 \<notin> set xs - {0} \<and> sorted w \<and> w \<noteq> []"
proof -
  define w where "w = fold update_window xs [0]"
  have ok: "window_ok w" and ack: "acked w = insert 0 (set xs)"
    using fold_update_window [of xs] by (simp_all add: w_def)
  have "{y. y \<le> hd w} \<subseteq> insert 0 (set xs)" unfolding ack [symmetric] acked_def by blast
  moreover have "hd w + 1 \<notin> set xs - {0}" using window_front_gap [OF ok] unfolding ack by blast
  ultimately show ?thesis using ok unfolding w_def [symmetric] Let_def window_ok_def by blast
qed

section \<open>Pending calls are not acknowledged\<close>

text \<open>
  The client together with a network that only delivers replies to requests that have been
  sent. \<open>next_xid\<close> has not wrapped around yet.
\<close>

inductive rpcc_step :: "rpcc \<Rightarrow> rpcc \<Rightarrow> bool" where
  st_begin: "\<lbrakk>call1_begin proc req rep s = Inr (Inr r, s'); next_xid s \<noteq> -1\<rbrakk> \<Longrightarrow> rpcc_step s s'"
| st_pdu: "\<lbrakk>got_pdu b sz s = Inr s';
            \<And>h rep. unpack_reply_header (unmarshall_init b sz) = Inr (h, rep) \<Longrightarrow> rp_xid h < next_xid s\<rbrakk>
           \<Longrightarrow> rpcc_step s s'"
| st_end: "\<lbrakk>xid < next_xid s; call1_end xid xid_rep req s = (r, s')\<rbrakk> \<Longrightarrow> rpcc_step s s'"
| st_bind: "rpcc_bind_finish ret n s = (r, s') \<Longrightarrow> rpcc_step s s'"
| st_cancel: "rpcc_step s (cancel_begin s)"

definition rpcc_start :: "rpcc \<Rightarrow> bool" where
  "rpcc_start s \<longleftrightarrow> (\<exists>d rt nonce lossy. s = rpcc_init d rt nonce lossy)"

definition client_inv :: "rpcc \<Rightarrow> bool" where
  "client_inv s \<longleftrightarrow> window_ok (xid_rep_window s) \<and> (\<forall>x \<in> acked (xid_rep_window s). x < next_xid s) \<and>
     (\<forall>xid ca. calls s xid = Some ca \<longrightarrow> xid < next_xid s \<and>
        (\<not> ca_done ca \<longrightarrow> xid \<notin> acked (xid_rep_window s)))"

lemma client_inv_init [inv_intros]: "client_inv (rpcc_init d rt nonce lossy)"
proof -
  have "acked [0] = {0}" by (auto simp: acked_def)
  then show ?thesis by (simp add: client_inv_def rpcc_init_def window_ok_def)
qed

text \<open>Recording a finished request keeps the invariant if no pending call has its number.\<close>

lemma client_inv_update:
  assumes "client_inv s" and "xid < next_xid s" and "\<And>ca. calls s' xid = Some ca \<Longrightarrow> ca_done ca"
    and "\<And>x ca. x \<noteq> xid \<Longrightarrow> calls s' x = Some ca \<Longrightarrow> calls s x = Some ca"
    and "next_xid s' = next_xid s" and "xid_rep_window s' = update_window xid (xid_rep_window s)"
  shows "client_inv s'"
proof -
  have w: "window_ok (xid_rep_window s)" using assms(1) by (simp add: client_inv_def)
  have ack: "acked (xid_rep_window s') = insert xid (acked (xid_rep_window s))"
    and ok: "window_ok (xid_rep_window s')"
    using update_window_ok [OF w] assms(6) by auto
  have "x < next_xid s' \<and> (\<not> ca_done ca \<longrightarrow> x \<notin> acked (xid_rep_window s'))"
    if c: "calls s' x = Some ca" for x ca
    using assms(1-5) that unfolding ack client_inv_def by (cases "x = xid") auto
  with ok assms(1,2,5) show ?thesis unfolding client_inv_def ack by auto
qed

lemma client_inv_begin [inv_intros]:
  assumes "client_inv s" and "call1_begin proc req rep s = Inr (Inr r, s')" and "next_xid s \<noteq> -1"
  shows "client_inv s'"
proof -
  from assms(2) have s': "s' = s\<lparr>next_xid := next_xid s + 1,
      calls := (calls s)(next_xid s \<mapsto> caller_init (next_xid s) rep)\<rparr>"
    by (auto simp: call1_begin_def Let_def bind_f_eq_Inr split: if_splits)
  have lt: "x < next_xid s + 1" if "x \<le> next_xid s" for x
    using that assms(3) by (metis inc_less_eq_self_iff_eq order_le_less_trans not_le)
  show ?thesis
    using assms(1) lt unfolding client_inv_def s'
    by (auto simp: caller_init_def less_imp_le split: if_splits)
qed

lemma got_pdu_cases:
  assumes "got_pdu b sz s = Inr s'"
  obtains "s' = s" | h rep where "unpack_reply_header (unmarshall_init b sz) = Inr (h, rep)"
    and "next_xid s' = next_xid s" and "xid_rep_window s' = update_window (rp_xid h) (xid_rep_window s)"
    and "\<And>ca. calls s' (rp_xid h) = Some ca \<Longrightarrow> ca_done ca"
    and "\<And>x. x \<noteq> rp_xid h \<Longrightarrow> calls s' x = calls s x"
proof -
  from assms obtain h rep where h: "unpack_reply_header (unmarshall_init b sz) = Inr (h, rep)"
    by (auto simp: got_pdu_def bind_f_eq_Inr)
  show ?thesis
  proof (cases "u_ok rep")
    case False
    with assms h show ?thesis by (intro that(1)) (simp add: got_pdu_def)
  next
    case True
    show ?thesis
      by (rule that(2) [OF h])
        (use assms h True in \<open>auto simp: got_pdu_def update_xid_rep_def Let_def split: option.splits if_splits\<close>)
  qed
qed

lemma call1_end_simps:
  assumes "call1_end xid xid_rep req s = (r, s')"
  shows "next_xid s' = next_xid s" "xid_rep_window s' = update_window xid (xid_rep_window s)"
    "calls s' = (calls s)(xid := None)"
  using assms by (auto simp: call1_end_def update_xid_rep_def Let_def)

interpretation client: step_invariant rpcc_start rpcc_step client_inv
proof
  fix s assume "rpcc_start s"
  then show "client_inv s" by (auto simp: rpcc_start_def intro: client_inv_init)
next
  fix s t assume s: "client_inv s" and "rpcc_step s t"
  from this(2) show "client_inv t"
  proof cases
    case (st_begin proc req rep r)
    then show ?thesis using s client_inv_begin by blast
  next
    case (st_pdu b sz)
    from st_pdu(1) show ?thesis
    proof (cases rule: got_pdu_cases)
      case 1
      with s show ?thesis by simp
    next
      case (2 h rep)
      from st_pdu(2) [OF 2(1)] have "rp_xid h < next_xid s" .
      from client_inv_update [OF s this 2(4) _ 2(2,3)] show ?thesis by (simp add: 2(5))
    qed
  next
    case (st_end xid xid_rep req r)
    note e = call1_end_simps [OF st_end(2)]
    from client_inv_update [OF s st_end(1) _ _ e(1,2)] show ?thesis by (simp add: e(3))
  next
    case (st_bind ret n r)
    then show ?thesis using s by (auto simp: rpcc_bind_finish_def client_inv_def split: if_splits)
  next
    case st_cancel
    then show ?thesis using s by (auto simp: cancel_begin_def client_inv_def Let_def)
  qed
qed

text \<open>
  C26. The client never acknowledges a call that still waits for its reply: in every reachable
  state, the \<open>xid_rep\<close> that the next request carries is smaller than the number of that
  request and smaller than the number of every call that is not done. (The server frees the
  saved replies up to \<open>xid_rep\<close>.)
\<close>

theorem pending_not_acked:
  assumes "reach rpcc_start rpcc_step s"
  shows "hd (xid_rep_window s) < next_xid s \<and>
         (\<forall>xid ca. calls s xid = Some ca \<and> \<not> ca_done ca \<longrightarrow> hd (xid_rep_window s) < xid)"
  using client.reach_inv [OF assms] unfolding client_inv_def acked_def by (auto simp: not_le)

definition demo_client :: rpcc where
  "demo_client = rpcc_init \<lparr>s_addr = 0, sin_port = 0\<rparr> True 5 0"

theorem pending_not_acked_witness:
  "\<exists>req s. call1_begin rpc_bind marshall_init unmarshall_empty demo_client = Inr (Inr (1, 0, req), s) \<and>
     calls s 1 = Some (caller_init 1 unmarshall_empty) \<and> hd (xid_rep_window s) < 1"
proof -
  have "RPC_HEADER_SZ \<le> m_ind marshall_init" by (simp add: marshall_init_def)
  from pack_req_header_ok [OF mwf_init(1) this] obtain req s where
    b: "call1_begin rpc_bind marshall_init unmarshall_empty demo_client = Inr (Inr (1, 0, req), s)"
    and c: "calls s 1 = Some (caller_init 1 unmarshall_empty)"
    by (auto simp: call1_begin_def demo_client_def rpcc_init_def Let_def bind_f_eq_Inr)
  have "reach rpcc_start rpcc_step demo_client"
    by (rule reach_init) (auto simp: rpcc_start_def demo_client_def)
  from reach_step [OF this st_begin [OF b]] have "reach rpcc_start rpcc_step s"
    by (simp add: demo_client_def rpcc_init_def)
  from pending_not_acked [OF this, THEN conjunct2, rule_format, of 1 "caller_init 1 unmarshall_empty"] c
  have "hd (xid_rep_window s) < 1" by (simp add: caller_init_def)
  with b c show ?thesis by blast
qed

section \<open>The retry loop ends\<close>

text \<open>
  The rounds of \<open>call1\<close> when no reply arrives; \<open>clk i\<close> is the time that round \<open>i\<close> reads from the
  clock. The result is the number of timed waits, or \<open>None\<close> when the fuel does not suffice.
\<close>

fun call1_rounds :: "nat \<Rightarrow> (nat \<Rightarrow> timespec) \<Rightarrow> nat \<Rightarrow> call1_loop \<Rightarrow> fault + nat option" where
  "call1_rounds 0 clk i l = Inr None"
| "call1_rounds (Suc fuel) clk i l =
     bind_f (call1_deadline (clk i) l) (\<lambda>d. case d of None \<Rightarrow> Inr (Some i)
       | Some (nd, l) \<Rightarrow> call1_rounds fuel clk (i + 1) (call1_timeout True True l))"

text \<open>
  A clock for which every timed wait lasts at least until its deadline: round \<open>i\<close> waits
  for \<open>1000 * 2^i\<close> ms, as long as the final deadline is not reached.
\<close>

definition waits :: "(nat \<Rightarrow> timespec) \<Rightarrow> bool" where
  "waits clk \<longleftrightarrow> (\<forall>i. ts_wf (clk i) \<and> nanos (clk i) + to_min * 2 ^ i * 1000000 \<le> nanos (clk (Suc i)))"

lemma clk_progress:
  assumes "waits clk"
  shows "nanos (clk 0) + to_min * (2 ^ i - 1) * 1000000 \<le> nanos (clk i)"
proof (induction i)
  case (Suc i)
  have "nanos (clk i) + to_min * 2 ^ i * 1000000 \<le> nanos (clk (Suc i))"
    using assms by (simp add: waits_def)
  with Suc show ?case by (simp add: to_min_def algebra_simps)
qed simp

lemma call1_last_round:
  "tv_sec (finaldeadline l) = 0 \<Longrightarrow> call1_rounds (Suc n) clk i l = Inr (Some i)"
  by (simp add: call1_deadline_def)

lemma call1_round:
  assumes "tv_sec (finaldeadline l) \<noteq> 0" and "curr_to l = to_min * 2 ^ i" and "ts_wf (clk i)"
    and "ts_wf (finaldeadline l)"
  shows "(\<exists>l'. call1_rounds (Suc n) clk i l = call1_rounds n clk (i + 1) l' \<and> tv_sec (finaldeadline l') = 0) \<or>
         (\<exists>l'. call1_rounds (Suc n) clk i l = call1_rounds n clk (i + 1) l' \<and>
               curr_to l' = to_min * 2 ^ (i + 1) \<and> finaldeadline l' = finaldeadline l \<and>
               nanos (clk i) + to_min * 2 ^ i * 1000000 \<le> nanos (finaldeadline l))"
proof -
  have "0 \<le> curr_to l" "0 \<le> tv_nsec (clk i)" using assms by (simp_all add: to_min_def ts_wf_def)
  then obtain nd where nd: "add_timespec (clk i) (curr_to l) = Inr nd"
    "nanos nd = nanos (clk i) + curr_to l * 1000000" "ts_wf nd"
    by (rule add_timespec_spec)
  show ?thesis
  proof (cases "cmp_timespec nd (finaldeadline l) > 0")
    case True
    with assms nd show ?thesis by (simp add: call1_deadline_def call1_timeout_def) force
  next
    case False
    with cmp_timespec_nanos(2) [OF nd(3) assms(4)] assms nd show ?thesis
      by (simp add: call1_deadline_def call1_timeout_def) force
  qed
qed

lemma call1_rounds_bound:
  assumes clk: "waits clk" and "curr_to l = to_min * 2 ^ i" and "ts_wf (finaldeadline l)"
    and "tv_sec (finaldeadline l) \<noteq> 0"
    and "nanos (finaldeadline l) < nanos (clk 0) + to_min * (2 ^ (i + k + 1) - 1) * 1000000"
  shows "\<exists>n. n \<le> i + k + 1 \<and> call1_rounds (k + 2) clk i l = Inr (Some n)"
  using assms(2-)
proof (induction k arbitrary: i l)
  case 0
  have "ts_wf (clk i)" using clk by (simp add: waits_def)
  moreover have "\<not> nanos (clk i) + to_min * 2 ^ i * 1000000 \<le> nanos (finaldeadline l)"
    using "0.prems"(4) clk_progress [OF clk, of i] by (simp add: to_min_def algebra_simps)
  ultimately obtain l' where "call1_rounds (Suc 1) clk i l = call1_rounds 1 clk (i + 1) l'"
    and "tv_sec (finaldeadline l') = 0"
    using call1_round [of l i clk 1] "0.prems"(1-3) by blast
  then show ?case using call1_last_round [of l' 0 clk "i + 1"] by auto
next
  case (Suc k)
  have "ts_wf (clk i)" using clk by (simp add: waits_def)
  with call1_round [of l i clk "k + 2"] Suc.prems(1-3) have
    "(\<exists>l'. call1_rounds (Suc (k + 2)) clk i l = call1_rounds (k + 2) clk (i + 1) l' \<and> tv_sec (finaldeadline l') = 0) \<or>
     (\<exists>l'. call1_rounds (Suc (k + 2)) clk i l = call1_rounds (k + 2) clk (i + 1) l' \<and>
           curr_to l' = to_min * 2 ^ (i + 1) \<and> finaldeadline l' = finaldeadline l)"
    by blast
  then show ?case
  proof (elim disjE exE conjE)
    fix l' assume "call1_rounds (Suc (k + 2)) clk i l = call1_rounds (k + 2) clk (i + 1) l'"
      and "tv_sec (finaldeadline l') = 0"
    then show ?thesis using call1_last_round [of l' "k + 1" clk "i + 1"] by auto
  next
    fix l' assume eq: "call1_rounds (Suc (k + 2)) clk i l = call1_rounds (k + 2) clk (i + 1) l'"
      and l': "curr_to l' = to_min * 2 ^ (i + 1)" "finaldeadline l' = finaldeadline l"
    have "\<exists>n. n \<le> (i + 1) + k + 1 \<and> call1_rounds (k + 2) clk (i + 1) l' = Inr (Some n)"
      using l' Suc.prems by (intro Suc.IH) simp_all
    with eq show ?thesis by auto
  qed
qed

text \<open>
  C27. \<open>call1\<close> gives up: when no reply ever arrives and every timed wait lasts until its
  deadline, a call with timeout \<open>to\<close> (in ms) leaves its loop after at most \<open>k + 1\<close> waits for every
  \<open>k\<close> with \<open>to < 1000 * (2^(k+1) - 1)\<close>, because the waits double. For \<open>to_max\<close> these are at
  most 7 waits.
\<close>

theorem call1_gives_up:
  assumes "waits clk" and "ts_wf now" and "0 < tv_sec now" and "nanos now \<le> nanos (clk 0)"
    and "0 \<le> to" and "to < to_min * (2 ^ (k + 1) - 1)"
  shows "\<exists>l n. call1_loop_init now to = Inr l \<and> n \<le> k + 1 \<and> call1_rounds (k + 2) clk 0 l = Inr (Some n)"
proof -
  have "0 \<le> tv_nsec now" using assms(2) by (simp add: ts_wf_def)
  with assms(5) obtain fd where fd: "add_timespec now to = Inr fd" "nanos fd = nanos now + to * 1000000"
    "ts_wf fd" "tv_sec now \<le> tv_sec fd"
    by (rule add_timespec_spec)
  let ?l = "\<lparr>curr_to = to_min, finaldeadline = fd, transmit = True\<rparr>"
  have "\<exists>n. n \<le> 0 + k + 1 \<and> call1_rounds (k + 2) clk 0 ?l = Inr (Some n)"
    using assms fd by (intro call1_rounds_bound) auto
  with fd(1) show ?thesis by (auto simp: call1_loop_init_def)
qed

definition demo_clock :: "nat \<Rightarrow> timespec" where
  "demo_clock i = \<lparr>tv_sec = 2 ^ i, tv_nsec = 0\<rparr>"

theorem call1_gives_up_witness:
  "\<exists>l n. call1_loop_init (demo_clock 0) to_max = Inr l \<and> n \<le> 7 \<and> call1_rounds 8 demo_clock 0 l = Inr (Some n)"
proof -
  have "waits demo_clock" by (simp add: waits_def demo_clock_def ts_wf_def nanos_def to_min_def)
  from call1_gives_up [OF this, of "demo_clock 0" to_max 6] show ?thesis
    by (simp add: demo_clock_def ts_wf_def to_max_def to_min_def)
qed

end
