(* ===== verification/Rpc_Server.thy ===== *)
theory Rpc_Server
  imports Rpc_Client
begin

text \<open>
  The server end of the RPC library: class \<open>rpcs\<close> of \<^verbatim>\<open>rpc/rpc.h\<close> and \<^verbatim>\<open>rpc/rpc.cc\<close>. Saved
  replies are buffers in a store \<open>bufs\<close>, so that freeing and sending them can be told apart.
  \<open>dispatch\<close> is split at the call of the handler: \<open>dispatch_begin\<close> classifies the request,
  \<open>dispatch_reply\<close> runs the handler and records the reply. The step relation \<open>srv_step\<close> lets
  any number of dispatch threads interleave at these points. The lemmas show at-most-once
  execution whatever the client sends, the replay of recorded replies, and that no saved
  reply is freed twice.
\<close>

section \<open>State\<close>

datatype rpcstate_t = NEW | INPROGRESS | DONE | FORGOTTEN

record reply_t =
  rt_xid :: u32
  cb_present :: bool
  rt_buf :: "nat option"
  rt_sz :: nat

definition reply_t_init :: "u32 \<Rightarrow> reply_t" where
  "reply_t_init xid = \<lparr>rt_xid = xid, cb_present = False, rt_buf = None, rt_sz = 0\<rparr>"

type_synonym 'a handler = "unmarshall \<Rightarrow> marshall \<Rightarrow> 'a \<Rightarrow> fault + (i32 \<times> marshall \<times> 'a)"

record 'a rpcs =
  nonce :: u32
  reply_window :: "u32 \<rightharpoonup> reply_t list"
  theForgottens :: "u32 \<rightharpoonup> u32 list"
  srv_conns :: "u32 \<rightharpoonup> nat"
  counting :: int
  curr_counts :: int
  counts :: "i32 \<rightharpoonup> int"
  srv_reachable :: bool
  procs :: "i32 \<rightharpoonup> 'a handler"
  bufs :: "nat \<rightharpoonup> cell list"   \<comment> \<open>allocated reply buffers by address\<close>
  brk :: nat                    \<comment> \<open>the next free address\<close>

section \<open>Handlers\<close>

text \<open>
  The wrapper \<open>h1::fn\<close> that the \<open>reg\<close> templates build for one to seven arguments: \<open>getargs\<close>
  extracts them one after the other, \<open>putr\<close> is the \<open><<\<close> of the result type.
\<close>

definition h1_fn ::
  "(unmarshall \<Rightarrow> fault + ('b \<times> unmarshall)) \<Rightarrow> ('r \<Rightarrow> marshall \<Rightarrow> fault + marshall) \<Rightarrow>
   ('b \<Rightarrow> 'a \<Rightarrow> fault + (i32 \<times> 'r \<times> 'a)) \<Rightarrow> 'a handler" where
  "h1_fn getargs putr meth args ret st =
     bind_f (getargs args) (\<lambda>(a, args).
     if \<not> okdone args then Inr (unmarshal_args_failure, ret, st)
     else bind_f (meth a st) (\<lambda>(b, r, st). bind_f (putr r ret) (\<lambda>ret. Inr (b, ret, st))))"

definition reg1 :: "i32 \<Rightarrow> 'a handler \<Rightarrow> 'a rpcs \<Rightarrow> fault + 'a rpcs" where
  "reg1 proc h s =
     bind_f (VERIFY (procs s proc = None)) (\<lambda>_. Inr (s\<lparr>procs := (procs s)(proc \<mapsto> h)\<rparr>))"

definition reg ::
  "i32 \<Rightarrow> (unmarshall \<Rightarrow> fault + ('b \<times> unmarshall)) \<Rightarrow> ('r \<Rightarrow> marshall \<Rightarrow> fault + marshall) \<Rightarrow>
   ('b \<Rightarrow> 'a \<Rightarrow> fault + (i32 \<times> 'r \<times> 'a)) \<Rightarrow> 'a rpcs \<Rightarrow> fault + 'a rpcs" where
  "reg proc getargs putr meth s = reg1 proc (h1_fn getargs putr meth) s"

text \<open>The handler for \<open>rpc_const::bind\<close>; \<open>n\<close> is \<open>nonce_\<close>.\<close>

definition rpcbind :: "u32 \<Rightarrow> i32 \<Rightarrow> 'a \<Rightarrow> fault + (i32 \<times> i32 \<times> 'a)" where
  "rpcbind n a st = Inr (0, n, st)"

text \<open>The constructor; \<open>n\<close> is what \<open>random()\<close> returns.\<close>

definition rpcs_init :: "u32 \<Rightarrow> int \<Rightarrow> fault + 'a rpcs" where
  "rpcs_init n count =
     reg rpc_bind get_i32 put_i32 (rpcbind n)
       \<lparr>nonce = n, reply_window = Map.empty, theForgottens = Map.empty, srv_conns = Map.empty,
        counting = count, curr_counts = count, counts = Map.empty, srv_reachable = True,
        procs = Map.empty, bufs = Map.empty, brk = 0\<rparr>"

definition updatestat :: "i32 \<Rightarrow> 'a rpcs \<Rightarrow> 'a rpcs" where
  "updatestat proc s =
     (let s = s\<lparr>counts := map_upd 0 proc (\<lambda>n. n + 1) (counts s), curr_counts := curr_counts s - 1\<rparr>
      in if curr_counts s = 0 then s\<lparr>curr_counts := counting s\<rparr> else s)"

section \<open>The reply window\<close>

text \<open>\<open>free\<close>: nothing happens for the null pointer; freeing twice is a fault.\<close>

definition free_buf :: "nat option \<Rightarrow> (nat \<rightharpoonup> cell list) \<Rightarrow> fault + (nat \<rightharpoonup> cell list)" where
  "free_buf p hp = (case p of None \<Rightarrow> Inr hp
     | Some a \<Rightarrow> if hp a = None then Inl OutOfBounds else Inr (hp(a := None)))"

text \<open>The loop of \<open>checkduplicate_and_update\<close> that trims a window; \<open>fg\<close> is the client's list in \<open>theForgottens\<close>.\<close>

fun trim :: "u32 \<Rightarrow> reply_t list \<Rightarrow> u32 list \<Rightarrow> (nat \<rightharpoonup> cell list) \<Rightarrow>
  fault + (reply_t list \<times> u32 list \<times> (nat \<rightharpoonup> cell list))" where
  "trim xid_rep [] fg hp = Inr ([], fg, hp)"
| "trim xid_rep (e # es) fg hp =
     (if rt_xid e \<le> xid_rep
      then bind_f (free_buf (rt_buf e) hp) (\<lambda>hp. trim xid_rep es (fg @ [rt_xid e]) hp)
      else bind_f (trim xid_rep es fg hp) (\<lambda>(es, fg, hp). Inr (e # es, fg, hp)))"

text \<open>The classification, and \<open>*b\<close> and \<open>*sz\<close> when they are set.\<close>

definition checkduplicate_and_update ::
  "u32 \<Rightarrow> u32 \<Rightarrow> u32 \<Rightarrow> 'a rpcs \<Rightarrow> fault + ((rpcstate_t \<times> (nat option \<times> nat) option) \<times> 'a rpcs)" where
  "checkduplicate_and_update clt xid xid_rep s =
     (let (result, w) =
        (case reply_window s clt of
           Some w \<Rightarrow>
             (case find (\<lambda>e. rt_xid e = xid) w of
                Some e \<Rightarrow> ((DONE, Some (rt_buf e, rt_sz e)), w)
              | None \<Rightarrow>
                  if xid \<in> set (map_at [] (theForgottens s) clt) then ((FORGOTTEN, None), w)
                  else ((NEW, None), w @ [reply_t_init xid]))
         | None \<Rightarrow> ((NEW, None), [reply_t_init xid]))
      in bind_f (trim xid_rep w (map_at [] (theForgottens s) clt) (bufs s)) (\<lambda>(w', fg, hp).
         Inr (result, s\<lparr>reply_window := (reply_window s)(clt \<mapsto> w'),
                        theForgottens := (if fg = map_at [] (theForgottens s) clt then theForgottens s
                                          else (theForgottens s)(clt \<mapsto> fg)),
                        bufs := hp\<rparr>)))"

fun set_reply :: "u32 \<Rightarrow> nat \<Rightarrow> nat \<Rightarrow> reply_t list \<Rightarrow> reply_t list" where
  "set_reply xid b sz [] = []"
| "set_reply xid b sz (e # es) =
     (if rt_xid e = xid then e\<lparr>rt_buf := Some b, rt_sz := sz\<rparr> # es else e # set_reply xid b sz es)"

definition add_reply :: "u32 \<Rightarrow> u32 \<Rightarrow> nat \<Rightarrow> nat \<Rightarrow> 'a rpcs \<Rightarrow> 'a rpcs" where
  "add_reply clt xid b sz s =
     s\<lparr>reply_window := map_upd [] clt (set_reply xid b sz) (reply_window s)\<rparr>"

text \<open>\<open>free_reply_window\<close>; \<open>clts\<close> are the keys of \<open>reply_window_\<close> in order.\<close>

fun free_all :: "reply_t list \<Rightarrow> (nat \<rightharpoonup> cell list) \<Rightarrow> fault + (nat \<rightharpoonup> cell list)" where
  "free_all [] hp = Inr hp"
| "free_all (e # es) hp = bind_f (free_buf (rt_buf e) hp) (free_all es)"

definition free_reply_window :: "u32 list \<Rightarrow> 'a rpcs \<Rightarrow> fault + 'a rpcs" where
  "free_reply_window clts s =
     bind_f (free_all (concat (map (map_at [] (reply_window s)) clts)) (bufs s)) (\<lambda>hp.
     Inr (s\<lparr>reply_window := Map.empty, bufs := hp\<rparr>))"

text \<open>The destructor; deleting the pool in between waits for the jobs that still run.\<close>

definition rpcs_delete :: "u32 list \<Rightarrow> tcpsconn \<Rightarrow> PollMgr \<Rightarrow> 'a rpcs \<Rightarrow> fault + ('a rpcs \<times> PollMgr)" where
  "rpcs_delete clts listener p s =
     bind_f (tcpsconn_delete (ts_conns listener) p) (\<lambda>p.
     bind_f (free_reply_window clts s) (\<lambda>s. Inr (s, p)))"

section \<open>\<open>dispatch\<close>\<close>

text \<open>\<open>got_pdu\<close>: whether a job is queued, given that the pool accepts it or not.\<close>

definition srv_got_pdu :: "bool \<Rightarrow> nat \<Rightarrow> conns \<Rightarrow> 'a rpcs \<Rightarrow> fault + (bool \<times> bool \<times> conns)" where
  "srv_got_pdu succ c hp s =
     (if \<not> srv_reachable s then Inr (True, False, hp)
      else bind_f (heap_incref c hp) (\<lambda>hp.
        if \<not> succ then bind_f (heap_decref c hp) (\<lambda>hp. Inr (False, False, hp))
        else Inr (True, True, hp)))"

text \<open>Known clients and their latest connection.\<close>

definition note_client :: "u32 \<Rightarrow> 'a rpcs \<Rightarrow> 'a rpcs" where
  "note_client clt s =
     (if reply_window s clt = None then s\<lparr>reply_window := (reply_window s)(clt \<mapsto> [])\<rparr> else s)"

definition save_conn :: "u32 \<Rightarrow> nat \<Rightarrow> 'a rpcs \<Rightarrow> conns \<Rightarrow> fault + ('a rpcs \<times> conns)" where
  "save_conn clt c s hp =
     (case srv_conns s clt of
        None \<Rightarrow> bind_f (heap_incref c hp) (\<lambda>hp. Inr (s\<lparr>srv_conns := (srv_conns s)(clt \<mapsto> c)\<rparr>, hp))
      | Some old \<Rightarrow>
          bind_f (deref old hp) (\<lambda>oc. bind_f (deref c hp) (\<lambda>cc.
          if compare oc cc < 0
          then bind_f (heap_decref old hp) (\<lambda>hp. bind_f (heap_incref c hp) (\<lambda>hp.
               Inr (s\<lparr>srv_conns := (srv_conns s)(clt \<mapsto> c)\<rparr>, hp)))
          else Inr (s, hp))))"

text \<open>
  What \<open>dispatch\<close> goes on to do: nothing; send a reply that consists of a header only, with or
  without releasing the connection afterwards; run the handler; send a saved reply.
\<close>

datatype 'a dispatch_next =
    DispDrop
  | DispHeader "cell list" bool
  | DispRun "'a handler"
  | DispSaved "nat option" nat
  | DispNothing

definition dispatch_begin ::
  "nat \<Rightarrow> u8 list \<Rightarrow> nat \<Rightarrow> 'a rpcs \<Rightarrow> conns \<Rightarrow>
   fault + ('a dispatch_next \<times> req_header \<times> unmarshall \<times> 'a rpcs \<times> conns)" where
  "dispatch_begin c b sz s hp =
     bind_f (unpack_req_header (unmarshall_init b sz)) (\<lambda>(h, req).
     if \<not> u_ok req then bind_f (heap_decref c hp) (\<lambda>hp. Inr (DispDrop, h, req, s, hp))
     else if rq_srv_nonce h \<noteq> 0 \<and> rq_srv_nonce h \<noteq> nonce s
     then bind_f (pack_reply_header \<lparr>rp_xid = rq_xid h, rp_ret = oldsrv_failure\<rparr> marshall_init) (\<lambda>rep.
          Inr (DispHeader (contents rep) False, h, req, s, hp))
     else (case procs s (rq_proc h) of
         None \<Rightarrow> Inl VerifyFailed
       | Some f \<Rightarrow>
           if rq_clt_nonce h = 0 then Inr (DispRun f, h, req, s, hp)
           else
             bind_f (save_conn (rq_clt_nonce h) c (note_client (rq_clt_nonce h) s) hp) (\<lambda>(s, hp).
             bind_f (checkduplicate_and_update (rq_clt_nonce h) (rq_xid h) (rq_xid_rep h) s) (\<lambda>((stat, bz), s).
             (case stat of
                NEW \<Rightarrow> Inr (DispRun f, h, req, s, hp)
              | INPROGRESS \<Rightarrow> Inr (DispNothing, h, req, s, hp)
              | DONE \<Rightarrow> Inr (case bz of Some (p, n) \<Rightarrow> DispSaved p n | None \<Rightarrow> DispNothing, h, req, s, hp)
              | FORGOTTEN \<Rightarrow>
                  bind_f (pack_reply_header \<lparr>rp_xid = rq_xid h, rp_ret = atmostonce_failure\<rparr> marshall_init) (\<lambda>rep.
                  Inr (DispHeader (contents rep) True, h, req, s, hp)))))))"

text \<open>The case \<open>NEW\<close> up to the recording of the reply; \<open>sz1\<close> bytes at address \<open>b1\<close> are sent.\<close>

definition dispatch_reply ::
  "req_header \<Rightarrow> unmarshall \<Rightarrow> 'a handler \<Rightarrow> 'a rpcs \<Rightarrow> 'a \<Rightarrow> fault + (nat \<times> nat \<times> 'a rpcs \<times> 'a)" where
  "dispatch_reply h req f s st =
     (let s = (if counting s \<noteq> 0 then updatestat (rq_proc h) s else s) in
      bind_f (f req marshall_init st) (\<lambda>(ret, rep, st).
      bind_f (VERIFY (ret \<noteq> unmarshal_args_failure)) (\<lambda>_.
      bind_f (VERIFY (0 \<le>s ret)) (\<lambda>_.
      bind_f (pack_reply_header \<lparr>rp_xid = rq_xid h, rp_ret = ret\<rparr> rep) (\<lambda>rep.
      let b1 = brk s; sz1 = m_ind rep;
          s = s\<lparr>bufs := (bufs s)(b1 \<mapsto> contents rep), brk := b1 + 1\<rparr>;
          s = (if rq_clt_nonce h > 0 then add_reply (rq_clt_nonce h) (rq_xid h) b1 sz1 s else s)
      in Inr (b1, sz1, s, st))))))"

text \<open>The connection the reply goes to; \<open>conns_[clt]\<close> is null for an unknown client.\<close>

definition latest_conn :: "u32 \<Rightarrow> nat \<Rightarrow> 'a rpcs \<Rightarrow> conns \<Rightarrow> fault + (nat \<times> conns)" where
  "latest_conn clt c s hp =
     bind_f (deref c hp) (\<lambda>cc.
     if isdead cc \<and> srv_conns s clt \<noteq> Some c
     then bind_f (heap_decref c hp) (\<lambda>hp.
          (case srv_conns s clt of None \<Rightarrow> Inl OutOfBounds
           | Some c' \<Rightarrow> bind_f (heap_incref c' hp) (\<lambda>hp. Inr (c', hp))))
     else Inr (c, hp))"

text \<open>After the reply has been sent: the buffer is freed for a client with nonce 0.\<close>

definition dispatch_end :: "u32 \<Rightarrow> nat \<Rightarrow> nat \<Rightarrow> 'a rpcs \<Rightarrow> conns \<Rightarrow> fault + ('a rpcs \<times> conns)" where
  "dispatch_end clt b1 c s hp =
     bind_f (if clt = 0 then free_buf (Some b1) (bufs s) else Inr (bufs s)) (\<lambda>bs.
     bind_f (heap_decref c hp) (\<lambda>hp. Inr (s\<lparr>bufs := bs\<rparr>, hp)))"

section \<open>Effect of the classification\<close>

definition win :: "'a rpcs \<Rightarrow> u32 \<Rightarrow> reply_t list" where
  "win s n = map_at [] (reply_window s) n"

definition forg :: "'a rpcs \<Rightarrow> u32 \<Rightarrow> u32 list" where
  "forg s n = map_at [] (theForgottens s) n"

definition live_bufs :: "reply_t list \<Rightarrow> nat list" where
  "live_bufs w = map the (filter (\<lambda>p. p \<noteq> None) (map rt_buf w))"

lemma live_bufs_simps [simp]:
  "live_bufs [] = []"
  "live_bufs (e # w) = (case rt_buf e of None \<Rightarrow> live_bufs w | Some a \<Rightarrow> a # live_bufs w)"
  "live_bufs (v @ w) = live_bufs v @ live_bufs w"
  by (auto simp: live_bufs_def split: option.splits)

lemma in_live_bufs: "a \<in> set (live_bufs w) \<longleftrightarrow> (\<exists>e \<in> set w. rt_buf e = Some a)"
  by (induction w) (auto split: option.splits)

lemma live_bufs_filter: "set (live_bufs (filter P w)) \<subseteq> set (live_bufs w)"
  by (auto simp: in_live_bufs)

lemma distinct_live_bufs_filter: "distinct (live_bufs w) \<Longrightarrow> distinct (live_bufs (filter P w))"
proof (induction w)
  case (Cons e w)
  then show ?case using live_bufs_filter [of P w] by (auto split: option.splits)
qed simp

lemma live_bufs_partition:
  "distinct (live_bufs v) \<Longrightarrow> set (live_bufs (filter (\<lambda>e. \<not> P e) v)) \<inter> set (live_bufs (filter P v)) = {}"
  by (induction v) (auto split: option.splits simp: in_live_bufs)

lemma trim_result:
  "trim xr w fg hp = Inr (w', fg', hp') \<Longrightarrow>
     w' = filter (\<lambda>e. \<not> rt_xid e \<le> xr) w \<and> fg' = fg @ map rt_xid (filter (\<lambda>e. rt_xid e \<le> xr) w) \<and>
     hp' = hp |` (- set (live_bufs (filter (\<lambda>e. rt_xid e \<le> xr) w)))"
proof (induction w arbitrary: w' fg hp)
  case Nil
  then show ?case by (simp add: restrict_map_def)
next
  case (Cons e w)
  show ?case
  proof (cases "rt_xid e \<le> xr")
    case True
    from Cons.prems True obtain hp1 where f: "free_buf (rt_buf e) hp = Inr hp1"
      and t: "trim xr w (fg @ [rt_xid e]) hp1 = Inr (w', fg', hp')"
      by (auto simp: bind_f_eq_Inr)
    from f have "hp1 = hp |` (- set (live_bufs [e]))"
      by (auto simp: free_buf_def restrict_map_def fun_eq_iff split: option.splits if_splits)
    moreover have "- {a} \<inter> - A = - insert a A" for a :: nat and A by auto
    ultimately show ?thesis using Cons.IH [OF t] True by (auto split: option.splits)
  next
    case False
    with Cons.prems obtain w1 where "trim xr w fg hp = Inr (w1, fg', hp')" "w' = e # w1"
      by (auto simp: bind_f_eq_Inr)
    with Cons.IH False show ?thesis by auto
  qed
qed

lemma trim_total:
  assumes "distinct (live_bufs w)" and "set (live_bufs w) \<subseteq> dom hp"
  shows "\<exists>r. trim xr w fg hp = Inr r"
  using assms
proof (induction w arbitrary: fg hp)
  case (Cons e w)
  show ?case
  proof (cases "rt_xid e \<le> xr \<and> rt_buf e \<noteq> None")
    case True
    then obtain a where a: "rt_buf e = Some a" by auto
    with Cons.prems have "hp a \<noteq> None" "a \<notin> set (live_bufs w)" "set (live_bufs w) \<subseteq> dom hp"
      "distinct (live_bufs w)" by auto
    moreover then have "set (live_bufs w) \<subseteq> dom (hp(a := None))" by auto
    ultimately show ?thesis using True a Cons.IH by (auto simp: free_buf_def)
  next
    case False
    from Cons.prems have "distinct (live_bufs w)" "set (live_bufs w) \<subseteq> dom hp"
      by (auto split: option.splits)
    then obtain r1 r2 where "trim xr w fg hp = Inr r1" "trim xr w (fg @ [rt_xid e]) hp = Inr r2"
      using Cons.IH by meson
    with False show ?thesis by (cases r1; cases r2) (auto simp: free_buf_def)
  qed
qed simp

text \<open>The window of a known client as it is before trimming.\<close>

definition noted :: "rpcstate_t \<Rightarrow> u32 \<Rightarrow> reply_t list \<Rightarrow> reply_t list" where
  "noted stat x w = (if stat = NEW then w @ [reply_t_init x] else w)"

definition verdict :: "u32 \<Rightarrow> reply_t list \<Rightarrow> u32 list \<Rightarrow> rpcstate_t" where
  "verdict x w fg = (if x \<in> rt_xid ` set w then DONE else if x \<in> set fg then FORGOTTEN else NEW)"

lemma find_xid_None: "find (\<lambda>e. rt_xid e = x) w = None \<longleftrightarrow> x \<notin> rt_xid ` set w"
  by (auto simp: find_None_iff image_iff)

lemma check_effect:
  assumes "checkduplicate_and_update n x xr s = Inr ((stat, bz), s')" and "reply_window s n \<noteq> None"
  shows "stat = verdict x (win s n) (forg s n)"
    and "win s' n = filter (\<lambda>e. \<not> rt_xid e \<le> xr) (noted stat x (win s n))"
    and "forg s' n = forg s n @ map rt_xid (filter (\<lambda>e. rt_xid e \<le> xr) (noted stat x (win s n)))"
    and "\<And>m. m \<noteq> n \<Longrightarrow> win s' m = win s m \<and> forg s' m = forg s m"
    and "bufs s' = bufs s |` (- set (live_bufs (filter (\<lambda>e. rt_xid e \<le> xr) (noted stat x (win s n)))))"
    and "brk s' = brk s"
    and "stat = DONE \<Longrightarrow> \<exists>e \<in> set (win s n). rt_xid e = x \<and> bz = Some (rt_buf e, rt_sz e)"
proof -
  from assms(2) obtain w where w: "reply_window s n = Some w" by auto
  define r where "r = (case find (\<lambda>e. rt_xid e = x) w of
      Some e \<Rightarrow> ((DONE, Some (rt_buf e, rt_sz e)), w)
    | None \<Rightarrow> if x \<in> set (forg s n) then ((FORGOTTEN, None), w) else ((NEW, None), w @ [reply_t_init x]))"
  have r: "fst (fst r) = verdict x w (forg s n)" "snd r = noted (fst (fst r)) x w"
    and rd: "fst (fst r) = DONE \<Longrightarrow> \<exists>e \<in> set w. rt_xid e = x \<and> snd (fst r) = Some (rt_buf e, rt_sz e)"
    using find_xid_None [of x w]
    by (auto simp: r_def verdict_def noted_def find_Some_iff split: option.splits if_splits)
  from assms(1) w obtain w' fg hp where t: "trim xr (snd r) (forg s n) (bufs s) = Inr (w', fg, hp)"
    and st: "fst r = (stat, bz)"
    and s': "s' = s\<lparr>reply_window := (reply_window s)(n \<mapsto> w'),
        theForgottens := (if fg = forg s n then theForgottens s else (theForgottens s)(n \<mapsto> fg)), bufs := hp\<rparr>"
    unfolding checkduplicate_and_update_def Let_def r_def forg_def
    by (auto simp: bind_f_eq_Inr split: prod.splits)
  note res = trim_result [OF t]
  have "fst (fst r) = stat" "win s n = w" using st w by (auto simp: win_def)
  with r res s' rd st show "stat = verdict x (win s n) (forg s n)"
    "win s' n = filter (\<lambda>e. \<not> rt_xid e \<le> xr) (noted stat x (win s n))"
    "bufs s' = bufs s |` (- set (live_bufs (filter (\<lambda>e. rt_xid e \<le> xr) (noted stat x (win s n)))))"
    "brk s' = brk s" "stat = DONE \<Longrightarrow> \<exists>e \<in> set (win s n). rt_xid e = x \<and> bz = Some (rt_buf e, rt_sz e)"
    by (auto simp: win_def)
  show "forg s' n = forg s n @ map rt_xid (filter (\<lambda>e. rt_xid e \<le> xr) (noted stat x (win s n)))"
    using res r s' \<open>fst (fst r) = stat\<close> \<open>win s n = w\<close> by (auto simp: forg_def)
  show "win s' m = win s m \<and> forg s' m = forg s m" if "m \<noteq> n" for m
    using s' that by (simp add: win_def forg_def map_at_def)
qed

section \<open>Interleaved dispatch threads\<close>

definition same_replies :: "'a rpcs \<Rightarrow> 'a rpcs \<Rightarrow> bool" where
  "same_replies s t \<longleftrightarrow> win t = win s \<and> forg t = forg s \<and> bufs t = bufs s \<and> brk t = brk s"

lemma same_replies_refl [simp]: "same_replies s s"
  by (simp add: same_replies_def)

lemma note_client_same: "same_replies s (note_client n s)" "reply_window (note_client n s) n \<noteq> None"
  by (auto simp: note_client_def same_replies_def win_def forg_def map_at_def fun_eq_iff)

lemma save_conn_same:
  "save_conn n c s hp = Inr (s', hp') \<Longrightarrow> same_replies s s' \<and> reply_window s' = reply_window s"
  by (auto simp: save_conn_def same_replies_def win_def forg_def bind_f_eq_Inr fun_eq_iff
      split: option.splits if_splits)

text \<open>The end of \<open>dispatch_begin\<close>, after the request has been classified.\<close>

definition classified ::
  "'a handler \<Rightarrow> req_header \<Rightarrow> unmarshall \<Rightarrow> conns \<Rightarrow> (rpcstate_t \<times> (nat option \<times> nat) option) \<times> 'a rpcs \<Rightarrow>
   fault + ('a dispatch_next \<times> req_header \<times> unmarshall \<times> 'a rpcs \<times> conns)" where
  "classified f h req hp = (\<lambda>((stat, bz), s). (case stat of
      NEW \<Rightarrow> Inr (DispRun f, h, req, s, hp)
    | INPROGRESS \<Rightarrow> Inr (DispNothing, h, req, s, hp)
    | DONE \<Rightarrow> Inr (case bz of Some (p, n) \<Rightarrow> DispSaved p n | None \<Rightarrow> DispNothing, h, req, s, hp)
    | FORGOTTEN \<Rightarrow>
        bind_f (pack_reply_header \<lparr>rp_xid = rq_xid h, rp_ret = atmostonce_failure\<rparr> marshall_init) (\<lambda>rep.
        Inr (DispHeader (contents rep) True, h, req, s, hp))))"

lemma classified_Inr:
  assumes "classified f h req hp ((stat, bz), s) = Inr (nx, h', req', s', hp')"
  shows "s' = s" and "h' = h" and "(\<exists>f. nx = DispRun f) \<longleftrightarrow> stat = NEW"
  using assms by (auto simp: classified_def bind_f_eq_Inr split: rpcstate_t.splits option.splits)

lemma begin_effect:
  assumes "dispatch_begin c b sz s hp = Inr (nx, h, req, s', hp')"
  obtains (quiet) "same_replies s s'" and "\<And>f. nx = DispRun f \<Longrightarrow> rq_clt_nonce h = 0"
  | (checked) s1 stat bz where "rq_clt_nonce h \<noteq> 0" and "same_replies s s1"
      and "reply_window s1 (rq_clt_nonce h) \<noteq> None"
      and "checkduplicate_and_update (rq_clt_nonce h) (rq_xid h) (rq_xid_rep h) s1 = Inr ((stat, bz), s')"
      and "(\<exists>f. nx = DispRun f) \<longleftrightarrow> stat = NEW"
proof -
  from assms obtain h0 r0 where hdr: "unpack_req_header (unmarshall_init b sz) = Inr (h0, r0)"
    by (auto simp: dispatch_begin_def bind_f_eq_Inr)
  let ?n = "rq_clt_nonce h0"
  let ?old = "rq_srv_nonce h0 \<noteq> 0 \<and> rq_srv_nonce h0 \<noteq> nonce s"
  consider (a) "\<not> u_ok r0 \<or> ?old" | (b) "u_ok r0" "\<not> ?old" "procs s (rq_proc h0) = None"
    | (c) f where "u_ok r0" "\<not> ?old" "procs s (rq_proc h0) = Some f" by blast
  then show ?thesis
  proof cases
    case a
    with assms hdr show ?thesis
      by (intro quiet) (auto simp: dispatch_begin_def bind_f_eq_Inr split: if_splits)
  next
    case b
    with assms hdr show ?thesis by (simp add: dispatch_begin_def)
  next
    case (c f)
    show ?thesis
    proof (cases "?n = 0")
      case True
      with assms hdr c show ?thesis by (intro quiet) (auto simp: dispatch_begin_def)
    next
      case False
      have "dispatch_begin c b sz s hp = bind_f (save_conn ?n c (note_client ?n s) hp) (\<lambda>(s, hp).
          bind_f (checkduplicate_and_update ?n (rq_xid h0) (rq_xid_rep h0) s) (classified f h0 r0 hp))"
        using hdr c False unfolding dispatch_begin_def classified_def by auto
      with assms obtain s1 hp1 stat bz s2 where sc: "save_conn ?n c (note_client ?n s) hp = Inr (s1, hp1)"
        and d: "checkduplicate_and_update ?n (rq_xid h0) (rq_xid_rep h0) s1 = Inr ((stat, bz), s2)"
        and cl: "classified f h0 r0 hp1 ((stat, bz), s2) = Inr (nx, h, req, s', hp')"
        by (auto simp: bind_f_eq_Inr)
      from save_conn_same [OF sc] note_client_same [where n = "?n" and s = s]
      have "same_replies s s1" "reply_window s1 ?n \<noteq> None" by (auto simp: same_replies_def)
      then show ?thesis using classified_Inr [OF cl] d False by (intro checked) auto
    qed
  qed
qed

record 'a srv_sys =
  sys_srv :: "'a rpcs"
  sys_heap :: conns
  sys_app :: 'a
  sys_running :: "(req_header \<times> unmarshall \<times> 'a handler) list"
  sys_loose :: "nat set"
  sys_started :: "(u32 \<times> u32) list"
  sys_replies :: "u32 \<times> u32 \<rightharpoonup> cell list"

text \<open>
  \<open>sys_running\<close> are the threads between \<open>dispatch_begin\<close> and \<open>dispatch_reply\<close>, \<open>sys_loose\<close> the
  reply buffers that belong to a thread of a client with nonce 0; \<open>sys_started\<close> and
  \<open>sys_replies\<close> record which requests of other clients were handed to a handler and what the
  handler answered.
\<close>

definition runs :: "'a dispatch_next \<Rightarrow> 'a handler list" where
  "runs nx = (case nx of DispRun f \<Rightarrow> [f] | _ \<Rightarrow> [])"

inductive srv_step :: "'a srv_sys \<Rightarrow> 'a srv_sys \<Rightarrow> bool" where
  sv_begin: "dispatch_begin c b sz (sys_srv y) (sys_heap y) = Inr (nx, h, req, s', hp') \<Longrightarrow>
    srv_step y (y\<lparr>sys_srv := s', sys_heap := hp',
      sys_running := map (\<lambda>f. (h, req, f)) (runs nx) @ sys_running y,
      sys_started := (if runs nx \<noteq> [] \<and> rq_clt_nonce h \<noteq> 0
                      then (rq_clt_nonce h, rq_xid h) # sys_started y else sys_started y)\<rparr>)"
| sv_reply: "\<lbrakk>(h, req, f) \<in> set (sys_running y);
    dispatch_reply h req f (sys_srv y) (sys_app y) = Inr (b1, sz1, s', st')\<rbrakk> \<Longrightarrow>
    srv_step y (y\<lparr>sys_srv := s', sys_app := st', sys_running := remove1 (h, req, f) (sys_running y),
      sys_loose := (if rq_clt_nonce h = 0 then insert b1 (sys_loose y) else sys_loose y),
      sys_replies := (if rq_clt_nonce h = 0 then sys_replies y
                      else (sys_replies y)((rq_clt_nonce h, rq_xid h) := bufs s' b1))\<rparr>)"
| sv_end: "\<lbrakk>b1 \<in> sys_loose y; dispatch_end 0 b1 c (sys_srv y) (sys_heap y) = Inr (s', hp')\<rbrakk> \<Longrightarrow>
    srv_step y (y\<lparr>sys_srv := s', sys_heap := hp', sys_loose := sys_loose y - {b1}\<rparr>)"
| sv_conn: "srv_step y (y\<lparr>sys_heap := hp\<rparr>)"

definition srv_start :: "'a srv_sys \<Rightarrow> bool" where
  "srv_start y \<longleftrightarrow> reply_window (sys_srv y) = Map.empty \<and> theForgottens (sys_srv y) = Map.empty \<and>
     bufs (sys_srv y) = Map.empty \<and> brk (sys_srv y) = 0 \<and> sys_running y = [] \<and> sys_loose y = {} \<and>
     sys_started y = [] \<and> sys_replies y = Map.empty"

text \<open>The requests of at-most-once clients that are being executed.\<close>

definition running_keys :: "'a srv_sys \<Rightarrow> (u32 \<times> u32) list" where
  "running_keys y = filter (\<lambda>(n, x). n \<noteq> 0) (map (\<lambda>(h, _, _). (rq_clt_nonce h, rq_xid h)) (sys_running y))"

text \<open>At most once: a started request is remembered in the window or among the forgotten ones.\<close>

definition amo_inv :: "'a srv_sys \<Rightarrow> bool" where
  "amo_inv y \<longleftrightarrow> distinct (sys_started y) \<and>
     (\<forall>n x. (n, x) \<in> set (sys_started y) \<longleftrightarrow>
        x \<in> rt_xid ` set (win (sys_srv y) n) \<or> x \<in> set (forg (sys_srv y) n)) \<and>
     (\<forall>n. distinct (map rt_xid (win (sys_srv y) n)) \<and>
        rt_xid ` set (win (sys_srv y) n) \<inter> set (forg (sys_srv y) n) = {}) \<and>
     distinct (running_keys y) \<and> set (running_keys y) \<subseteq> set (sys_started y)"

text \<open>Ownership: every saved reply has its own allocated buffer.\<close>

definition mem_inv :: "'a srv_sys \<Rightarrow> bool" where
  "mem_inv y \<longleftrightarrow>
     (\<forall>n. distinct (live_bufs (win (sys_srv y) n)) \<and> set (live_bufs (win (sys_srv y) n)) \<subseteq> dom (bufs (sys_srv y)) \<and>
          set (live_bufs (win (sys_srv y) n)) \<inter> sys_loose y = {}) \<and>
     (\<forall>n m. n \<noteq> m \<longrightarrow> set (live_bufs (win (sys_srv y) n)) \<inter> set (live_bufs (win (sys_srv y) m)) = {}) \<and>
     sys_loose y \<subseteq> dom (bufs (sys_srv y)) \<and> dom (bufs (sys_srv y)) \<subseteq> {..<brk (sys_srv y)}"

text \<open>A saved reply is what the handler answered; there is none while the handler runs.\<close>

definition reply_inv :: "'a srv_sys \<Rightarrow> bool" where
  "reply_inv y \<longleftrightarrow>
     (\<forall>n. \<forall>e \<in> set (win (sys_srv y) n). \<forall>a. rt_buf e = Some a \<longrightarrow>
        sys_replies y (n, rt_xid e) = bufs (sys_srv y) a \<and> (n, rt_xid e) \<notin> set (running_keys y))"

definition srv_inv :: "'a srv_sys \<Rightarrow> bool" where
  "srv_inv y \<longleftrightarrow> amo_inv y \<and> mem_inv y \<and> reply_inv y"

lemma srv_inv_start: "srv_start y \<Longrightarrow> srv_inv y"
  by (simp add: srv_inv_def srv_start_def amo_inv_def mem_inv_def reply_inv_def win_def forg_def
      running_keys_def)

lemma srv_inv_cong:
  assumes "srv_inv y" and "same_replies (sys_srv y) (sys_srv z)" and "sys_loose z = sys_loose y"
    and "sys_started z = sys_started y" and "sys_replies z = sys_replies y" and "running_keys z = running_keys y"
  shows "srv_inv z"
  using assms by (simp add: srv_inv_def same_replies_def amo_inv_def mem_inv_def reply_inv_def)

subsection \<open>A classified request\<close>

lemma runs_iff: "runs nx \<noteq> [] \<longleftrightarrow> (\<exists>f. nx = DispRun f)"
  by (cases nx) (auto simp: runs_def)

lemma amo_inv_checked:
  fixes y z :: "'a srv_sys"
  assumes inv: "amo_inv y" and n: "n \<noteq> 0"
    and stat: "stat = verdict x (win (sys_srv y) n) (forg (sys_srv y) n)"
    and win: "win (sys_srv z) n = filter (\<lambda>e. \<not> rt_xid e \<le> xr) (noted stat x (win (sys_srv y) n))"
    and forg: "forg (sys_srv z) n = forg (sys_srv y) n @ map rt_xid (filter (\<lambda>e. rt_xid e \<le> xr) (noted stat x (win (sys_srv y) n)))"
    and oth: "\<And>m. m \<noteq> n \<Longrightarrow> win (sys_srv z) m = win (sys_srv y) m \<and> forg (sys_srv z) m = forg (sys_srv y) m"
    and st: "sys_started z = (if stat = NEW then (n, x) # sys_started y else sys_started y)"
    and rk: "running_keys z = (if stat = NEW then (n, x) # running_keys y else running_keys y)"
  shows "amo_inv z"
proof -
  let ?w = "noted stat x (win (sys_srv y) n)"
  from inv have d: "distinct (sys_started y)" "distinct (running_keys y)" "set (running_keys y) \<subseteq> set (sys_started y)"
    and k: "\<And>n x. (n, x) \<in> set (sys_started y) \<longleftrightarrow> x \<in> rt_xid ` set (win (sys_srv y) n) \<or> x \<in> set (forg (sys_srv y) n)"
    and w: "\<And>n. distinct (map rt_xid (win (sys_srv y) n)) \<and> rt_xid ` set (win (sys_srv y) n) \<inter> set (forg (sys_srv y) n) = {}"
    by (auto simp: amo_inv_def)
  have new: "(n, x) \<notin> set (sys_started y)" if "stat = NEW"
    using that stat k by (auto simp: verdict_def split: if_splits)
  have ids: "rt_xid ` set ?w = (if stat = NEW then insert x (rt_xid ` set (win (sys_srv y) n)) else rt_xid ` set (win (sys_srv y) n))"
    by (auto simp: noted_def reply_t_init_def)
  have dw: "distinct (map rt_xid ?w)" "rt_xid ` set ?w \<inter> set (forg (sys_srv y) n) = {}"
    using w [of n] new k by (auto simp: noted_def reply_t_init_def)
  have keys: "(m, u) \<in> set (sys_started z) \<longleftrightarrow> u \<in> rt_xid ` set (win (sys_srv z) m) \<or> u \<in> set (forg (sys_srv z) m)" for m u
  proof (cases "m = n")
    case True
    have "u \<in> rt_xid ` set (win (sys_srv z) n) \<or> u \<in> set (forg (sys_srv z) n) \<longleftrightarrow>
        u \<in> rt_xid ` set ?w \<or> u \<in> set (forg (sys_srv y) n)"
      unfolding win forg by (auto simp: image_iff)
    with True st k ids show ?thesis by auto
  next
    case False
    with oth st k show ?thesis by auto
  qed
  have "distinct (map rt_xid (win (sys_srv z) m)) \<and> rt_xid ` set (win (sys_srv z) m) \<inter> set (forg (sys_srv z) m) = {}" for m
  proof (cases "m = n")
    case True
    have "inj_on rt_xid (set ?w)" using dw(1) by (simp add: distinct_map)
    then show ?thesis unfolding True win forg
      using dw by (auto simp: distinct_map inj_on_def)
  next
    case False
    with oth w show ?thesis by simp
  qed
  with keys d new st rk show ?thesis by (auto simp: amo_inv_def)
qed

lemma mem_inv_checked:
  fixes y z :: "'a srv_sys"
  assumes inv: "mem_inv y"
    and win: "win (sys_srv z) n = filter (\<lambda>e. \<not> P e) (noted stat x (win (sys_srv y) n))"
    and oth: "\<And>m. m \<noteq> n \<Longrightarrow> win (sys_srv z) m = win (sys_srv y) m"
    and bufs: "bufs (sys_srv z) = bufs (sys_srv y) |` (- set (live_bufs (filter P (noted stat x (win (sys_srv y) n)))))"
    and same: "brk (sys_srv z) = brk (sys_srv y)" "sys_loose z = sys_loose y"
  shows "mem_inv z"
proof -
  let ?w = "noted stat x (win (sys_srv y) n)" and ?F = "set (live_bufs (filter P (noted stat x (win (sys_srv y) n))))"
  have lw: "live_bufs ?w = live_bufs (win (sys_srv y) n)" by (simp add: noted_def reply_t_init_def)
  have F: "?F \<subseteq> set (live_bufs (win (sys_srv y) n))" using live_bufs_filter [of P ?w] lw by simp
  from inv have A: "\<And>m. distinct (live_bufs (win (sys_srv y) m)) \<and>
      set (live_bufs (win (sys_srv y) m)) \<subseteq> dom (bufs (sys_srv y)) \<and> set (live_bufs (win (sys_srv y) m)) \<inter> sys_loose y = {}"
    and B: "\<And>l m. l \<noteq> m \<Longrightarrow> set (live_bufs (win (sys_srv y) l)) \<inter> set (live_bufs (win (sys_srv y) m)) = {}"
    and C: "sys_loose y \<subseteq> dom (bufs (sys_srv y))" "dom (bufs (sys_srv y)) \<subseteq> {..<brk (sys_srv y)}"
    unfolding mem_inv_def by blast+
  have sub: "set (live_bufs (win (sys_srv z) m)) \<subseteq> set (live_bufs (win (sys_srv y) m))" for m
    using live_bufs_filter [of "\<lambda>e. \<not> P e" ?w] lw oth [of m] by (cases "m = n") (auto simp: win)
  have dist: "distinct (live_bufs (win (sys_srv z) m))" for m
    using distinct_live_bufs_filter [of ?w "\<lambda>e. \<not> P e"] lw A oth [of m] by (cases "m = n") (auto simp: win)
  have kept: "set (live_bufs (win (sys_srv z) m)) \<inter> ?F = {}" for m
  proof (cases "m = n")
    case True
    then show ?thesis using live_bufs_partition [of ?w P] A [of n] lw win by simp
  next
    case False
    with B [OF False] F oth show ?thesis by fastforce
  qed
  have dom: "dom (bufs (sys_srv z)) = dom (bufs (sys_srv y)) - ?F" unfolding bufs by auto
  show ?thesis unfolding mem_inv_def
  proof (intro conjI allI impI)
    fix m
    show "distinct (live_bufs (win (sys_srv z) m))" by (rule dist)
    show "set (live_bufs (win (sys_srv z) m)) \<subseteq> dom (bufs (sys_srv z))"
      unfolding dom using sub [of m] A [of m] kept [of m] by blast
    show "set (live_bufs (win (sys_srv z) m)) \<inter> sys_loose z = {}"
      unfolding same using sub [of m] A [of m] by blast
  next
    fix l m :: u32 assume "l \<noteq> m"
    from B [OF this] sub [of l] sub [of m]
    show "set (live_bufs (win (sys_srv z) l)) \<inter> set (live_bufs (win (sys_srv z) m)) = {}" by blast
  next
    show "sys_loose z \<subseteq> dom (bufs (sys_srv z))" unfolding dom same using C A [of n] F by blast
    show "dom (bufs (sys_srv z)) \<subseteq> {..<brk (sys_srv z)}" unfolding dom same using C by blast
  qed
qed

lemma reply_inv_checked:
  fixes y z :: "'a srv_sys"
  assumes inv: "reply_inv y" "mem_inv z"
    and win: "set (win (sys_srv z) n) \<subseteq> set (noted stat x (win (sys_srv y) n))"
    and oth: "\<And>m. m \<noteq> n \<Longrightarrow> win (sys_srv z) m = win (sys_srv y) m"
    and stat: "stat = NEW \<Longrightarrow> x \<notin> rt_xid ` set (win (sys_srv y) n)"
    and bufs: "\<And>a. a \<in> dom (bufs (sys_srv z)) \<Longrightarrow> bufs (sys_srv z) a = bufs (sys_srv y) a"
    and same: "sys_replies z = sys_replies y"
    and rk: "set (running_keys z) \<subseteq> (if stat = NEW then insert (n, x) (set (running_keys y)) else set (running_keys y))"
  shows "reply_inv z"
  unfolding reply_inv_def
proof (intro allI ballI impI)
  fix m e a assume e: "e \<in> set (win (sys_srv z) m)" and a: "rt_buf e = Some a"
  then have e': "e \<in> set (win (sys_srv y) m)"
    using win oth [of m] by (cases "m = n") (auto simp: noted_def reply_t_init_def split: if_splits)
  have "a \<in> dom (bufs (sys_srv z))"
    using inv(2) e a in_live_bufs [of a "win (sys_srv z) m"] unfolding mem_inv_def by blast
  moreover have "(m, rt_xid e) \<noteq> (n, x)" if "stat = NEW" using stat [OF that] e' by auto
  ultimately show "sys_replies z (m, rt_xid e) = bufs (sys_srv z) a \<and> (m, rt_xid e) \<notin> set (running_keys z)"
    using inv(1) e' a bufs same rk unfolding reply_inv_def by (auto split: if_splits)
qed

lemma srv_inv_begin:
  assumes inv: "srv_inv y"
    and b: "dispatch_begin c b sz (sys_srv y) (sys_heap y) = Inr (nx, h, req, s', hp')"
    and z: "z = y\<lparr>sys_srv := s', sys_heap := hp', sys_running := map (\<lambda>f. (h, req, f)) (runs nx) @ sys_running y,
      sys_started := (if runs nx \<noteq> [] \<and> rq_clt_nonce h \<noteq> 0
                      then (rq_clt_nonce h, rq_xid h) # sys_started y else sys_started y)\<rparr>"
  shows "srv_inv z"
  using b
proof (cases rule: begin_effect)
  case quiet
  have "running_keys z = running_keys y" "sys_started z = sys_started y"
    using quiet(2) by (auto simp: z running_keys_def runs_def split: dispatch_next.splits)
  with quiet(1) show ?thesis by (intro srv_inv_cong [OF inv]) (simp_all add: z)
next
  case (checked s1 stat bz)
  let ?n = "rq_clt_nonce h" and ?x = "rq_xid h"
  have s1: "win s1 = win (sys_srv y)" "forg s1 = forg (sys_srv y)" "bufs s1 = bufs (sys_srv y)" "brk s1 = brk (sys_srv y)"
    using checked(2) by (simp_all add: same_replies_def)
  note eff = check_effect [OF checked(4,3), unfolded s1]
  have zs: "sys_srv z = s'" "sys_loose z = sys_loose y" "sys_replies z = sys_replies y" by (simp_all add: z)
  have rk: "running_keys z = (if stat = NEW then (?n, ?x) # running_keys y else running_keys y)"
    and st: "sys_started z = (if stat = NEW then (?n, ?x) # sys_started y else sys_started y)"
    using checked(1,5) by (auto simp: z running_keys_def runs_def split: dispatch_next.splits)
  have amo: "amo_inv z"
    using inv checked(1) eff zs rk st unfolding srv_inv_def
    by (intro amo_inv_checked [of y ?n stat ?x z "rq_xid_rep h"]) auto
  have mem: "mem_inv z"
    using inv eff zs unfolding srv_inv_def
    by (intro mem_inv_checked [of y z ?n "\<lambda>e. rt_xid e \<le> rq_xid_rep h" stat ?x]) auto
  have "bufs s' a = bufs (sys_srv y) a" if "a \<in> dom (bufs s')" for a
    using that unfolding eff(5) by (auto simp: restrict_map_def split: if_splits)
  moreover have "set (win s' ?n) \<subseteq> set (noted stat ?x (win (sys_srv y) ?n))" unfolding eff(2) by auto
  moreover have "?x \<notin> rt_xid ` set (win (sys_srv y) ?n)" if "stat = NEW"
    using that eff(1) by (auto simp: verdict_def split: if_splits)
  ultimately have "reply_inv z"
    using inv mem eff(4) zs rk unfolding srv_inv_def
    by (intro reply_inv_checked [of y z ?n stat ?x]) auto
  with amo mem show ?thesis by (simp add: srv_inv_def)
qed

subsection \<open>A finished handler\<close>

lemma set_reply_xids [simp]: "map rt_xid (set_reply x b sz w) = map rt_xid w"
  by (induction w) auto

lemma set_reply_live: "set (live_bufs (set_reply x b sz w)) \<subseteq> insert b (set (live_bufs w))"
  by (induction w) (auto split: option.splits)

lemma set_reply_distinct:
  "distinct (live_bufs w) \<Longrightarrow> b \<notin> set (live_bufs w) \<Longrightarrow> distinct (live_bufs (set_reply x b sz w))"
proof (induction w)
  case (Cons e w)
  then show ?case using set_reply_live [of x b sz w] by (auto split: option.splits)
qed simp

lemma set_reply_in:
  "distinct (map rt_xid w) \<Longrightarrow> e \<in> set (set_reply x b sz w) \<Longrightarrow>
     e \<in> set w \<and> rt_xid e \<noteq> x \<or> rt_xid e = x \<and> rt_buf e = Some b"
  by (induction w) (auto simp: image_iff split: if_splits)

lemma remove_running:
  assumes "distinct (filter P (map k xs))" and "t \<in> set xs" and "P (k t)"
  shows "set (filter P (map k (remove1 t xs))) = set (filter P (map k xs)) - {k t}"
  using assms
proof (induction xs)
  case (Cons a xs)
  then show ?case by (cases "t = a") (auto simp: image_iff split: if_splits)
qed simp

lemma filter_map_remove1: "\<not> P (k t) \<Longrightarrow> filter P (map k (remove1 t xs)) = filter P (map k xs)"
  by (induction xs) auto

lemma remove_running_subset: "set (filter P (map k (remove1 t xs))) \<subseteq> set (filter P (map k xs))"
  using set_remove1_subset [of t xs] by auto

lemma distinct_remove_running:
  "distinct (filter P (map k xs)) \<Longrightarrow> distinct (filter P (map k (remove1 t xs)))"
proof (induction xs)
  case (Cons a xs)
  with remove_running_subset [of P k t xs] show ?case by auto
qed simp

lemma dispatch_reply_effect:
  assumes "dispatch_reply h req f s st = Inr (b1, sz1, s', st')"
  shows "b1 = brk s" and "brk s' = brk s + 1" and "\<exists>cs. bufs s' = (bufs s)(b1 \<mapsto> cs)" and "forg s' = forg s"
    and "rq_clt_nonce h = 0 \<Longrightarrow> win s' = win s"
    and "rq_clt_nonce h \<noteq> 0 \<Longrightarrow> win s' = (win s)(rq_clt_nonce h := set_reply (rq_xid h) b1 sz1 (win s (rq_clt_nonce h)))"
proof -
  define s0 where "s0 = (if counting s \<noteq> 0 then updatestat (rq_proc h) s else s)"
  have s0: "same_replies s s0"
    by (auto simp: s0_def updatestat_def same_replies_def win_def forg_def Let_def fun_eq_iff)
  from assms have "b1 = brk s0 \<and> (\<exists>cs. s' = (let s1 = s0\<lparr>bufs := (bufs s0)(b1 \<mapsto> cs), brk := b1 + 1\<rparr>
      in if rq_clt_nonce h > 0 then add_reply (rq_clt_nonce h) (rq_xid h) b1 sz1 s1 else s1))"
    unfolding dispatch_reply_def s0_def [symmetric] by (auto simp: bind_f_eq_Inr Let_def intro!: exI)
  then obtain cs where b1: "b1 = brk s0"
    and s': "s' = (let s1 = s0\<lparr>bufs := (bufs s0)(b1 \<mapsto> cs), brk := b1 + 1\<rparr>
                  in if rq_clt_nonce h > 0 then add_reply (rq_clt_nonce h) (rq_xid h) b1 sz1 s1 else s1)"
    by blast
  have gt: "rq_clt_nonce h > 0 \<longleftrightarrow> rq_clt_nonce h \<noteq> 0" by (simp add: word_gt_0)
  show "b1 = brk s" "brk s' = brk s + 1" "\<exists>cs. bufs s' = (bufs s)(b1 \<mapsto> cs)" "forg s' = forg s"
    "rq_clt_nonce h = 0 \<Longrightarrow> win s' = win s"
    "rq_clt_nonce h \<noteq> 0 \<Longrightarrow> win s' = (win s)(rq_clt_nonce h := set_reply (rq_xid h) b1 sz1 (win s (rq_clt_nonce h)))"
    using s0 b1 s' gt
    by (auto simp: same_replies_def Let_def add_reply_def win_def forg_def fun_eq_iff split: if_splits)
qed

lemma mem_inv_reply:
  fixes y z :: "'a srv_sys"
  assumes mem: "mem_inv y" and b1: "b1 = brk (sys_srv y)" and brk: "brk (sys_srv z) = brk (sys_srv y) + 1"
    and bufs: "bufs (sys_srv z) = (bufs (sys_srv y))(b1 \<mapsto> cs)"
    and win: "\<And>m. win (sys_srv z) m = (if n \<noteq> 0 \<and> m = n then set_reply x b1 sz1 (win (sys_srv y) m) else win (sys_srv y) m)"
    and loose: "sys_loose z = (if n = 0 then insert b1 (sys_loose y) else sys_loose y)"
  shows "mem_inv z"
proof -
  from mem have A: "\<And>m. distinct (live_bufs (win (sys_srv y) m)) \<and>
      set (live_bufs (win (sys_srv y) m)) \<subseteq> dom (bufs (sys_srv y)) \<and> set (live_bufs (win (sys_srv y) m)) \<inter> sys_loose y = {}"
    and B: "\<And>l m. l \<noteq> m \<Longrightarrow> set (live_bufs (win (sys_srv y) l)) \<inter> set (live_bufs (win (sys_srv y) m)) = {}"
    and C: "sys_loose y \<subseteq> dom (bufs (sys_srv y))" "dom (bufs (sys_srv y)) \<subseteq> {..<brk (sys_srv y)}"
    unfolding mem_inv_def by blast+
  have fresh: "b1 \<notin> dom (bufs (sys_srv y))" using C b1 by auto
  have sub: "set (live_bufs (win (sys_srv z) m)) \<subseteq>
      (if n \<noteq> 0 \<and> m = n then insert b1 (set (live_bufs (win (sys_srv y) m))) else set (live_bufs (win (sys_srv y) m)))" for m
    using set_reply_live [of x b1 sz1 "win (sys_srv y) m"] by (auto simp: win)
  have dom: "dom (bufs (sys_srv z)) = insert b1 (dom (bufs (sys_srv y)))" unfolding bufs by auto
  show ?thesis unfolding mem_inv_def
  proof (intro conjI allI impI)
    fix m
    show "distinct (live_bufs (win (sys_srv z) m))"
      using set_reply_distinct [of "win (sys_srv y) m" b1 x sz1] A [of m] fresh by (auto simp: win)
    show "set (live_bufs (win (sys_srv z) m)) \<subseteq> dom (bufs (sys_srv z))"
      unfolding dom using sub [of m] A [of m] by (auto split: if_splits)
    show "set (live_bufs (win (sys_srv z) m)) \<inter> sys_loose z = {}"
      unfolding loose using sub [of m] A [of m] C(1) fresh by (auto split: if_splits)
  next
    fix l m :: u32 assume lm: "l \<noteq> m"
    have sub': "set (live_bufs (win (sys_srv z) k)) \<subseteq> insert b1 (set (live_bufs (win (sys_srv y) k)))"
      "k \<noteq> n \<Longrightarrow> set (live_bufs (win (sys_srv z) k)) \<subseteq> set (live_bufs (win (sys_srv y) k))"
      "b1 \<notin> set (live_bufs (win (sys_srv y) k))" for k
      using sub [of k] A [of k] fresh by (auto split: if_splits)
    from lm consider "l \<noteq> n" | "m \<noteq> n" by blast
    then show "set (live_bufs (win (sys_srv z) l)) \<inter> set (live_bufs (win (sys_srv z) m)) = {}"
      using B [OF lm] sub'(1) [of l] sub'(1) [of m] sub'(2) [of l] sub'(2) [of m] sub'(3) [of l] sub'(3) [of m]
      by cases blast+
  next
    show "sys_loose z \<subseteq> dom (bufs (sys_srv z))" unfolding dom loose using C by auto
    show "dom (bufs (sys_srv z)) \<subseteq> {..<brk (sys_srv z)}" unfolding dom brk using C b1 by auto
  qed
qed

lemma reply_inv_reply:
  fixes y z :: "'a srv_sys"
  assumes rep: "reply_inv y" and mem: "mem_inv y" and dist: "\<And>m. distinct (map rt_xid (win (sys_srv y) m))"
    and fresh: "b1 \<notin> dom (bufs (sys_srv y))" and bufs: "bufs (sys_srv z) = (bufs (sys_srv y))(b1 \<mapsto> cs)"
    and win: "\<And>m. win (sys_srv z) m = (if n \<noteq> 0 \<and> m = n then set_reply x b1 sz1 (win (sys_srv y) m) else win (sys_srv y) m)"
    and rs: "sys_replies z = (if n = 0 then sys_replies y else (sys_replies y)((n, x) := bufs (sys_srv z) b1))"
    and rk: "set (running_keys z) \<subseteq> set (running_keys y)" "(n, x) \<notin> set (running_keys z)"
  shows "reply_inv z"
  unfolding reply_inv_def
proof (intro allI ballI impI)
  fix m e a assume e: "e \<in> set (win (sys_srv z) m)" and a: "rt_buf e = Some a"
  from e set_reply_in [OF dist [of m], of e x b1 sz1]
  consider (old) "e \<in> set (win (sys_srv y) m)" "n = 0 \<or> (m, rt_xid e) \<noteq> (n, x)"
    | (new) "n \<noteq> 0" "m = n" "rt_xid e = x" "rt_buf e = Some b1"
    by (auto simp: win split: if_splits)
  then show "sys_replies z (m, rt_xid e) = bufs (sys_srv z) a \<and> (m, rt_xid e) \<notin> set (running_keys z)"
  proof cases
    case old
    have "a \<in> dom (bufs (sys_srv y))"
      using mem old a in_live_bufs [of a "win (sys_srv y) m"] unfolding mem_inv_def by blast
    then have "bufs (sys_srv z) a = bufs (sys_srv y) a" using fresh unfolding bufs by auto
    with rep old a rs rk show ?thesis unfolding reply_inv_def by auto
  next
    case new
    with a rs rk show ?thesis by simp
  qed
qed

lemma srv_inv_reply:
  assumes inv: "srv_inv y" and t: "(h, req, f) \<in> set (sys_running y)"
    and d: "dispatch_reply h req f (sys_srv y) (sys_app y) = Inr (b1, sz1, s', st')"
    and z: "z = y\<lparr>sys_srv := s', sys_app := st', sys_running := remove1 (h, req, f) (sys_running y),
      sys_loose := (if rq_clt_nonce h = 0 then insert b1 (sys_loose y) else sys_loose y),
      sys_replies := (if rq_clt_nonce h = 0 then sys_replies y
                      else (sys_replies y)((rq_clt_nonce h, rq_xid h) := bufs s' b1))\<rparr>"
  shows "srv_inv z"
proof -
  let ?n = "rq_clt_nonce h" and ?x = "rq_xid h" and ?s = "sys_srv y"
  let ?P = "\<lambda>(n, x). n \<noteq> (0 :: u32)" and ?k = "\<lambda>(h, u, v). (rq_clt_nonce h, rq_xid h)"
  note eff = dispatch_reply_effect [OF d]
  from eff(3) obtain cs where bufs: "bufs s' = (bufs ?s)(b1 \<mapsto> cs)" by auto
  from inv have amo: "amo_inv y" and mem: "mem_inv y" and rep: "reply_inv y" by (simp_all add: srv_inv_def)
  have zs: "sys_srv z = s'" "sys_started z = sys_started y" by (simp_all add: z)
  have win: "win s' m = (if ?n \<noteq> 0 \<and> m = ?n then set_reply ?x b1 sz1 (win ?s m) else win ?s m)" for m
    using eff(5,6) by (cases "?n = 0") auto
  have xids: "map rt_xid (win s' m) = map rt_xid (win ?s m)" for m by (simp add: win)
  then have xset: "rt_xid ` set (win s' m) = rt_xid ` set (win ?s m)" for m
    by (metis list.set_map)
  have rk: "distinct (running_keys y)" using amo by (simp add: amo_inv_def)
  have rkz: "running_keys z = filter ?P (map ?k (remove1 (h, req, f) (sys_running y)))"
    by (simp add: running_keys_def z)
  have sub: "set (running_keys z) \<subseteq> set (running_keys y)"
    unfolding rkz unfolding running_keys_def by (rule remove_running_subset)
  have gone: "(?n, ?x) \<notin> set (running_keys z)"
  proof (cases "?n = 0")
    case True
    then show ?thesis by (auto simp: rkz)
  next
    case False
    then show ?thesis
      using remove_running [of ?P ?k "sys_running y" "(h, req, f)"] rk t unfolding rkz unfolding running_keys_def by auto
  qed
  have "distinct (running_keys z)"
    using rk unfolding rkz unfolding running_keys_def by (rule distinct_remove_running)
  with amo sub have amo': "amo_inv z" unfolding amo_inv_def zs eff(4) xids xset by blast
  have fresh: "b1 \<notin> dom (bufs ?s)" using mem eff(1) by (auto simp: mem_inv_def)
  have mem': "mem_inv z"
    by (rule mem_inv_reply [OF mem eff(1), of z cs ?n ?x sz1]) (simp_all add: z eff(2) bufs win)
  have "reply_inv z"
    by (rule reply_inv_reply [OF rep mem _ fresh, of z cs ?n ?x sz1])
      (use amo sub gone in \<open>simp_all add: z bufs win amo_inv_def\<close>)
  with amo' mem' show ?thesis by (simp add: srv_inv_def)
qed

lemma srv_inv_end:
  assumes inv: "srv_inv y" and b1: "b1 \<in> sys_loose y"
    and d: "dispatch_end 0 b1 c (sys_srv y) (sys_heap y) = Inr (s', hp')"
    and z: "z = y\<lparr>sys_srv := s', sys_heap := hp', sys_loose := sys_loose y - {b1}\<rparr>"
  shows "srv_inv z"
proof -
  from d have s': "s' = (sys_srv y)\<lparr>bufs := (bufs (sys_srv y))(b1 := None)\<rparr>"
    by (auto simp: dispatch_end_def free_buf_def bind_f_eq_Inr split: if_splits)
  have same: "win s' = win (sys_srv y)" "forg s' = forg (sys_srv y)" "brk s' = brk (sys_srv y)"
    "bufs s' = (bufs (sys_srv y))(b1 := None)"
    by (auto simp: s' win_def forg_def fun_eq_iff)
  have rk: "running_keys z = running_keys y" by (simp add: running_keys_def z)
  from inv have amo: "amo_inv z" by (simp add: srv_inv_def amo_inv_def z same rk [unfolded z])
  have nb: "b1 \<notin> set (live_bufs (win (sys_srv y) m))" for m
    using inv b1 by (auto simp: srv_inv_def mem_inv_def)
  have "mem_inv z"
    using inv nb unfolding srv_inv_def mem_inv_def z by (auto simp: same)
  moreover have "reply_inv z"
    using inv nb in_live_bufs unfolding srv_inv_def reply_inv_def rk by (auto simp: z same)
  ultimately show ?thesis using amo by (simp add: srv_inv_def)
qed

interpretation server: step_invariant srv_start srv_step srv_inv
proof
  fix y :: "'a srv_sys" assume "srv_start y"
  then show "srv_inv y" by (rule srv_inv_start)
next
  fix y z :: "'a srv_sys" assume y: "srv_inv y" and "srv_step y z"
  from this(2) show "srv_inv z"
  proof cases
    case sv_begin
    from srv_inv_begin [OF y sv_begin(2,1)] show ?thesis .
  next
    case sv_reply
    from srv_inv_reply [OF y sv_reply(2,3,1)] show ?thesis .
  next
    case sv_end
    from srv_inv_end [OF y sv_end(2,3,1)] show ?thesis .
  next
    case (sv_conn hp)
    then show ?thesis by (intro srv_inv_cong [OF y]) (simp_all add: running_keys_def)
  qed
qed

section \<open>Properties\<close>

definition empty_srv :: "unit rpcs" where
  "empty_srv = \<lparr>nonce = 9, reply_window = Map.empty, theForgottens = Map.empty, srv_conns = Map.empty,
     counting = 0, curr_counts = 0, counts = Map.empty, srv_reachable = True, procs = Map.empty,
     bufs = Map.empty, brk = 0\<rparr>"

definition empty_sys :: "unit srv_sys" where
  "empty_sys = \<lparr>sys_srv = empty_srv, sys_heap = Map.empty, sys_app = (), sys_running = [], sys_loose = {},
     sys_started = [], sys_replies = Map.empty\<rparr>"

lemma empty_sys_reach: "reach srv_start srv_step empty_sys"
  by (rule reach_init) (simp add: srv_start_def empty_sys_def empty_srv_def)



lemma check_total:
  assumes "mem_inv y"
  shows "\<exists>r. checkduplicate_and_update n x xr (sys_srv y) = Inr r"
proof -
  have live: "distinct (live_bufs (win (sys_srv y) n))" "set (live_bufs (win (sys_srv y) n)) \<subseteq> dom (bufs (sys_srv y))"
    using assms by (auto simp: mem_inv_def)
  define r where "r = (case reply_window (sys_srv y) n of
      Some w \<Rightarrow> (case find (\<lambda>e. rt_xid e = x) w of
          Some e \<Rightarrow> ((DONE, Some (rt_buf e, rt_sz e)), w)
        | None \<Rightarrow> if x \<in> set (map_at [] (theForgottens (sys_srv y)) n) then ((FORGOTTEN, None), w)
                  else ((NEW, None), w @ [reply_t_init x]))
    | None \<Rightarrow> ((NEW, None), [reply_t_init x]))"
  have "live_bufs (snd r) = live_bufs (win (sys_srv y) n)"
    by (auto simp: r_def win_def reply_t_init_def split: option.splits)
  with live obtain w' fg hp where
    "trim xr (snd r) (map_at [] (theForgottens (sys_srv y)) n) (bufs (sys_srv y)) = Inr (w', fg, hp)"
    using trim_total [of "snd r" "bufs (sys_srv y)" xr] by (metis prod.collapse)
  then show ?thesis
    unfolding checkduplicate_and_update_def Let_def r_def [symmetric] by (auto split: prod.splits)
qed

lemma done_replays:
  assumes inv: "srv_inv y" and w: "reply_window (sys_srv y) n \<noteq> None"
    and c: "checkduplicate_and_update n x xr (sys_srv y) = Inr ((DONE, Some (p, sz)), s')" and xr: "xr < x"
  shows "case p of None \<Rightarrow> True | Some a \<Rightarrow> bufs s' a = sys_replies y (n, x) \<and> bufs s' a \<noteq> None"
proof (cases p)
  case (Some a)
  note eff = check_effect [OF c w]
  from eff(7) Some obtain e where e: "e \<in> set (win (sys_srv y) n)" "rt_xid e = x" "rt_buf e = Some a" by auto
  from inv have mem: "mem_inv y" and rep: "reply_inv y" by (simp_all add: srv_inv_def)
  have "a \<notin> set (live_bufs (filter (\<lambda>e. rt_xid e \<le> xr) (win (sys_srv y) n)))"
  proof
    assume "a \<in> set (live_bufs (filter (\<lambda>e. rt_xid e \<le> xr) (win (sys_srv y) n)))"
    moreover have "a \<in> set (live_bufs (filter (\<lambda>e. \<not> rt_xid e \<le> xr) (win (sys_srv y) n)))"
      using e xr by (auto simp: in_live_bufs not_le)
    moreover have "distinct (live_bufs (win (sys_srv y) n))" using mem by (simp add: mem_inv_def)
    ultimately show False using live_bufs_partition [of "win (sys_srv y) n" "\<lambda>e. rt_xid e \<le> xr"] by blast
  qed
  then have "bufs s' a = bufs (sys_srv y) a" unfolding eff(5) by (simp add: noted_def)
  moreover have "a \<in> dom (bufs (sys_srv y))"
    using mem e in_live_bufs [of a "win (sys_srv y) n"] unfolding mem_inv_def by blast
  ultimately show ?thesis using rep e Some unfolding reply_inv_def by auto
qed simp



definition one_reply :: "unit rpcs" where
  "one_reply = empty_srv\<lparr>reply_window := [7 \<mapsto> [\<lparr>rt_xid = 1, cb_present = False, rt_buf = Some 0, rt_sz = 24\<rparr>]],
     bufs := [0 \<mapsto> []], brk := 1\<rparr>"


end
