(* ===== verification/Rpc_Call.thy ===== *)
theory Rpc_Call
  imports Rpc_Server
begin

text \<open>
  A whole remote call, over both ends of the RPC library: \<open>rpcc::call\<close> marshals the arguments, \<open>call1\<close> sends the request, the
  server dispatches it and sends the reply, \<open>got_pdu\<close> hands it to the waiting call, and \<open>call_m\<close> extracts the result. The
  definitions compose the operations of \<open>Rpc_Client\<close> and \<open>Rpc_Server\<close> in this order, for a call during which no PDU is lost and no
  other call runs. The lemmas show that such a call has the effect and the result of a local call of the registered method, and
  that both ends are ready for the next call afterwards.
\<close>

section \<open>The composition\<close>

text \<open>The bytes \<open>b\<close> can be what arrives of the PDU \<open>cs\<close>; cells that were never written may hold anything.\<close>

definition wired :: "cell list \<Rightarrow> u8 list \<Rightarrow> bool" where
  "wired cs b \<longleftrightarrow> list_all2 (\<lambda>c b. c = None \<or> c = Some b) cs b"

text \<open>The network: \<open>net cs\<close> are the bytes that arrive of the PDU \<open>cs\<close>, which is delivered when it is not longer than \<open>MAX_PDU\<close>.\<close>

definition faithful :: "(cell list \<Rightarrow> u8 list) \<Rightarrow> bool" where
  "faithful net \<longleftrightarrow> (\<forall>cs. int (length cs) \<le> MAX_PDU \<longrightarrow> wired cs (net cs))"

text \<open>\<open>rpcs::got_pdu\<close> with a pool that takes the job, and \<open>rpcs::dispatch\<close>; the result is what is sent back.\<close>

definition rpc_serve ::
  "(cell list \<Rightarrow> u8 list) \<Rightarrow> nat \<Rightarrow> cell list \<Rightarrow> 'a rpcs \<times> conns \<times> 'a \<Rightarrow>
   fault + (cell list option \<times> 'a rpcs \<times> conns \<times> 'a)" where
  "rpc_serve net c pdu = (\<lambda>(s, hp, st).
     bind_f (srv_got_pdu True c hp s) (\<lambda>(_, job, hp).
     if \<not> job then Inr (None, s, hp, st)
     else bind_f (dispatch_begin c (net pdu) (length (net pdu)) s hp) (\<lambda>(nx, h, req, s, hp).
     (case nx of
        DispDrop \<Rightarrow> Inr (None, s, hp, st)
      | DispHeader cs release \<Rightarrow>
          bind_f (if release then heap_decref c hp else Inr hp) (\<lambda>hp. Inr (Some cs, s, hp, st))
      | DispRun f \<Rightarrow>
          bind_f (dispatch_reply h req f s st) (\<lambda>(b1, sz1, s, st).
          bind_f (latest_conn (rq_clt_nonce h) c s hp) (\<lambda>(c, hp).
          bind_f (dispatch_end (rq_clt_nonce h) b1 c s hp) (\<lambda>(s', hp). Inr (bufs s b1, s', hp, st))))
      | DispSaved p sz \<Rightarrow>
          (case p of None \<Rightarrow> Inl OutOfBounds
           | Some a \<Rightarrow> bind_f (heap_decref c hp) (\<lambda>hp. Inr (bufs s a, s, hp, st)))
      | DispNothing \<Rightarrow> bind_f (heap_decref c hp) (\<lambda>hp. Inr (None, s, hp, st))))))"

fun rpc_deliver ::
  "(cell list \<Rightarrow> u8 list) \<Rightarrow> nat \<Rightarrow> cell list list \<Rightarrow> rpcc \<times> 'a rpcs \<times> conns \<times> 'a \<Rightarrow>
   fault + (rpcc \<times> 'a rpcs \<times> conns \<times> 'a)" where
  "rpc_deliver net c [] y = Inr y"
| "rpc_deliver net c (p # ps) (cl, y) =
     bind_f (rpc_serve net c p y) (\<lambda>(rep, y).
     bind_f (case rep of None \<Rightarrow> Inr cl | Some cs \<Rightarrow> got_pdu (net cs) (length (net cs)) cl) (\<lambda>cl.
     rpc_deliver net c ps (cl, y)))"

text \<open>\<open>rpcc::call\<close>; \<open>get\<close> is the \<open>>>\<close> of the result type, \<open>r\<close> the result variable before the call.\<close>

definition rpc_call ::
  "(cell list \<Rightarrow> u8 list) \<Rightarrow> nat \<Rightarrow> u32 \<Rightarrow> (marshall \<Rightarrow> fault + marshall) list \<Rightarrow>
   ('r \<Rightarrow> unmarshall \<Rightarrow> fault + ('r \<times> unmarshall)) \<Rightarrow> 'r \<Rightarrow> rpcc \<times> 'a rpcs \<times> conns \<times> 'a \<Rightarrow>
   fault + ((i32 \<times> 'r) \<times> rpcc \<times> 'a rpcs \<times> conns \<times> 'a)" where
  "rpc_call net c proc args get r = (\<lambda>(cl, y).
     bind_f (call_marshal args) (\<lambda>m.
     bind_f (call1_begin proc m unmarshall_empty cl) (\<lambda>(x, cl).
     (case x of
        Inl e \<Rightarrow> bind_f (call_m_reply get r e unmarshall_empty) (\<lambda>res. Inr (res, cl, y))
      | Inr (xid, xid_rep, req) \<Rightarrow>
          let (pdus, cl) = (if reachable cl then call1_requests req cl else ([], cl)) in
          bind_f (rpc_deliver net c pdus (cl, y)) (\<lambda>(cl, y).
          let un = ca_un (map_at (caller_init xid unmarshall_empty) (calls cl) xid);
              ((ret, _), cl) = call1_end xid xid_rep req cl
          in (case ret of None \<Rightarrow> Inl OutOfBounds
              | Some v \<Rightarrow> bind_f (call_m_reply get r v un) (\<lambda>res. Inr (res, cl, y))))))))"

text \<open>\<open>rpcc::bind\<close>; \<open>r\<close> is the uninitialised result variable.\<close>

definition rpc_bind_call ::
  "(cell list \<Rightarrow> u8 list) \<Rightarrow> nat \<Rightarrow> i32 \<Rightarrow> rpcc \<times> 'a rpcs \<times> conns \<times> 'a \<Rightarrow> fault + (i32 \<times> rpcc \<times> 'a rpcs \<times> conns \<times> 'a)" where
  "rpc_bind_call net c r y =
     bind_f (rpc_call net c rpc_bind [put_i32 0] (\<lambda>_. get_i32) r y) (\<lambda>((ret, r), cl, y).
     let (ret, cl) = rpcc_bind_finish ret r cl in Inr (ret, cl, y))"

section \<open>States between calls\<close>

text \<open>
  The server remembers only requests of client \<open>n\<close> that come before \<open>x\<close>, its saved replies are allocated, and connection \<open>c\<close> is
  open, has at least \<open>k\<close> references and is the one that the server knows for the client.
\<close>

definition replies_ok :: "u32 \<Rightarrow> u32 \<Rightarrow> 'a rpcs \<Rightarrow> bool" where
  "replies_ok n x s \<longleftrightarrow> (\<forall>y \<in> rt_xid ` set (win s n) \<union> set (forg s n). y < x) \<and>
     distinct (live_bufs (win s n)) \<and> set (live_bufs (win s n)) \<subseteq> dom (bufs s) \<and> dom (bufs s) \<subseteq> {..<brk s}"

definition conn_ok :: "int \<Rightarrow> nat \<Rightarrow> conns \<Rightarrow> bool" where
  "conn_ok k c hp \<longleftrightarrow> (\<exists>cc. hp c = Some cc \<and> \<not> c_dead cc \<and> k \<le> c_refno cc)"

definition srv_ready :: "int \<Rightarrow> u32 \<Rightarrow> u32 \<Rightarrow> nat \<Rightarrow> 'a rpcs \<Rightarrow> conns \<Rightarrow> bool" where
  "srv_ready k n x c s hp \<longleftrightarrow> srv_reachable s \<and> replies_ok n x s \<and> conn_ok k c hp \<and>
     (srv_conns s n = None \<or> srv_conns s n = Some c)"

text \<open>The client has all replies.\<close>

definition clt_ready :: "rpcc \<Rightarrow> bool" where
  "clt_ready cl \<longleftrightarrow> \<not> destroy_wait cl \<and> reachable cl \<and> next_xid cl \<noteq> 0 \<and> xid_rep_window cl = [next_xid cl - 1] \<and> lossytest cl = 0 \<and>
     \<not> isvalid (dup_req cl)"

definition linked :: "nat \<Rightarrow> rpcc \<Rightarrow> 'a rpcs \<Rightarrow> conns \<Rightarrow> bool" where
  "linked c cl s hp \<longleftrightarrow> clt_ready cl \<and> srv_ready 1 (clt_nonce cl) (next_xid cl) c s hp \<and>
     (srv_nonce cl = 0 \<or> srv_nonce cl = nonce s)"

definition can_call :: "u32 \<Rightarrow> rpcc \<Rightarrow> bool" where
  "can_call proc cl \<longleftrightarrow> (proc = rpc_bind \<longleftrightarrow> \<not> bind_done cl)"

section \<open>The way of the request\<close>

lemma wire_split:
  assumes "list_all2 (\<lambda>c b. c = None \<or> c = Some b) (cs @ map Some xs @ ds) bs"
  shows "\<exists>us vs. bs = us @ xs @ vs \<and> length us = length cs \<and> list_all2 (\<lambda>c b. c = None \<or> c = Some b) ds vs"
proof -
  from assms obtain us ws where a: "bs = us @ ws" "length us = length cs"
      "list_all2 (\<lambda>c b. c = None \<or> c = Some b) (map Some xs @ ds) ws"
    by (auto simp: list_all2_append1)
  then obtain ys vs where b: "ws = ys @ vs" "length ys = length xs" "list_all2 (\<lambda>c b. c = None \<or> c = Some b) (map Some xs) ys"
      "list_all2 (\<lambda>c b. c = None \<or> c = Some b) ds vs"
    by (auto simp: list_all2_append1)
  have "ys = xs" using b(2,3) by (auto simp: list_all2_conv_all_nth intro: nth_equalityI)
  then show ?thesis using a b by auto
qed

lemma enc_header_length [simp]: "length (enc_req_header h) = 20" "length (enc_reply_header r) = 8"
  by (simp_all add: enc_req_header_def enc_reply_header_def enc_u32_def)

lemma request_arrives:
  assumes w: "wired cs b" and cs: "cs = replicate 4 None @ map Some (enc_req_header h) @ map Some xs"
    and l: "int (24 + length xs) \<le> MAX_PDU"
  shows "unpack_req_header (unmarshall_init b (length b)) = Inr (h, received b)"
    and "drop RPC_HEADER_SZ b = xs" and "length b = RPC_HEADER_SZ + length xs"
proof -
  obtain us vs where bs: "b = us @ enc_req_header h @ vs" "length us = 4"
      "list_all2 (\<lambda>c b. c = None \<or> c = Some b) (map Some xs) vs"
    using wire_split [OF w [unfolded cs wired_def]] by auto
  have vs: "vs = xs" using bs(3) by (auto simp: list_all2_conv_all_nth intro: nth_equalityI)
  show d: "drop RPC_HEADER_SZ b = xs" "length b = RPC_HEADER_SZ + length xs"
    using bs(2) by (simp_all add: bs(1) vs RPC_HEADER_SZ_eq)
  have "length b < 2 ^ 31" using l d(2) by (simp add: RPC_HEADER_SZ_eq MAX_PDU_def)
  then have "uwf (unmarshall_init b (length b))" by (simp add: uwf_def unmarshall_init_def)
  then have "unpack_req_header (unmarshall_init b (length b))
      = Inr (h, (unmarshall_init b (length b))\<lparr>u_ind := RPC_HEADER_SZ\<rparr>)"
    by (rule unpack_req_header_ok [where rest = xs])
      (use bs(2) in \<open>simp_all add: unmarshall_init_def sizeof_rpc_sz_t_def bs(1) vs\<close>)
  then show "unpack_req_header (unmarshall_init b (length b)) = Inr (h, received b)"
    using d(2) by (simp add: unmarshall_init_def received_def)
qed

lemma reply_arrives:
  assumes w: "wired cs b" and cs: "cs = replicate 4 None @ map Some (enc_reply_header h) @ replicate 12 None @ map Some xs"
    and l: "int (24 + length xs) \<le> MAX_PDU"
  shows "unpack_reply_header (unmarshall_init b (length b)) = Inr (h, received b)"
    and "drop RPC_HEADER_SZ b = xs" and "length b = RPC_HEADER_SZ + length xs"
proof -
  obtain us vs where bs: "b = us @ enc_reply_header h @ vs" "length us = 4"
      "list_all2 (\<lambda>c b. c = None \<or> c = Some b) (replicate 12 None @ map Some xs @ []) vs"
    using wire_split [OF w [unfolded cs wired_def]] by auto
  obtain ws where v: "vs = ws @ xs" "length ws = 12" using wire_split [OF bs(3)] by auto
  show d: "drop RPC_HEADER_SZ b = xs" "length b = RPC_HEADER_SZ + length xs"
    using bs(2) v(2) by (simp_all add: bs(1) v(1) RPC_HEADER_SZ_eq)
  have "length b < 2 ^ 31" using l d(2) by (simp add: RPC_HEADER_SZ_eq MAX_PDU_def)
  then have "uwf (unmarshall_init b (length b))" by (simp add: uwf_def unmarshall_init_def)
  then have "unpack_reply_header (unmarshall_init b (length b))
      = Inr (h, (unmarshall_init b (length b))\<lparr>u_ind := RPC_HEADER_SZ\<rparr>)"
    by (rule unpack_reply_header_ok [where rest = vs])
      (use bs(2) in \<open>simp_all add: unmarshall_init_def sizeof_rpc_sz_t_def bs(1)\<close>)
  then show "unpack_reply_header (unmarshall_init b (length b)) = Inr (h, received b)"
    using d(2) by (simp add: unmarshall_init_def received_def)
qed

section \<open>The server\<close>

lemma conn_incref:
  assumes "conn_ok k c hp"
  shows "\<exists>hp'. heap_incref c hp = Inr hp' \<and> conn_ok (k + 1) c hp'"
  using assms by (auto simp: conn_ok_def heap_incref_def deref_def incref_def)

lemma conn_decref:
  assumes "conn_ok k c hp" and "1 \<le> k"
  shows "\<exists>hp'. heap_decref c hp = Inr hp' \<and> conn_ok (k - 1) c hp'"
  using assms by (auto simp: conn_ok_def heap_decref_def deref_def decref_def Let_def)

lemma conn_mono: "conn_ok k c hp \<Longrightarrow> k' \<le> k \<Longrightarrow> conn_ok k' c hp"
  by (auto simp: conn_ok_def)

lemma replies_ok_same: "same_replies s s' \<Longrightarrow> replies_ok n x s' = replies_ok n x s"
  by (simp add: same_replies_def replies_ok_def)

lemma check_fields:
  assumes "checkduplicate_and_update n x xr s = Inr (r, s')"
  shows "procs s' = procs s \<and> nonce s' = nonce s \<and> srv_conns s' = srv_conns s \<and> srv_reachable s' = srv_reachable s"
  using assms unfolding checkduplicate_and_update_def Let_def by (auto simp: bind_f_eq_Inr split: prod.splits)

lemma le_less_inc:
  fixes x y :: u32
  assumes "x + 1 \<noteq> 0" and "y \<le> x"
  shows "y < x + 1"
proof -
  have "unat (x + 1) = Suc (unat x)" using assms(1) unatSuc [of x] by (simp add: add.commute)
  then show ?thesis using assms(2) by (simp add: word_less_nat_alt word_le_nat_alt)
qed

lemma check_new:
  assumes ok: "replies_ok n x s" and w: "reply_window s n \<noteq> None" and x: "x + 1 \<noteq> 0"
  shows "\<exists>bz s'. checkduplicate_and_update n x xr s = Inr ((NEW, bz), s') \<and> replies_ok n (x + 1) s'"
proof -
  have r: "\<forall>y \<in> rt_xid ` set (win s n) \<union> set (forg s n). y < x" "distinct (live_bufs (win s n))"
    "set (live_bufs (win s n)) \<subseteq> dom (bufs s)" "dom (bufs s) \<subseteq> {..<brk s}" using ok by (auto simp: replies_ok_def)
  obtain v where v: "reply_window s n = Some v" "win s n = v" using w by (auto simp: win_def)
  have new: "x \<notin> rt_xid ` set (win s n)" "x \<notin> set (forg s n)" using r(1) by auto
  let ?w = "win s n @ [reply_t_init x]"
  have lw: "live_bufs ?w = live_bufs (win s n)" by (simp add: reply_t_init_def)
  have dw: "distinct (live_bufs ?w)" "set (live_bufs ?w) \<subseteq> dom (bufs s)" unfolding lw by (fact r(2), fact r(3))
  have "find (\<lambda>e. rt_xid e = x) v = None" using new(1) v(2) by (simp add: find_xid_None)
  moreover obtain q where "trim xr ?w (forg s n) (bufs s) = Inr q" using trim_total [OF dw] by blast
  ultimately obtain bz s' where c: "checkduplicate_and_update n x xr s = Inr ((NEW, bz), s')"
    using v new(2) by (cases q) (simp add: checkduplicate_and_update_def forg_def)
  note E = check_effect [OF c w]
  let ?P = "\<lambda>e. rt_xid e \<le> xr"
  have lt: "y < x + 1" if "y \<le> x" for y using le_less_inc [OF x that] .
  have all: "y \<le> x" if "y \<in> rt_xid ` set ?w \<union> set (forg s n)" for y using that r(1) by (auto simp: reply_t_init_def less_imp_le)
  have 1: "\<forall>y \<in> rt_xid ` set (win s' n) \<union> set (forg s' n). y < x + 1"
    using E(2,3) all lt by (auto simp: noted_def)
  have 2: "distinct (live_bufs (win s' n))" unfolding E(2) noted_def by (simp only: if_True distinct_live_bufs_filter dw(1) simp_thms)
  have "set (live_bufs (filter (\<lambda>e. \<not> ?P e) ?w)) \<inter> set (live_bufs (filter ?P ?w)) = {}"
    by (rule live_bufs_partition [OF dw(1)])
  moreover have "set (live_bufs (filter (\<lambda>e. \<not> ?P e) ?w)) \<subseteq> dom (bufs s)"
    by (rule subset_trans [OF live_bufs_filter dw(2)])
  ultimately have 3: "set (live_bufs (win s' n)) \<subseteq> dom (bufs s')"
    unfolding E(2,5) noted_def dom_restrict by (simp only: if_True simp_thms) blast
  have "dom (bufs s') \<subseteq> {..<brk s'}" using E(5,6) r(4) by auto
  with 1 2 3 c show ?thesis by (auto simp: replies_ok_def)
qed

text \<open>What a call leaves alone.\<close>

definition same_server :: "'a rpcs \<Rightarrow> 'a rpcs \<Rightarrow> bool" where
  "same_server s s' \<longleftrightarrow> procs s' = procs s \<and> nonce s' = nonce s \<and> srv_reachable s' = srv_reachable s"

lemma save_conn_ok:
  assumes c: "conn_ok k c hp" and s: "srv_conns s n = None \<or> srv_conns s n = Some c"
  shows "\<exists>s' hp'. save_conn n c s hp = Inr (s', hp') \<and> conn_ok k c hp' \<and> same_server s s' \<and> srv_conns s' n = Some c"
proof (cases "srv_conns s n")
  case None
  obtain hp' where "heap_incref c hp = Inr hp'" "conn_ok (k + 1) c hp'" using conn_incref [OF c] by blast
  then show ?thesis using None conn_mono [of "k + 1" c hp' k] by (simp add: save_conn_def same_server_def)
next
  case (Some d)
  then have "srv_conns s n = Some c" using s by simp
  moreover obtain cc where "hp c = Some cc" using c by (auto simp: conn_ok_def)
  ultimately show ?thesis using c by (simp add: save_conn_def deref_def compare_def same_server_def)
qed

lemma note_client_fields:
  "srv_conns (note_client n s) = srv_conns s" "same_server s (note_client n s)"
  by (simp_all add: note_client_def same_server_def)

lemma begin_ready:
  assumes r: "srv_ready k (rq_clt_nonce h) (rq_xid h) c s hp" and x: "rq_xid h + 1 \<noteq> 0"
    and u: "unpack_req_header (unmarshall_init b (length b)) = Inr (h, received b)" "RPC_HEADER_SZ \<le> length b"
    and n: "rq_srv_nonce h = 0 \<or> rq_srv_nonce h = nonce s" and p: "procs s (rq_proc h) = Some f"
  shows "\<exists>s' hp'. dispatch_begin c b (length b) s hp = Inr (DispRun f, h, received b, s', hp') \<and>
    srv_ready k (rq_clt_nonce h) (rq_xid h + 1) c s' hp' \<and> same_server s s'"
proof -
  let ?n = "rq_clt_nonce h" and ?x = "rq_xid h"
  have R: "srv_reachable s" "replies_ok ?n ?x s" "conn_ok k c hp" "srv_conns s ?n = None \<or> srv_conns s ?n = Some c"
    using r by (simp_all add: srv_ready_def)
  have ok: "u_ok (received b)" using u(2) by (simp add: received_def)
  show ?thesis
  proof (cases "?n = 0")
    case True
    have "replies_ok ?n (?x + 1) s" using R(2) le_less_inc [OF x] by (auto simp: replies_ok_def less_imp_le)
    then show ?thesis using True R ok n u p by (auto simp: dispatch_begin_def srv_ready_def same_server_def)
  next
    case False
    let ?s = "note_client ?n s"
    obtain s1 hp1 where sc: "save_conn ?n c ?s hp = Inr (s1, hp1)" and s1: "conn_ok k c hp1" "same_server ?s s1" "srv_conns s1 ?n = Some c"
      using save_conn_ok [OF R(3), of ?s ?n] R(4) by (auto simp: note_client_fields)
    note S = save_conn_same [OF sc] note_client_same [where n = ?n and s = s]
    have "replies_ok ?n ?x s1" using R(2) S replies_ok_same [of s ?s] replies_ok_same [of ?s s1] by simp
    moreover have "reply_window s1 ?n \<noteq> None" using S by simp
    ultimately obtain bz s2 where d: "checkduplicate_and_update ?n ?x (rq_xid_rep h) s1 = Inr ((NEW, bz), s2)"
      and s2: "replies_ok ?n (?x + 1) s2" using check_new x by blast
    have "dispatch_begin c b (length b) s hp = Inr (DispRun f, h, received b, s2, hp1)"
      using u(1) ok n p False sc d unfolding dispatch_begin_def by auto
    moreover have "same_server s s2" "srv_conns s2 = srv_conns s1"
      using check_fields [OF d] s1(2) note_client_fields [where n = ?n and s = s] by (simp_all add: same_server_def)
    ultimately show ?thesis using s2 s1 R(1) by (auto simp: srv_ready_def same_server_def)
  qed
qed

lemma reply_ready:
  assumes r: "srv_ready k (rq_clt_nonce h) x c s hp" and f: "f req marshall_init st = Inr (ret, m, st')" and ret: "0 \<le>s ret"
    and m: "mwf m" "contents m = replicate 24 None @ map Some ys"
  shows "\<exists>b1 sz1 s'. dispatch_reply h req f s st = Inr (b1, sz1, s', st') \<and> srv_ready k (rq_clt_nonce h) x c s' hp \<and> same_server s s' \<and>
    bufs s' b1 = Some (replicate 4 None @ map Some (enc_reply_header \<lparr>rp_xid = rq_xid h, rp_ret = ret\<rparr>) @ replicate 12 None @ map Some ys) \<and>
    (rq_clt_nonce h = 0 \<longrightarrow> b1 \<notin> set (live_bufs (win s' 0)))"
proof -
  let ?h = "\<lparr>rp_xid = rq_xid h, rp_ret = ret\<rparr>" and ?n = "rq_clt_nonce h"
  have "m_ind m = length (contents m)" using m(1) by (auto simp: mwf_def contents_def split: option.splits)
  then have ind: "RPC_HEADER_SZ \<le> m_ind m" by (simp add: m(2) RPC_HEADER_SZ_eq)
  obtain m' where m': "pack_reply_header ?h m = Inr m'"
      "contents m' = replicate 4 None @ map Some (enc_reply_header ?h) @ replicate 12 None @ map Some ys"
    using pack_reply_header_ok [OF m(1) ind, of ?h] by (auto simp: m(2))
  have v: "ret \<noteq> unmarshal_args_failure" using ret by (auto simp: unmarshal_args_failure_def word_sle_eq)
  obtain s' b1 sz1 where d: "dispatch_reply h req f s st = Inr (b1, sz1, s', st')" and b1: "bufs s' b1 = Some (contents m')"
    and same: "same_server s s'" "srv_conns s' = srv_conns s"
    using f v ret m'(1) by (simp add: dispatch_reply_def Let_def add_reply_def updatestat_def same_server_def)
  note E = dispatch_reply_effect [OF d]
  have R: "replies_ok ?n x s" using r by (simp add: srv_ready_def)
  then have "b1 \<notin> dom (bufs s)" using E(1) unfolding replies_ok_def by auto
  then have fresh: "b1 \<notin> set (live_bufs (win s ?n))" using R unfolding replies_ok_def by blast
  have dom: "dom (bufs s') = insert b1 (dom (bufs s))" using E(3) by auto
  have w: "win s' ?n = (if ?n = 0 then win s ?n else set_reply (rq_xid h) b1 sz1 (win s ?n))" using E(5,6) by simp
  have xs: "rt_xid ` set (win s' ?n) = rt_xid ` set (win s ?n)" using set_reply_xids w by (metis list.set_map)
  have "distinct (live_bufs (win s' ?n))" "set (live_bufs (win s' ?n)) \<subseteq> insert b1 (set (live_bufs (win s ?n)))"
    using w fresh R set_reply_distinct [of "win s ?n" b1] set_reply_live [of "rq_xid h" b1 sz1 "win s ?n"] by (auto simp: replies_ok_def)
  then have "replies_ok ?n x s'" using R xs E(1,2,4) by (auto simp: replies_ok_def dom)
  then have "srv_ready k ?n x c s' hp" using r same by (simp add: srv_ready_def same_server_def)
  then show ?thesis using d b1 same(1) m'(2) fresh w by auto
qed

lemma end_ready:
  assumes r: "srv_ready 2 n x c s hp" and b: "bufs s b1 \<noteq> None" "n = 0 \<longrightarrow> b1 \<notin> set (live_bufs (win s 0))"
  shows "\<exists>s' hp'. dispatch_end n b1 c s hp = Inr (s', hp') \<and> srv_ready 1 n x c s' hp' \<and> same_server s s'"
proof -
  let ?bs = "if n = 0 then (bufs s)(b1 := None) else bufs s"
  obtain hp' where hp': "heap_decref c hp = Inr hp'" "conn_ok 1 c hp'"
    using r conn_decref [of 2 c hp] by (auto simp: srv_ready_def)
  have "replies_ok n x (s\<lparr>bufs := ?bs\<rparr>)"
    using r b by (auto simp: srv_ready_def replies_ok_def win_def forg_def)
  then have "srv_ready 1 n x c (s\<lparr>bufs := ?bs\<rparr>) hp'" using r hp'(2) by (simp add: srv_ready_def)
  moreover have "dispatch_end n b1 c s hp = Inr (s\<lparr>bufs := ?bs\<rparr>, hp')" using b(1) hp'(1) by (auto simp: dispatch_end_def free_buf_def)
  ultimately show ?thesis by (simp add: same_server_def)
qed

lemma serve_ready:
  assumes r: "srv_ready 1 (rq_clt_nonce h) (rq_xid h) c s hp" and x: "rq_xid h + 1 \<noteq> 0"
    and u: "unpack_req_header (unmarshall_init (net pdu) (length (net pdu))) = Inr (h, received (net pdu))" "RPC_HEADER_SZ \<le> length (net pdu)"
    and n: "rq_srv_nonce h = 0 \<or> rq_srv_nonce h = nonce s" and p: "procs s (rq_proc h) = Some f"
    and f: "f (received (net pdu)) marshall_init st = Inr (ret, m, st')" "0 \<le>s ret"
    and m: "mwf m" "contents m = replicate 24 None @ map Some ys"
  shows "\<exists>s' hp'. rpc_serve net c pdu (s, hp, st) =
      Inr (Some (replicate 4 None @ map Some (enc_reply_header \<lparr>rp_xid = rq_xid h, rp_ret = ret\<rparr>) @ replicate 12 None @ map Some ys), s', hp', st') \<and>
    srv_ready 1 (rq_clt_nonce h) (rq_xid h + 1) c s' hp' \<and> same_server s s'"
proof -
  let ?n = "rq_clt_nonce h" and ?x = "rq_xid h"
  have R: "srv_reachable s" "conn_ok 1 c hp" using r by (simp_all add: srv_ready_def)
  obtain hp1 where hp1: "heap_incref c hp = Inr hp1" "conn_ok 2 c hp1" using conn_incref [OF R(2)] by auto
  have g: "srv_got_pdu True c hp s = Inr (True, True, hp1)" using R(1) hp1(1) by (simp add: srv_got_pdu_def)
  have r1: "srv_ready 2 ?n ?x c s hp1" using r hp1(2) by (simp add: srv_ready_def)
  obtain s2 hp2 where b: "dispatch_begin c (net pdu) (length (net pdu)) s hp1 = Inr (DispRun f, h, received (net pdu), s2, hp2)"
    and r2: "srv_ready 2 ?n (?x + 1) c s2 hp2" "same_server s s2" using begin_ready [OF r1 x u n p] by blast
  obtain b1 sz1 s3 where d: "dispatch_reply h (received (net pdu)) f s2 st = Inr (b1, sz1, s3, st')"
    and r3: "srv_ready 2 ?n (?x + 1) c s3 hp2" "same_server s2 s3"
    and b1: "bufs s3 b1 = Some (replicate 4 None @ map Some (enc_reply_header \<lparr>rp_xid = ?x, rp_ret = ret\<rparr>) @ replicate 12 None @ map Some ys)"
      "?n = 0 \<longrightarrow> b1 \<notin> set (live_bufs (win s3 0))"
    using reply_ready [where f = f, OF r2(1) f m] by blast
  obtain cc where "hp2 c = Some cc" "\<not> c_dead cc" using r3(1) by (auto simp: srv_ready_def conn_ok_def)
  then have l: "latest_conn ?n c s3 hp2 = Inr (c, hp2)" by (simp add: latest_conn_def deref_def isdead_def)
  obtain s4 hp4 where e: "dispatch_end ?n b1 c s3 hp2 = Inr (s4, hp4)" and r4: "srv_ready 1 ?n (?x + 1) c s4 hp4" "same_server s3 s4"
    using end_ready [OF r3(1) _ b1(2)] b1(1) by auto
  have "rpc_serve net c pdu (s, hp, st) = Inr (bufs s3 b1, s4, hp4, st')"
    unfolding rpc_serve_def by (simp add: g b d l e)
  then show ?thesis using b1(1) r4 r2(2) r3(2) by (simp add: same_server_def)
qed

section \<open>The client\<close>

lemma update_window_next:
  assumes "x \<noteq> 0"
  shows "update_window x [x - 1] = [x]" and "update_window x [x] = [x]"
proof -
  have "x - 1 < x" using assms by (simp add: word_less_nat_alt unat_minus_one word_neq_0_conv [symmetric] unat_gt_0 unat_eq_zero)
  then show "update_window x [x - 1] = [x]" by (simp add: update_window_def window_insert_def)
  show "update_window x [x] = [x]" by (simp add: update_window_def)
qed

lemma call1_ready:
  assumes r: "clt_ready cl" "can_call proc cl" and m: "mwf m" "contents m = replicate 24 None @ map Some xs"
    and h: "h = \<lparr>rq_xid = next_xid cl, rq_proc = proc, rq_clt_nonce = clt_nonce cl, rq_srv_nonce = srv_nonce cl, rq_xid_rep = next_xid cl - 1\<rparr>"
  shows "\<exists>req. call1_begin proc m unmarshall_empty cl = Inr (Inr (next_xid cl, next_xid cl - 1, req),
      cl\<lparr>next_xid := next_xid cl + 1, calls := (calls cl)(next_xid cl \<mapsto> caller_init (next_xid cl) unmarshall_empty)\<rparr>) \<and>
    contents req = replicate 4 None @ map Some (enc_req_header h) @ map Some xs"
proof -
  have "m_ind m = length (contents m)" using m(1) by (auto simp: mwf_def contents_def split: option.splits)
  then have "RPC_HEADER_SZ \<le> m_ind m" by (simp add: m(2) RPC_HEADER_SZ_eq)
  then obtain req where "pack_req_header h m = Inr req" "contents req = replicate 4 None @ map Some (enc_req_header h) @ map Some xs"
    using pack_req_header_ok [OF m(1), of h] by (auto simp: m(2))
  then show ?thesis using r by (simp add: call1_begin_def clt_ready_def can_call_def h Let_def)
qed

text \<open>What the client keeps of itself during a call, and the caller that waits for request \<open>x\<close>.\<close>

definition same_client :: "rpcc \<Rightarrow> rpcc \<Rightarrow> bool" where
  "same_client cl cl' \<longleftrightarrow> clt_nonce cl' = clt_nonce cl \<and> srv_nonce cl' = srv_nonce cl \<and> bind_done cl' = bind_done cl \<and>
     next_xid cl' = next_xid cl + 1"

lemma reply_taken:
  assumes r: "clt_ready cl" and x: "next_xid cl + 1 \<noteq> 0"
    and u: "unpack_reply_header (unmarshall_init b (length b)) = Inr (\<lparr>rp_xid = next_xid cl, rp_ret = ret\<rparr>, received b)"
      "RPC_HEADER_SZ \<le> length b"
  shows "\<exists>cl2 cl3. got_pdu b (length b)
      (cl\<lparr>next_xid := next_xid cl + 1, calls := (calls cl)(next_xid cl \<mapsto> caller_init (next_xid cl) unmarshall_empty)\<rparr>) = Inr cl2 \<and>
    ca_un (map_at (caller_init (next_xid cl) unmarshall_empty) (calls cl2) (next_xid cl)) = received b \<and>
    call1_end (next_xid cl) xr req cl2 = ((Some ret, False), cl3) \<and> clt_ready cl3 \<and> same_client cl cl3"
proof -
  let ?x = "next_xid cl"
  have "reachable cl" and R: "\<not> destroy_wait cl" "?x \<noteq> 0" "xid_rep_window cl = [?x - 1]" "lossytest cl = 0" "\<not> isvalid (dup_req cl)"
    using r by (simp_all add: clt_ready_def)
  have t: "fst (take_in unmarshall_empty (received b)) = received b"
    by (simp add: take_in_def take_buf_u_def received_def unmarshall_empty_def)
  let ?ca = "(caller_init ?x unmarshall_empty)\<lparr>ca_un := received b, ca_intret := Some ret, ca_done := True\<rparr>"
  let ?cl2 = "cl\<lparr>next_xid := ?x + 1, calls := (calls cl)(?x \<mapsto> ?ca), xid_rep_window := [?x]\<rparr>"
  have ok: "u_ok (received b)" using u(2) by (simp add: received_def)
  have "got_pdu b (length b) (cl\<lparr>next_xid := ?x + 1, calls := (calls cl)(?x \<mapsto> caller_init ?x unmarshall_empty)\<rparr>) = Inr ?cl2"
    using u(1) ok t by (simp add: got_pdu_def update_xid_rep_def R(3) update_window_next [OF R(2)] caller_init_def)
  moreover have "call1_end ?x xr req ?cl2 = ((Some ret, False), cl\<lparr>next_xid := ?x + 1, calls := (calls cl)(?x := None), xid_rep_window := [?x]\<rparr>)"
    by (simp add: call1_end_def update_xid_rep_def R update_window_next [OF R(2)])
  ultimately show ?thesis using R x \<open>reachable cl\<close> by (auto simp: clt_ready_def same_client_def)
qed

section \<open>Remote calls are local calls\<close>

text \<open>Sequences of calls of procedures with the same types, and the calls they stand for.\<close>

fun rpc_calls ::
  "(cell list \<Rightarrow> u8 list) \<Rightarrow> nat \<Rightarrow> ('b \<Rightarrow> marshall \<Rightarrow> fault + marshall) \<Rightarrow> ('r \<Rightarrow> unmarshall \<Rightarrow> fault + ('r \<times> unmarshall)) \<Rightarrow> 'r \<Rightarrow>
   (u32 \<times> 'b) list \<Rightarrow> rpcc \<times> 'a rpcs \<times> conns \<times> 'a \<Rightarrow> fault + ((i32 \<times> 'r) list \<times> rpcc \<times> 'a rpcs \<times> conns \<times> 'a)" where
  "rpc_calls net c put get r [] y = Inr ([], y)"
| "rpc_calls net c put get r ((p, a) # qs) y =
     bind_f (rpc_call net c p [put a] get r y) (\<lambda>(res, y).
     bind_f (rpc_calls net c put get r qs y) (\<lambda>(rs, y). Inr (res # rs, y)))"

fun local_calls :: "(u32 \<Rightarrow> 'b \<Rightarrow> 'a \<Rightarrow> fault + (i32 \<times> 'r \<times> 'a)) \<Rightarrow> (u32 \<times> 'b) list \<Rightarrow> 'a \<Rightarrow> fault + ((i32 \<times> 'r) list \<times> 'a)" where
  "local_calls M [] st = Inr ([], st)"
| "local_calls M ((p, a) # qs) st =
     bind_f (M p a st) (\<lambda>(v, r, st). bind_f (local_calls M qs st) (\<lambda>(rs, st). Inr ((v, r) # rs, st)))"

text \<open>A procedure whose arguments and result are written and read by the marshalling operators.\<close>

locale remote_proc = A: codec putA getA encA validA + R: codec putR getR encR validR
  for putA :: "'b \<Rightarrow> marshall \<Rightarrow> fault + marshall" and getA and encA and validA
    and putR :: "'r \<Rightarrow> marshall \<Rightarrow> fault + marshall" and getR and encR and validR
begin

lemma handler_runs:
  assumes a: "validA a" "length (encA a) < 2 ^ 30" "drop RPC_HEADER_SZ bs = encA a" "length bs = RPC_HEADER_SZ + length (encA a)"
    and meth: "meth a st = Inr (ret, r, st')" and r: "validR r"
  shows "\<exists>m. h1_fn (getA old) putR meth (received bs) marshall_init st = Inr (ret, m, st') \<and> mwf m \<and>
    contents m = replicate 24 None @ map Some (encR r)"
proof -
  obtain u where u: "getA old (received bs) = Inr (a, u)" "okdone u" using A.get_received [OF a] by blast
  obtain m where "putR r marshall_init = Inr m" "mwf m" "contents m = replicate RPC_HEADER_SZ None @ map Some (encR r)"
    using R.put_init [OF r] by blast
  then show ?thesis using u meth by (simp add: h1_fn_def RPC_HEADER_SZ_eq)
qed

lemma call_ok:
  assumes net: "faithful net" and l: "linked c cl s hp" and cc: "can_call proc cl" and x: "next_xid cl + 1 \<noteq> 0"
    and p: "procs s proc = Some (h1_fn (getA old) putR meth)" and args: "call_marshal args = putA a marshall_init"
    and a: "validA a" "int (24 + length (encA a)) \<le> MAX_PDU"
    and meth: "meth a st = Inr (ret, r, st')" "0 \<le>s ret" and r: "validR r" "int (24 + length (encR r)) \<le> MAX_PDU"
  shows "\<exists>cl' s' hp'. rpc_call net c proc args getR ro (cl, s, hp, st) = Inr ((ret, r), cl', s', hp', st') \<and>
    linked c cl' s' hp' \<and> same_client cl cl' \<and> same_server s s'"
proof -
  let ?x = "next_xid cl"
  let ?h = "\<lparr>rq_xid = ?x, rq_proc = proc, rq_clt_nonce = clt_nonce cl, rq_srv_nonce = srv_nonce cl, rq_xid_rep = ?x - 1\<rparr>"
  let ?cl = "cl\<lparr>next_xid := ?x + 1, calls := (calls cl)(?x \<mapsto> caller_init ?x unmarshall_empty)\<rparr>"
  have L: "clt_ready cl" "srv_ready 1 (rq_clt_nonce ?h) (rq_xid ?h) c s hp" "rq_srv_nonce ?h = 0 \<or> rq_srv_nonce ?h = nonce s"
    using l by (simp_all add: linked_def)
  have small: "length (encA a) < 2 ^ 30" "length (encR r) < 2 ^ 30" using a(2) r(2) by (simp_all add: MAX_PDU_def)
  obtain m where m: "call_marshal args = Inr m" "mwf m" "contents m = replicate 24 None @ map Some (encA a)"
    using A.put_init [OF a(1)] args by (auto simp: RPC_HEADER_SZ_eq)
  obtain req where b: "call1_begin proc m unmarshall_empty cl = Inr (Inr (?x, ?x - 1, req), ?cl)"
    and req: "contents req = replicate 4 None @ map Some (enc_req_header ?h) @ map Some (encA a)"
    using call1_ready [OF L(1) cc m(2,3) refl] by blast
  have q: "call1_requests req ?cl = ([contents req], ?cl)" "reachable ?cl" using L(1) by (simp_all add: call1_requests_def clt_ready_def)
  have "int (length (contents req)) \<le> MAX_PDU" using a(2) by (simp add: req)
  then have wr: "wired (contents req) (net (contents req))" using net by (simp add: faithful_def)
  note N = request_arrives [OF wr req a(2)]
  obtain m' where m': "h1_fn (getA old) putR meth (received (net (contents req))) marshall_init st = Inr (ret, m', st')" "mwf m'"
      "contents m' = replicate 24 None @ map Some (encR r)"
    using handler_runs [where meth = meth, OF a(1) small(1) N(2,3) meth(1) r(1)] by blast
  let ?rep = "replicate 4 None @ map Some (enc_reply_header \<lparr>rp_xid = ?x, rp_ret = ret\<rparr>) @ replicate 12 None @ map Some (encR r)"
  have pp: "procs s (rq_proc ?h) = Some (h1_fn (getA old) putR meth)" and xx: "rq_xid ?h + 1 \<noteq> 0"
    and sz: "RPC_HEADER_SZ \<le> length (net (contents req))" using p x N(3) by simp_all
  obtain s' hp' where s: "rpc_serve net c (contents req) (s, hp, st) = Inr (Some ?rep, s', hp', st')"
    and s': "srv_ready 1 (clt_nonce cl) (?x + 1) c s' hp'" "same_server s s'"
    using serve_ready [where f = "h1_fn (getA old) putR meth" and net = net and pdu = "contents req", OF L(2) xx N(1) sz L(3) pp m'(1) meth(2) m'(2,3)] by auto
  have "int (length ?rep) \<le> MAX_PDU" using r(2) by simp
  then have wp: "wired ?rep (net ?rep)" using net unfolding faithful_def by blast
  note P = reply_arrives [OF wp refl r(2)]
  have sz': "RPC_HEADER_SZ \<le> length (net ?rep)" using P(3) by simp
  obtain cl2 cl3 where g: "got_pdu (net ?rep) (length (net ?rep)) ?cl = Inr cl2"
      "ca_un (map_at (caller_init ?x unmarshall_empty) (calls cl2) ?x) = received (net ?rep)"
      "call1_end ?x (?x - 1) req cl2 = ((Some ret, False), cl3)" "clt_ready cl3" "same_client cl cl3"
    using reply_taken [OF L(1) x P(1) sz'] by blast
  obtain u where u: "getR ro (received (net ?rep)) = Inr (r, u)" "okdone u" using R.get_received [OF r(1) small(2) P(2,3)] by blast
  have "\<not> ret <s 0" using meth(2) by (simp add: word_sless_alt word_sle_eq)
  then have "call_m_reply getR ro ret (received (net ?rep)) = Inr (ret, r)" using u by (simp add: call_m_reply_def)
  then have "rpc_call net c proc args getR ro (cl, s, hp, st) = Inr ((ret, r), cl3, s', hp', st')"
    unfolding rpc_call_def by (simp add: m(1) b q s g(1-3))
  moreover have "linked c cl3 s' hp'" using g(4,5) s' L(3) by (simp add: linked_def same_client_def same_server_def)
  ultimately show ?thesis using g(5) s'(2) by blast
qed

lemma calls_ok:
  assumes net: "faithful net" and l: "linked c cl s hp" and b: "bind_done cl" and x: "unat (next_xid cl) + length qs < 2 ^ 32"
    and p: "\<And>p a. (p, a) \<in> set qs \<Longrightarrow> p \<noteq> rpc_bind \<and> procs s p = Some (h1_fn (getA old) putR (M p))"
    and a: "\<And>p a. (p, a) \<in> set qs \<Longrightarrow> validA a \<and> int (24 + length (encA a)) \<le> MAX_PDU"
    and loc: "local_calls M qs st = Inr (rs, st')"
    and r: "\<And>v r. (v, r) \<in> set rs \<Longrightarrow> 0 \<le>s v \<and> validR r \<and> int (24 + length (encR r)) \<le> MAX_PDU"
  shows "\<exists>cl' s' hp'. rpc_calls net c putA getR ro qs (cl, s, hp, st) = Inr (rs, cl', s', hp', st') \<and> linked c cl' s' hp'"
  using l b x p a loc r
proof (induction qs arbitrary: cl s hp st rs)
  case (Cons q qs)
  obtain p a where q: "q = (p, a)" by (cases q)
  obtain v r st1 rs1 where m: "M p a st = Inr (v, r, st1)" "local_calls M qs st1 = Inr (rs1, st')" "rs = (v, r) # rs1"
    using Cons.prems(6) by (auto simp: q bind_f_eq_Inr)
  have xs: "Suc (unat (next_xid cl)) < 2 ^ 32" using Cons.prems(3) by simp
  then have x: "next_xid cl + 1 \<noteq> 0" and ux: "unat (next_xid cl + 1) = Suc (unat (next_xid cl))"
    by (simp_all add: unat_eq_zero [symmetric] unat_word_ariths)
  have cc: "can_call p cl" using Cons.prems(2,4) by (auto simp: can_call_def q)
  have pa: "procs s p = Some (h1_fn (getA old) putR (M p))" "validA a" "int (24 + length (encA a)) \<le> MAX_PDU"
    using Cons.prems(4,5) by (auto simp: q)
  have vr: "0 \<le>s v" "validR r" "int (24 + length (encR r)) \<le> MAX_PDU" using Cons.prems(7) [of v r] m(3) by auto
  have am: "call_marshal [putA a] = putA a marshall_init" by (simp add: call_marshal_def)
  obtain cl1 s1 hp1 where c: "rpc_call net c p [putA a] getR ro (cl, s, hp, st) = Inr ((v, r), cl1, s1, hp1, st1)"
    and l1: "linked c cl1 s1 hp1" "same_client cl cl1" "same_server s s1"
    using call_ok [where meth = "M p", OF net Cons.prems(1) cc x pa(1) am pa(2,3) m(1) vr] by blast
  have "\<exists>cl' s' hp'. rpc_calls net c putA getR ro qs (cl1, s1, hp1, st1) = Inr (rs1, cl', s', hp', st') \<and> linked c cl' s' hp'"
  proof (rule Cons.IH [OF l1(1)])
    show "bind_done cl1" "unat (next_xid cl1) + length qs < 2 ^ 32" using Cons.prems(2,3) l1(2) ux by (simp_all add: same_client_def)
    show "p' \<noteq> rpc_bind \<and> procs s1 p' = Some (h1_fn (getA old) putR (M p'))" if "(p', a') \<in> set qs" for p' a'
      using Cons.prems(4) [of p' a'] that l1(3) by (simp add: same_server_def)
    show "validA a' \<and> int (24 + length (encA a')) \<le> MAX_PDU" if "(p', a') \<in> set qs" for p' a'
      using Cons.prems(5) [of p' a'] that by simp
    show "0 \<le>s v' \<and> validR r' \<and> int (24 + length (encR r')) \<le> MAX_PDU" if "(v', r') \<in> set rs1" for v' r'
      using Cons.prems(7) [of v' r'] that m(3) by simp
  qed (rule m(2))
  then show ?case using c by (auto simp: q m(3))
qed auto

end

text \<open>The types of the calls in the library and its tests.\<close>

interpretation rp_int: remote_proc put_i32 "\<lambda>_. get_i32" enc_u32 "\<lambda>_. True" put_i32 "\<lambda>_. get_i32" enc_u32 "\<lambda>_. True"
  by unfold_locales

section \<open>Binding\<close>

text \<open>A server on which no request has been made yet.\<close>

definition unused :: "'a rpcs \<Rightarrow> bool" where
  "unused s \<longleftrightarrow> reply_window s = Map.empty \<and> theForgottens s = Map.empty \<and> srv_conns s = Map.empty \<and> bufs s = Map.empty \<and>
     srv_reachable s \<and> procs s rpc_bind = Some (h1_fn get_i32 put_i32 (rpcbind (nonce s)))"

lemma rpcs_init_unused: "\<exists>s. rpcs_init n count = Inr s \<and> unused s \<and> nonce s = n \<and> (\<forall>p. p \<noteq> rpc_bind \<longrightarrow> procs s p = None)"
  by (simp add: rpcs_init_def reg_def reg1_def unused_def)

lemma reg_unused:
  assumes "unused s" and "procs s p = None"
  shows "\<exists>s'. reg p g w meth s = Inr s' \<and> unused s' \<and> nonce s' = nonce s \<and> procs s' = (procs s)(p \<mapsto> h1_fn g w meth)"
  using assms by (auto simp: reg_def reg1_def unused_def)

lemma bind_ok:
  assumes net: "faithful net" and s: "unused s" and c: "conn_ok 1 c hp"
  shows "\<exists>cl s' hp'. rpc_bind_call net c r (rpcc_init d rt n 0, s, hp, st) = Inr (0, cl, s', hp', st) \<and> linked c cl s' hp' \<and>
    bind_done cl \<and> srv_nonce cl = nonce s \<and> next_xid cl = 2 \<and> same_server s s'"
proof -
  let ?cl = "rpcc_init d rt n 0"
  have l: "linked c ?cl s hp"
    using s c by (simp add: linked_def clt_ready_def srv_ready_def replies_ok_def unused_def rpcc_init_def win_def forg_def
        request_clear_def isvalid_def)
  have cc: "can_call rpc_bind ?cl" and x: "next_xid ?cl + 1 \<noteq> 0" by (simp_all add: can_call_def rpcc_init_def)
  have p: "procs s rpc_bind = Some (h1_fn get_i32 put_i32 (rpcbind (nonce s)))" using s by (simp add: unused_def)
  have am: "call_marshal [put_i32 0] = put_i32 0 marshall_init" by (simp add: call_marshal_def)
  have sz: "int (24 + length (enc_u32 v)) \<le> MAX_PDU" for v by (simp add: enc_u32_def MAX_PDU_def)
  obtain cl s' hp' where b: "rpc_call net c rpc_bind [put_i32 0] (\<lambda>_. get_i32) r (?cl, s, hp, st) = Inr ((0, nonce s), cl, s', hp', st)"
    and r: "linked c cl s' hp'" "same_client ?cl cl" "same_server s s'"
    using rp_int.call_ok [where meth = "rpcbind (nonce s)" and ro = r and st = st, OF net l cc x p am TrueI sz rpcbind_def _ TrueI sz] by auto
  have "linked c (cl\<lparr>bind_done := True, srv_nonce := nonce s\<rparr>) s' hp'"
    using r(1,3) by (simp add: linked_def clt_ready_def same_server_def)
  then show ?thesis using b r(2,3) by (simp add: rpc_bind_call_def rpcc_bind_finish_def same_client_def rpcc_init_def)
qed

section \<open>Properties\<close>

text \<open>
  C4. Remote calls are local calls: when a bound client calls procedures of the server one after the other over a network that loses
  nothing, every call returns the status and the result of the registered method, the server state goes through the same
  changes as if the methods had been called directly, each exactly once, no check of either end fails, and both ends are ready for
  further calls. The argument and result types are arbitrary types whose marshalling operators read what they write.
\<close>

theorem rpc_transparent:
  assumes types: "remote_proc putA getA encA validA putR getR encR validR"
    and net: "faithful net" and l: "linked c cl s hp" and b: "bind_done cl" and x: "unat (next_xid cl) + length qs < 2 ^ 32"
    and p: "\<And>p a. (p, a) \<in> set qs \<Longrightarrow> p \<noteq> rpc_bind \<and> procs s p = Some (h1_fn (getA old) putR (M p))"
    and a: "\<And>p a. (p, a) \<in> set qs \<Longrightarrow> validA a \<and> int (24 + length (encA a)) \<le> MAX_PDU"
    and loc: "local_calls M qs st = Inr (rs, st')"
    and r: "\<And>v r. (v, r) \<in> set rs \<Longrightarrow> 0 \<le>s v \<and> validR r \<and> int (24 + length (encR r)) \<le> MAX_PDU"
  shows "\<exists>cl' s' hp'. rpc_calls net c putA getR ro qs (cl, s, hp, st) = Inr (rs, cl', s', hp', st') \<and> linked c cl' s' hp'"
  by (rule remote_proc.calls_ok [OF types net l b x p a loc r])

text \<open>A counter that is asked twice.\<close>

definition plain_net :: "cell list \<Rightarrow> u8 list" where
  "plain_net = map (\<lambda>c. case c of None \<Rightarrow> 0 | Some b \<Rightarrow> b)"

lemma plain_net_faithful: "faithful plain_net"
  by (auto simp: faithful_def wired_def plain_net_def list_all2_conv_all_nth split: option.splits)

definition open_conn :: conns where
  "open_conn = [0 \<mapsto> \<lparr>c_addr = 0, c_fd = 3, c_dead = False, c_wpdu = charbuf_init, c_rpdu = charbuf_init,
     c_time = (0, 0), c_waiters = 0, c_refno = 1, sock_out = []\<rparr>]"

lemma open_conn_ok: "conn_ok 1 0 open_conn"
  by (simp add: conn_ok_def open_conn_def)

definition add_to :: "i32 \<Rightarrow> i32 \<Rightarrow> fault + (i32 \<times> i32 \<times> i32)" where
  "add_to a st = Inr (0, st + a, st + a)"

theorem rpc_transparent_witness:
  "\<exists>y y'. rpc_calls plain_net 0 put_i32 (\<lambda>_. get_i32) 0 [(7, 5), (7, 6)] y = Inr ([(0, 5), (0, 11)], y') \<and> snd (snd (snd y')) = (11 :: i32)"
proof -
  obtain s0 :: "i32 rpcs" where s0: "rpcs_init 9 0 = Inr s0" "unused s0" "\<forall>p. p \<noteq> rpc_bind \<longrightarrow> procs s0 p = None" using rpcs_init_unused by blast
  have "procs s0 7 = None" using s0(3) by (auto simp: rpc_bind_def)
  then obtain s1 where s1: "unused s1" "procs s1 7 = Some (h1_fn get_i32 put_i32 add_to)"
    using reg_unused [OF s0(2), of 7 get_i32 put_i32 add_to] by auto
  obtain cl s hp' where l: "linked 0 cl s hp'" "bind_done cl" "next_xid cl = 2" "same_server s1 s"
    using bind_ok [OF plain_net_faithful s1(1) open_conn_ok, of 0 d True 8 "0 :: i32"] by blast
  have "\<exists>cl' s' hp''. rpc_calls plain_net 0 put_i32 (\<lambda>_. get_i32) 0 [(7, 5), (7, 6)] (cl, s, hp', 0) = Inr ([(0, 5), (0, 11)], cl', s', hp'', 11) \<and>
      linked 0 cl' s' hp''"
    by (rule rpc_transparent [OF rp_int.remote_proc_axioms plain_net_faithful l(1,2), where M = "\<lambda>_. add_to"])
      (use l(3,4) s1(2) in \<open>auto simp: add_to_def rpc_bind_def same_server_def MAX_PDU_def\<close>)
  then obtain cl' s' hp'' where "rpc_calls plain_net 0 put_i32 (\<lambda>_. get_i32) 0 [(7, 5), (7, 6)] (cl, s, hp', 0) = Inr ([(0, 5), (0, 11)], cl', s', hp'', 11)"
    by blast
  then show ?thesis by (intro exI [of _ "(cl, s, hp', 0)"] exI [of _ "(cl', s', hp'', 11)"]) simp
qed

end
