(* ===== verification/Rpc_Tester.thy ===== *)
theory Rpc_Tester
  imports Rpc_Call
begin

text \<open>
  The tester of the RPC library (\<^verbatim>\<open>rpc/rpctest.cc\<close>): the handlers and their registration, \<open>testmarshall\<close>, the calls of
  \<open>simple_tests\<close> up to the one that is meant to time out, and the loops of \<open>client1\<close> and \<open>client3\<close>, as calls over the composition
  of \<open>Rpc_Call\<close>. Results of \<open>random\<close> are arguments; printing and time measurement are left out. The lemmas show that no check of the tests
  fails on a network that loses nothing.
\<close>

section \<open>Handlers\<close>

definition handle_22 :: "string \<times> string \<Rightarrow> 'a \<Rightarrow> fault + (i32 \<times> string \<times> 'a)" where
  "handle_22 = (\<lambda>(a, b) st. Inr (0, a @ b, st))"

definition handle_fast :: "i32 \<Rightarrow> 'a \<Rightarrow> fault + (i32 \<times> i32 \<times> 'a)" where
  "handle_fast a st = Inr (0, a + 1, st)"

definition handle_slow :: "i32 \<Rightarrow> 'a \<Rightarrow> fault + (i32 \<times> i32 \<times> 'a)" where
  "handle_slow a st = Inr (0, a + 2, st)"

text \<open>A negative length becomes a huge \<open>size_t\<close>; the exception of the constructor of \<open>std::string\<close> aborts the process like a failed check.\<close>

definition handle_bigrep :: "i32 \<Rightarrow> 'a \<Rightarrow> fault + (i32 \<times> string \<times> 'a)" where
  "handle_bigrep n st = (if n <s 0 then Inl VerifyFailed else Inr (0, replicate (unat n) CHR ''x'', st))"

definition get_two :: "unmarshall \<Rightarrow> fault + ((string \<times> string) \<times> unmarshall)" where
  "get_two u = bind_f (get_string [] u) (\<lambda>(a, u). bind_f (get_string [] u) (\<lambda>(b, u). Inr ((a, b), u)))"

definition startserver :: "u32 \<Rightarrow> int \<Rightarrow> fault + 'a rpcs" where
  "startserver n count =
     bind_f (rpcs_init n count) (\<lambda>s.
     bind_f (reg 22 get_two put_string handle_22 s) (\<lambda>s.
     bind_f (reg 23 get_i32 put_i32 handle_fast s) (\<lambda>s.
     bind_f (reg 24 get_i32 put_i32 handle_slow s) (\<lambda>s.
     reg 25 get_i32 put_string handle_bigrep s))))"

section \<open>Tests\<close>

text \<open>\<open>mem\<close> tells what the never written size field of the header holds.\<close>

definition testmarshall :: "(cell list \<Rightarrow> u8 list) \<Rightarrow> fault + unit" where
  "testmarshall mem =
     (let rh = \<lparr>rq_xid = 1, rq_proc = 2, rq_clt_nonce = 3, rq_srv_nonce = 4, rq_xid_rep = 5\<rparr>;
          i = 12345; l = 1223344455; s = ''hallo....'' in
      bind_f (pack_req_header rh marshall_init) (\<lambda>m.
      bind_f (VERIFY (m_ind m = RPC_HEADER_SZ)) (\<lambda>_.
      bind_f (put_i32 i m) (\<lambda>m.
      bind_f (put_u64 l m) (\<lambda>m.
      bind_f (put_string s m) (\<lambda>m.
      let b = contents m; sz = m_ind m in
      bind_f (VERIFY (sz = RPC_HEADER_SZ + 4 + 8 + length s + 4)) (\<lambda>_.
      bind_f (unpack_req_header (unmarshall_init (mem b) sz)) (\<lambda>(rh1, un).
      bind_f (VERIFY (rh1 = rh)) (\<lambda>_.
      bind_f (get_i32 un) (\<lambda>(i1, un).
      bind_f (get_u64 un) (\<lambda>(l1, un).
      bind_f (get_string [] un) (\<lambda>(s1, un).
      bind_f (VERIFY (okdone un)) (\<lambda>_.
      VERIFY (i1 = i \<and> l1 = l \<and> s1 = s))))))))))))))"

text \<open>Calls of the four procedures.\<close>

definition call_22 where
  "call_22 net c a b rep y = rpc_call net c 22 [put_string a, put_string b] get_string rep y"

definition call_int where
  "call_int net c p a rep y = rpc_call net c p [put_i32 a] (\<lambda>_. get_i32) rep y"

definition call_25 where
  "call_25 net c a rep y = rpc_call net c 25 [put_i32 a] get_string rep y"

definition simple_tests ::
  "(cell list \<Rightarrow> u8 list) \<Rightarrow> nat \<Rightarrow> rpcc \<times> 'a rpcs \<times> conns \<times> 'a \<Rightarrow> fault + (rpcc \<times> 'a rpcs \<times> conns \<times> 'a)" where
  "simple_tests net c y =
     bind_f (call_22 net c ''hello'' '' goodbye'' [] y) (\<lambda>((intret, rep), y).
     bind_f (VERIFY (intret = 0)) (\<lambda>_.
     bind_f (VERIFY (rep = ''hello goodbye'')) (\<lambda>_.
     bind_f (call_25 net c 70000 rep y) (\<lambda>((intret, rep), y).
     bind_f (VERIFY (intret = 0)) (\<lambda>_.
     bind_f (VERIFY (length rep = 70000)) (\<lambda>_.
     bind_f (call_int net c 23 77 0 y) (\<lambda>((intret, xx), y).
     bind_f (VERIFY (intret = 0 \<and> xx = 78)) (\<lambda>_.
     bind_f (call_22 net c (replicate 1000 CHR ''x'') ''x'' [] y) (\<lambda>((_, rep'), y).
     bind_f (VERIFY (length rep' = 1001)) (\<lambda>_.
     bind_f (call_22 net c (replicate 1000000 CHR ''x'') ''z'' rep y) (\<lambda>((intret, rep), y).
     bind_f (VERIFY (length rep = 1000001)) (\<lambda>_. Inr y))))))))))))"

text \<open>The two loops of \<open>client1\<close>; \<open>rands\<close> are the arguments drawn, \<open>old\<close> the uninitialised result variables.\<close>

fun client1_big ::
  "(cell list \<Rightarrow> u8 list) \<Rightarrow> nat \<Rightarrow> i32 list \<Rightarrow> rpcc \<times> 'a rpcs \<times> conns \<times> 'a \<Rightarrow> fault + (rpcc \<times> 'a rpcs \<times> conns \<times> 'a)" where
  "client1_big net c [] y = Inr y"
| "client1_big net c (rand # rands) y =
     bind_f (call_25 net c rand [] y) (\<lambda>((ret, rep), y).
     bind_f (VERIFY (ret = 0)) (\<lambda>_.
     bind_f (VERIFY (int (length rep) = sint rand)) (\<lambda>_. client1_big net c rands y)))"

fun client1_order ::
  "(cell list \<Rightarrow> u8 list) \<Rightarrow> nat \<Rightarrow> (bool \<times> i32 \<times> i32) list \<Rightarrow> rpcc \<times> 'a rpcs \<times> conns \<times> 'a \<Rightarrow>
   fault + (rpcc \<times> 'a rpcs \<times> conns \<times> 'a)" where
  "client1_order net c [] y = Inr y"
| "client1_order net c ((which, rand, old) # rands) y =
     bind_f (call_int net c (if which then 23 else 24) rand old y) (\<lambda>((ret, rep), y).
     bind_f (VERIFY (ret = 0)) (\<lambda>_.
     bind_f (VERIFY (rep = (if which then rand + 1 else rand + 2))) (\<lambda>_. client1_order net c rands y)))"

definition client1 where
  "client1 net c bigs orders y = bind_f (client1_big net c bigs y) (client1_order net c orders)"

text \<open>The loop of \<open>client3\<close> from \<open>i\<close> on, with the uninitialised result variables.\<close>

fun client3 ::
  "(cell list \<Rightarrow> u8 list) \<Rightarrow> nat \<Rightarrow> i32 \<Rightarrow> i32 list \<Rightarrow> rpcc \<times> 'a rpcs \<times> conns \<times> 'a \<Rightarrow> fault + (rpcc \<times> 'a rpcs \<times> conns \<times> 'a)" where
  "client3 net c i [] y = Inr y"
| "client3 net c i (old # olds) y =
     bind_f (call_int net c 24 i old y) (\<lambda>((ret, rep), y).
     bind_f (VERIFY (ret = timeout_failure \<or> rep = i + 2)) (\<lambda>_. client3 net c (i + 1) olds y))"

section \<open>Marshalling\<close>

lemma testmarshall_ok:
  assumes "faithful mem"
  shows "testmarshall mem = Inr ()"
proof -
  let ?rh = "\<lparr>rq_xid = 1, rq_proc = 2, rq_clt_nonce = 3, rq_srv_nonce = 4, rq_xid_rep = 5\<rparr>"
  let ?i = "12345 :: i32" and ?l = "1223344455 :: u64" and ?s = "''hallo....''"
  let ?e = "enc_u32 ?i @ enc_u64 ?l @ enc_string ?s"
  have i: "m_ind marshall_init = 24" by (simp add: marshall_init_def RPC_HEADER_SZ_eq)
  obtain m where m: "pack_req_header ?rh marshall_init = Inr m" "mwf m" "m_ind m = 24"
      "contents m = replicate 4 None @ map Some (enc_req_header ?rh)"
    using pack_req_header_ok [OF mwf_init(1), of ?rh] by (auto simp: mwf_init(3) RPC_HEADER_SZ_eq i)
  obtain m1 where m1: "put_i32 ?i m = Inr m1" "mwf m1" "contents m1 = contents m @ map Some (enc_u32 ?i)" "m_ind m1 = m_ind m + 4"
    using cd_i32.put_writes [of ?i] m(2) unfolding writes_def by fastforce
  obtain m2 where m2: "put_u64 ?l m1 = Inr m2" "mwf m2" "contents m2 = contents m1 @ map Some (enc_u64 ?l)" "m_ind m2 = m_ind m1 + 8"
    using cd_u64.put_writes [of ?l] m1(2) unfolding writes_def by (fastforce simp: enc_u64_def)
  have "writes (put_string ?s) (enc_string ?s)" by (rule cd_string.put_writes) simp
  then obtain m3 where m3: "put_string ?s m2 = Inr m3" "contents m3 = contents m2 @ map Some (enc_string ?s)" "m_ind m3 = m_ind m2 + 13"
    using m2(2) unfolding writes_def by (fastforce simp: enc_string_def bytes_of_string_def)
  have c: "contents m3 = replicate 4 None @ map Some (enc_req_header ?rh) @ map Some ?e" by (simp add: m3 m2 m1 m)
  have le: "length ?e = 25" by (simp add: enc_u64_def enc_string_def bytes_of_string_def)
  then have l: "int (24 + length ?e) \<le> MAX_PDU" by (simp add: MAX_PDU_def)
  have "int (length (contents m3)) \<le> MAX_PDU" using l by (simp add: c)
  then have "wired (contents m3) (mem (contents m3))" using assms by (simp add: faithful_def)
  note N = request_arrives [OF this c l]
  have sz: "length (mem (contents m3)) = 49" using N(3) le by (simp add: RPC_HEADER_SZ_eq)
  let ?u = "received (mem (contents m3))"
  have w: "uwf ?u" "u_ok ?u" using sz by (simp_all add: uwf_def received_def RPC_HEADER_SZ_eq)
  have "reads (\<lambda>u. bind_f (get_i32 u) (\<lambda>(i, u). bind_f (get_u64 u) (\<lambda>(l, u). bind_f (get_string [] u) (\<lambda>(s, u). Inr ((i, l, s), u)))))
      (enc_u32 ?i @ enc_u64 ?l @ enc_string ?s) (?i, ?l, ?s)" (is "reads ?g _ _")
    by (intro reads_bind [OF cd_i32.get_reads [OF TrueI]] reads_bind [OF reads_get_u64] reads_bind_return cd_string.get_reads) simp
  then have g: "?g ?u = Inr ((?i, ?l, ?s), advance 25 ?u)"
    using w N(2) le unfolding reads_def by (metis append_Nil2 upcoming_received)
  have "okdone (advance 25 ?u)" using w sz by (simp add: okdone_def advance_def received_def RPC_HEADER_SZ_eq)
  with g show ?thesis
    using N(1) sz m m1 m2 m3
    by (auto simp: testmarshall_def Let_def RPC_HEADER_SZ_eq bind_f_eq_Inr)
qed

section \<open>Calls\<close>

interpretation rp_22: remote_proc
  "\<lambda>(a, b) m. bind_f (put_string a m) (put_string b)"
  "\<lambda>(oa, ob) u. bind_f (get_string oa u) (\<lambda>(a, u). bind_f (get_string ob u) (\<lambda>(b, u). Inr ((a, b), u)))"
  "\<lambda>(a, b). enc_string a @ enc_string b" "\<lambda>(a, b). valid_string a \<and> valid_string b"
  put_string get_string enc_string valid_string
  by (intro remote_proc.intro codec_pair cd_string.codec_axioms)

interpretation rp_25: remote_proc put_i32 "\<lambda>_. get_i32" enc_u32 "\<lambda>_. True" put_string get_string enc_string valid_string
  by (intro remote_proc.intro cd_string.codec_axioms cd_i32.codec_axioms)

text \<open>A client of the test server that can still make \<open>k\<close> calls.\<close>

definition registered :: "'a rpcs \<Rightarrow> bool" where
  "registered s \<longleftrightarrow> procs s 22 = Some (h1_fn get_two put_string handle_22) \<and> procs s 23 = Some (h1_fn get_i32 put_i32 handle_fast) \<and>
     procs s 24 = Some (h1_fn get_i32 put_i32 handle_slow) \<and> procs s 25 = Some (h1_fn get_i32 put_string handle_bigrep)"

definition test_ready :: "nat \<Rightarrow> nat \<Rightarrow> rpcc \<times> 'a rpcs \<times> conns \<times> 'a \<Rightarrow> bool" where
  "test_ready k c = (\<lambda>(cl, s, hp, st). linked c cl s hp \<and> bind_done cl \<and> registered s \<and> unat (next_xid cl) + k < 2 ^ 32)"

lemma test_ready_next:
  assumes "test_ready (Suc k) c (cl, s, hp, st)"
  shows "next_xid cl + 1 \<noteq> 0" and "p \<noteq> rpc_bind \<Longrightarrow> can_call p cl"
    and "linked c cl' s' hp' \<Longrightarrow> same_client cl cl' \<Longrightarrow> same_server s s' \<Longrightarrow> test_ready k c (cl', s', hp', st')"
proof -
  have x: "Suc (unat (next_xid cl)) + k < 2 ^ 32" and b: "bind_done cl" using assms by (simp_all add: test_ready_def)
  then have u: "unat (next_xid cl + 1) = Suc (unat (next_xid cl))" by (simp add: unat_word_ariths)
  then show "next_xid cl + 1 \<noteq> 0" by auto
  show "p \<noteq> rpc_bind \<Longrightarrow> can_call p cl" using b by (simp add: can_call_def)
  show "test_ready k c (cl', s', hp', st')" if "linked c cl' s' hp'" "same_client cl cl'" "same_server s s'"
    using assms that u x by (simp add: test_ready_def same_client_def same_server_def registered_def)
qed

lemma length_enc_string [simp]: "length (enc_string s) = 4 + length s"
  by (simp add: enc_string_def bytes_of_string_def)

context remote_proc
begin

lemma test_call:
  assumes net: "faithful net" and r: "test_ready (Suc k) c (cl, s, hp, st)" and p: "p \<noteq> rpc_bind" "procs s p = Some (h1_fn (getA old) putR meth)"
    and args: "call_marshal args = putA a marshall_init" and a: "validA a" "int (24 + length (encA a)) \<le> MAX_PDU"
    and meth: "meth a st = Inr (0, v, st)" and v: "validR v" "int (24 + length (encR v)) \<le> MAX_PDU"
  shows "\<exists>y'. rpc_call net c p args getR ro (cl, s, hp, st) = Inr ((0, v), y') \<and> test_ready k c y'"
proof -
  note R = test_ready_next [OF r]
  have l: "linked c cl s hp" using r by (simp add: test_ready_def)
  have "0 \<le>s (0 :: i32)" by simp
  then show ?thesis using call_ok [where meth = meth, OF net l R(2) [OF p(1)] R(1) p(2) args a meth _ v] R(3) by blast
qed

end

lemma test_procs: "22 \<noteq> rpc_bind" "23 \<noteq> rpc_bind" "24 \<noteq> rpc_bind" "25 \<noteq> rpc_bind"
  by (simp_all add: rpc_bind_def)

lemma call_22_ok:
  assumes net: "faithful net" and r: "test_ready (Suc k) c y" and l: "length a + length b \<le> 10000000"
  shows "\<exists>y'. call_22 net c a b rep y = Inr ((0, a @ b), y') \<and> test_ready k c y'"
proof -
  obtain cl s hp st where y: "y = (cl, s, hp, st)" by (cases y)
  have g: "get_two = (\<lambda>(oa, ob) u. bind_f (get_string oa u) (\<lambda>(a, u). bind_f (get_string ob u) (\<lambda>(b, u). Inr ((a, b), u)))) ([], [])"
    by (simp add: get_two_def fun_eq_iff)
  have p: "procs s 22 = Some (h1_fn get_two put_string handle_22)" using r by (simp add: y test_ready_def registered_def)
  show ?thesis unfolding call_22_def y
    by (rule rp_22.test_call [OF net r [unfolded y] test_procs(1) p [unfolded g], where a = "(a, b)"])
      (use l in \<open>simp_all add: call_marshal_def handle_22_def MAX_PDU_def\<close>)
qed

lemma call_25_ok:
  assumes net: "faithful net" and r: "test_ready (Suc k) c y" and l: "0 \<le>s n" "unat n \<le> 10000000"
  shows "\<exists>y'. call_25 net c n rep y = Inr ((0, replicate (unat n) CHR ''x''), y') \<and> test_ready k c y'"
proof -
  obtain cl s hp st where y: "y = (cl, s, hp, st)" by (cases y)
  have p: "procs s 25 = Some (h1_fn get_i32 put_string handle_bigrep)" using r by (simp add: y test_ready_def registered_def)
  have "int (unat n) \<le> 10000000" using l(2) by linarith
  then have u: "uint n \<le> 10000000" by simp
  have n: "\<not> n <s 0" using l(1) by (simp add: word_sless_alt word_sle_eq)
  show ?thesis unfolding call_25_def y
    by (rule rp_25.test_call [OF net r [unfolded y] test_procs(4) p, where a = n])
      (use u n l(2) in \<open>simp_all add: call_marshal_def handle_bigrep_def MAX_PDU_def\<close>)
qed

lemma call_int_ok:
  assumes net: "faithful net" and r: "test_ready (Suc k) c y"
  shows "\<exists>y'. call_int net c 23 a rep y = Inr ((0, a + 1), y') \<and> test_ready k c y'"
    and "\<exists>y'. call_int net c 24 a rep y = Inr ((0, a + 2), y') \<and> test_ready k c y'"
proof -
  obtain cl s hp st where y: "y = (cl, s, hp, st)" by (cases y)
  have p: "procs s 23 = Some (h1_fn get_i32 put_i32 handle_fast)" "procs s 24 = Some (h1_fn get_i32 put_i32 handle_slow)"
    using r by (simp_all add: y test_ready_def registered_def)
  show "\<exists>y'. call_int net c 23 a rep y = Inr ((0, a + 1), y') \<and> test_ready k c y'" unfolding call_int_def y
    by (rule rp_int.test_call [OF net r [unfolded y] test_procs(2) p(1), where a = a]) (simp_all add: call_marshal_def handle_fast_def MAX_PDU_def)
  show "\<exists>y'. call_int net c 24 a rep y = Inr ((0, a + 2), y') \<and> test_ready k c y'" unfolding call_int_def y
    by (rule rp_int.test_call [OF net r [unfolded y] test_procs(3) p(2), where a = a]) (simp_all add: call_marshal_def handle_slow_def MAX_PDU_def)
qed

section \<open>Tests\<close>

lemma simple_tests_ok:
  assumes net: "faithful net" and r: "test_ready (Suc (Suc (Suc (Suc (Suc k))))) c y"
  shows "\<exists>y'. simple_tests net c y = Inr y' \<and> test_ready k c y'"
proof -
  obtain y1 where 1: "call_22 net c ''hello'' '' goodbye'' [] y = Inr ((0, ''hello'' @ '' goodbye''), y1)" "test_ready (Suc (Suc (Suc (Suc k)))) c y1"
    using call_22_ok [OF net r, of "''hello''" "'' goodbye''" "[]"] by auto
  obtain y2 where 2: "call_25 net c 70000 (''hello'' @ '' goodbye'') y1 = Inr ((0, replicate 70000 CHR ''x''), y2)" "test_ready (Suc (Suc (Suc k))) c y2"
    using call_25_ok [OF net 1(2), of 70000 "''hello'' @ '' goodbye''"] by (auto simp: word_sle_eq)
  obtain y3 where 3: "call_int net c 23 77 0 y2 = Inr ((0, 78), y3)" "test_ready (Suc (Suc k)) c y3"
    using call_int_ok(1) [OF net 2(2), of 77 0] by auto
  obtain y4 where 4: "call_22 net c (replicate 1000 CHR ''x'') ''x'' [] y3 = Inr ((0, replicate 1000 CHR ''x'' @ ''x''), y4)" "test_ready (Suc k) c y4"
    using call_22_ok [OF net 3(2), of "replicate 1000 CHR ''x''" "''x''" "[]"] by auto
  obtain y5 where 5: "call_22 net c (replicate 1000000 CHR ''x'') ''z'' (replicate 70000 CHR ''x'') y4 =
      Inr ((0, replicate 1000000 CHR ''x'' @ ''z''), y5)" "test_ready k c y5"
    using call_22_ok [OF net 4(2), of "replicate 1000000 CHR ''x''" "''z''" "replicate 70000 CHR ''x''"] by auto
  show ?thesis using 1(1) 2(1) 3(1) 4(1) 5 by (simp add: simple_tests_def)
qed

lemma nonneg_sint:
  fixes n :: i32
  assumes "0 \<le> sint n"
  shows "uint n = sint n"
proof -
  have e: "sint n = (uint n + 2147483648) mod 4294967296 - 2147483648"
    by (simp add: sint_uint signed_take_bit_eq_take_bit_shift take_bit_eq_mod)
  have b: "0 \<le> uint n" "uint n < 4294967296" using uint_lt2p [of n] by simp_all
  show ?thesis
  proof (cases "uint n < 2147483648")
    case True
    then have "(uint n + 2147483648) mod 4294967296 = uint n + 2147483648" using b(1) by (intro mod_pos_pos_trivial) linarith+
    then show ?thesis using e by linarith
  next
    case False
    have "(uint n + 2147483648) mod 4294967296 = (uint n - 2147483648) mod 4294967296"
      using minus_mod_self2 [of "uint n + 2147483648" 4294967296] by simp
    also have "\<dots> = uint n - 2147483648" using False b(2) by (intro mod_pos_pos_trivial) linarith+
    finally show ?thesis using assms e b(2) by linarith
  qed
qed

lemma client1_big_ok:
  assumes net: "faithful net" and r: "test_ready (length ns + k) c y" and n: "\<forall>n \<in> set ns. 0 \<le> sint n \<and> sint n < 2000"
  shows "\<exists>y'. client1_big net c ns y = Inr y' \<and> test_ready k c y'"
  using r n
proof (induction ns arbitrary: y)
  case (Cons n ns)
  have s: "0 \<le> sint n" "sint n < 2000" using Cons.prems(2) by simp_all
  have u: "int (unat n) = sint n" using nonneg_sint [OF s(1)] by simp
  have "0 \<le>s n" using s(1) by (simp add: word_sle_eq)
  moreover have "unat n \<le> 10000000" using s(2) u by linarith
  moreover have "test_ready (Suc (length ns + k)) c y" using Cons.prems(1) by simp
  ultimately obtain y1 where y1: "call_25 net c n [] y = Inr ((0, replicate (unat n) CHR ''x''), y1)" "test_ready (length ns + k) c y1"
    using call_25_ok [OF net] by blast
  then show ?case using Cons.IH [OF y1(2)] Cons.prems(2) u by simp
qed simp

lemma client1_order_ok:
  assumes net: "faithful net" and r: "test_ready (length qs + k) c y"
  shows "\<exists>y'. client1_order net c qs y = Inr y' \<and> test_ready k c y'"
  using r
proof (induction qs arbitrary: y)
  case (Cons q qs)
  obtain w a old where q: "q = (w, a, old)" by (cases q)
  have "test_ready (Suc (length qs + k)) c y" using Cons.prems by simp
  then obtain y1 where y1: "call_int net c (if w then 23 else 24) a old y = Inr ((0, if w then a + 1 else a + 2), y1)" "test_ready (length qs + k) c y1"
    using call_int_ok [OF net, of "length qs + k" c y a old] by (cases w) auto
  then show ?case using Cons.IH [OF y1(2)] by (simp add: q)
qed simp

lemma client3_ok:
  assumes net: "faithful net" and r: "test_ready (length olds + k) c y"
  shows "\<exists>y'. client3 net c i olds y = Inr y' \<and> test_ready k c y'"
  using r
proof (induction olds arbitrary: i y)
  case (Cons old olds)
  have "test_ready (Suc (length olds + k)) c y" using Cons.prems by simp
  then obtain y1 where y1: "call_int net c 24 i old y = Inr ((0, i + 2), y1)" "test_ready (length olds + k) c y1"
    using call_int_ok(2) [OF net] by blast
  then show ?case using Cons.IH [OF y1(2)] by simp
qed simp

lemma startserver_ok: "\<exists>s. startserver n count = Inr s \<and> unused s \<and> registered s"
proof -
  obtain s0 :: "'a rpcs" where s0: "rpcs_init n count = Inr s0" "unused s0" "\<forall>p. p \<noteq> rpc_bind \<longrightarrow> procs s0 p = None"
    using rpcs_init_unused by blast
  obtain s1 where s1: "reg 22 get_two put_string handle_22 s0 = Inr s1" "unused s1" "procs s1 = (procs s0)(22 \<mapsto> h1_fn get_two put_string handle_22)"
    using reg_unused [OF s0(2)] s0(3) test_procs(1) by blast
  have p23: "procs s1 23 = None" using s0(3) test_procs(2) by (simp add: s1(3))
  obtain s2 where s2: "reg 23 get_i32 put_i32 handle_fast s1 = Inr s2" "unused s2" "procs s2 = (procs s1)(23 \<mapsto> h1_fn get_i32 put_i32 handle_fast)"
    using reg_unused [OF s1(2) p23] by blast
  have p24: "procs s2 24 = None" using s0(3) test_procs(3) by (simp add: s1(3) s2(3))
  obtain s3 where s3: "reg 24 get_i32 put_i32 handle_slow s2 = Inr s3" "unused s3" "procs s3 = (procs s2)(24 \<mapsto> h1_fn get_i32 put_i32 handle_slow)"
    using reg_unused [OF s2(2) p24] by blast
  have p25: "procs s3 25 = None" using s0(3) test_procs(4) by (simp add: s1(3) s2(3) s3(3))
  obtain s4 where s4: "reg 25 get_i32 put_string handle_bigrep s3 = Inr s4" "unused s4" "procs s4 = (procs s3)(25 \<mapsto> h1_fn get_i32 put_string handle_bigrep)"
    using reg_unused [OF s3(2) p25] by blast
  show ?thesis using s0(1) s1(1) s2(1) s3(1) s4 by (simp add: startserver_def registered_def s1(3) s2(3) s3(3))
qed

text \<open>One client that runs the tests one after the other, as \<open>main\<close> starts them.\<close>

definition rpctest ::
  "(cell list \<Rightarrow> u8 list) \<Rightarrow> nat \<Rightarrow> u32 \<Rightarrow> sockaddr_in \<Rightarrow> u32 \<Rightarrow> i32 \<Rightarrow> conns \<Rightarrow> 'a \<Rightarrow> i32 list \<Rightarrow> (bool \<times> i32 \<times> i32) list \<Rightarrow> i32 list \<Rightarrow>
   fault + (rpcc \<times> 'a rpcs \<times> conns \<times> 'a)" where
  "rpctest net c n d cn r hp st bigs orders olds =
     bind_f (testmarshall net) (\<lambda>_.
     bind_f (startserver n 0) (\<lambda>s.
     bind_f (rpc_bind_call net c r (rpcc_init d True cn 0, s, hp, st)) (\<lambda>(ret, y).
     bind_f (VERIFY (ret = 0)) (\<lambda>_.
     bind_f (simple_tests net c y) (\<lambda>y.
     bind_f (client1 net c bigs orders y) (client3 net c 0 olds))))))"

text \<open>
  C33. The RPC tests succeed: on a network that loses nothing, the marshalling test, the start of the server, the binding of a
  client, \<open>simple_tests\<close> up to its timeout test, and the loops of \<open>client1\<close> and \<open>client3\<close>, run one after the other by one client with any random
  numbers, end without a failed check; the requests and replies of these tests fit into a PDU and every result is the one of the handler.
\<close>

theorem rpctest_passes:
  assumes net: "faithful net" and c: "conn_ok 1 c hp" and b: "\<forall>x \<in> set bigs. 0 \<le> sint x \<and> sint x < 2000"
    and l: "length bigs + length orders + length olds < 2 ^ 32 - 7"
  shows "\<exists>y. rpctest net c n d cn r hp st bigs orders olds = Inr y"
proof -
  obtain s :: "'a rpcs" where s: "startserver n 0 = Inr s" "unused s" "registered s" using startserver_ok by blast
  obtain cl s' hp' where bd: "rpc_bind_call net c r (rpcc_init d True cn 0, s, hp, st) = Inr (0, cl, s', hp', st)"
    and cl: "linked c cl s' hp'" "bind_done cl" "next_xid cl = 2" "same_server s s'"
    using bind_ok [OF net s(2) c, of r d True cn st] by blast
  let ?k = "length bigs + (length orders + (length olds + 0))"
  have "test_ready (Suc (Suc (Suc (Suc (Suc ?k))))) c (cl, s', hp', st)"
    using cl s(3) l by (simp add: test_ready_def registered_def same_server_def)
  then obtain y1 where y1: "simple_tests net c (cl, s', hp', st) = Inr y1" "test_ready ?k c y1" using simple_tests_ok [OF net] by blast
  obtain y2 where y2: "client1_big net c bigs y1 = Inr y2" "test_ready (length orders + (length olds + 0)) c y2"
    using client1_big_ok [OF net y1(2) b] by blast
  obtain y3 where y3: "client1_order net c orders y2 = Inr y3" "test_ready (length olds + 0) c y3" using client1_order_ok [OF net y2(2)] by blast
  obtain y4 where y4: "client3 net c 0 olds y3 = Inr y4" using client3_ok [OF net y3(2)] by blast
  show ?thesis using testmarshall_ok [OF net] s(1) bd y1(1) y2(1) y3(1) y4 by (cases y4) (simp add: rpctest_def client1_def)
qed

theorem rpctest_passes_witness:
  "\<exists>y. rpctest plain_net 0 9 \<lparr>s_addr = 127, sin_port = 20000\<rparr> 8 0 open_conn () [5, 1999] [(True, 3, 0), (False, 4, 0)] [0, 0, 0, 0] = Inr y"
  by (rule rpctest_passes [OF plain_net_faithful open_conn_ok]) simp_all

end
