(* ===== verification/Split.thy ===== *)
theory Split
  imports DS_Prelude
begin

text \<open>
  The tokenizer \<^verbatim>\<open>split.h\<close>. Positions are natural numbers and \<open>string::npos\<close> is \<open>None\<close>.
  \<open>segments\<close> is the reference: the pieces of a string between the characters that satisfy a
  predicate. The lemmas show that the position loop computes them, and how joined tokens are
  taken apart again.
\<close>

section \<open>Searching\<close>

text \<open>\<open>string::find\<close> and \<open>string::find_first_of\<close>, from a position on.\<close>

definition find_full :: "string \<Rightarrow> string \<Rightarrow> nat \<Rightarrow> nat option" where
  "find_full s m start = List.find (\<lambda>i. take (length m) (drop i s) = m) [start..<Suc (length s)]"

definition find_first_of :: "string \<Rightarrow> string \<Rightarrow> nat \<Rightarrow> nat option" where
  "find_first_of s m start = List.find (\<lambda>i. s ! i \<in> set m) [start..<length s]"

text \<open>\<open>s.substr(start, end - start)\<close>.\<close>

definition substr_to :: "string \<Rightarrow> nat \<Rightarrow> nat option \<Rightarrow> string" where
  "substr_to s start e = (case e of None \<Rightarrow> drop start s | Some e \<Rightarrow> take (e - start) (drop start s))"

lemma find_Some_index:
  assumes "List.find P [a..<b] = Some i"
  shows "a \<le> i \<and> i < b \<and> P i \<and> (\<forall>j. a \<le> j \<longrightarrow> j < i \<longrightarrow> \<not> P j)"
proof -
  from assms obtain k where k: "k < b - a" "P (a + k)" "i = a + k" "\<forall>j<k. \<not> P (a + j)"
    by (auto simp: find_Some_iff)
  have "\<not> P j" if "a \<le> j" "j < i" for j
    using k(4) [rule_format, of "j - a"] k(3) that by simp
  with k show ?thesis by auto
qed

lemma find_None_index: "List.find P [a..<b] = None \<longleftrightarrow> (\<forall>i. a \<le> i \<longrightarrow> i < b \<longrightarrow> \<not> P i)"
  by (auto simp: find_None_iff)

lemma find_full_bound:
  assumes "find_full s m start = Some e"
  shows "start \<le> e \<and> e + length m \<le> length s"
proof -
  from assms have 1: "start \<le> e" "e < Suc (length s)" "take (length m) (drop e s) = m"
    unfolding find_full_def using find_Some_index by blast+
  from arg_cong [OF 1(3), of length] have "min (length s - e) (length m) = length m"
    by simp
  with 1(1,2) show ?thesis by linarith
qed

lemma find_first_of_bound: "find_first_of s m start = Some e \<Longrightarrow> start \<le> e \<and> e < length s"
  unfolding find_first_of_def using find_Some_index by blast

section \<open>The loop\<close>

text \<open>
  One round per token. \<open>skip\<close> is \<open>1\<close>, or the length of the delimiter when it is matched
  as a whole; a \<open>skip\<close> of \<open>0\<close> extracts everything.
\<close>

function Split_loop :: "string \<Rightarrow> string \<Rightarrow> bool \<Rightarrow> bool \<Rightarrow> nat \<Rightarrow> string list" where
  "Split_loop s m removeEmpty fullMatch start =
     (let skip = (if fullMatch then length m else 1);
          e = (if fullMatch then find_full s m start else find_first_of s m start);
          e = (if skip = 0 then None else e);
          token = substr_to s start e
      in (if removeEmpty \<and> token = [] then [] else [token]) @
         (case e of None \<Rightarrow> [] | Some i \<Rightarrow> Split_loop s m removeEmpty fullMatch (i + skip)))"
  by pat_completeness auto
termination
proof (relation "measure (\<lambda>(s, m, re, full, start). Suc (length s) - start)", goal_cases)
  case (2 s m removeEmpty fullMatch start skip e e' token i)
  then have "0 < skip" and f: "(if fullMatch then find_full s m start else find_first_of s m start) = Some i"
    by (auto split: if_splits)
  moreover from f have "start \<le> i \<and> i \<le> length s"
    by (cases fullMatch) (simp_all, (drule find_full_bound find_first_of_bound, linarith)+)
  ultimately show ?case by auto
qed simp

declare Split_loop.simps [simp del]

definition Split :: "string \<Rightarrow> string \<Rightarrow> bool \<Rightarrow> bool \<Rightarrow> string list" where
  "Split s m removeEmpty fullMatch = Split_loop s m removeEmpty fullMatch 0"

section \<open>The reference\<close>

fun segments :: "(char \<Rightarrow> bool) \<Rightarrow> string \<Rightarrow> string list" where
  "segments P [] = [[]]"
| "segments P (c # cs) =
     (if P c then [] # segments P cs
      else case segments P cs of [] \<Rightarrow> [[c]] | x # xs \<Rightarrow> (c # x) # xs)"

definition keep :: "bool \<Rightarrow> string list \<Rightarrow> string list" where
  "keep removeEmpty ts = (if removeEmpty then filter (\<lambda>t. t \<noteq> []) ts else ts)"

lemma segments_not_Nil [simp]: "segments P s \<noteq> []"
  by (cases s) (auto split: list.splits)

lemma segments_append_delim:
  "list_all (\<lambda>c. \<not> P c) t \<Longrightarrow> P d \<Longrightarrow> segments P (t @ d # s) = t # segments P s"
  by (induction t) auto

lemma segments_no_delim: "list_all (\<lambda>c. \<not> P c) t \<Longrightarrow> segments P t = [t]"
  by (induction t) auto

lemma segments_free: "t \<in> set (segments P s) \<Longrightarrow> list_all (\<lambda>c. \<not> P c) t"
proof (induction s arbitrary: t)
  case (Cons c s)
  then show ?case
    by (cases "segments P s") (auto split: if_splits)
qed simp

lemma segments_subset: "t \<in> set (segments P s) \<Longrightarrow> set t \<subseteq> set s"
proof (induction s arbitrary: t)
  case (Cons c s)
  from Cons.IH have sub: "u \<in> set (segments P s) \<Longrightarrow> set u \<subseteq> insert c (set s)" for u by blast
  with Cons.prems show ?case
    by (cases "segments P s") (fastforce split: if_splits)+
qed simp

lemma substr_free:
  assumes "\<forall>j. start \<le> j \<longrightarrow> j < e \<longrightarrow> \<not> P (s ! j)" and "e \<le> length s"
  shows "list_all (\<lambda>c. \<not> P c) (take (e - start) (drop start s))"
proof -
  have "\<not> P (take (e - start) (drop start s) ! k)" if "k < length (take (e - start) (drop start s))" for k
    using assms(1) [rule_format, of "start + k"] assms(2) that by auto
  then show ?thesis by (auto simp: list_all_length)
qed

text \<open>A search that finds the next character in \<open>P\<close> makes the loop compute the segments.\<close>

lemma Split_loop_segments:
  assumes "start \<le> length s"
    and "\<And>i. i \<le> length s \<Longrightarrow> (if full then find_full s m i else find_first_of s m i)
           = List.find (\<lambda>j. P (s ! j)) [i..<length s]"
    and "full \<Longrightarrow> length m = 1"
  shows "Split_loop s m re full start = keep re (segments P (drop start s))"
  using assms(1)
proof (induction "length s - start" arbitrary: start rule: less_induct)
  case less
  have skip: "(if full then length m else 1) = 1" using assms(3) by simp
  note e = assms(2) [OF less.prems]
  show ?case
  proof (cases "List.find (\<lambda>j. P (s ! j)) [start..<length s]")
    case None
    then have "\<forall>j. start \<le> j \<longrightarrow> j < length s \<longrightarrow> \<not> P (s ! j)"
      by (simp add: find_None_index)
    from substr_free [of start "length s" P s, OF this] have "list_all (\<lambda>c. \<not> P c) (drop start s)" by simp
    with None e skip show ?thesis
      by (simp add: Split_loop.simps [of _ _ _ _ start] substr_to_def keep_def segments_no_delim)
  next
    case (Some i)
    from find_Some_index [OF this] have i: "start \<le> i" "i < length s" "P (s ! i)"
      and free: "\<forall>j. start \<le> j \<longrightarrow> j < i \<longrightarrow> \<not> P (s ! j)" by auto
    let ?t = "take (i - start) (drop start s)"
    have "drop start s = ?t @ drop (i - start) (drop start s)" by (rule append_take_drop_id [symmetric])
    also have "drop (i - start) (drop start s) = s ! i # drop (i + 1) s"
      using i by (simp add: Cons_nth_drop_Suc)
    finally have "segments P (drop start s) = ?t # segments P (drop (i + 1) s)"
      using segments_append_delim [of P ?t "s ! i" "drop (i + 1) s"] substr_free [of start i P s, OF free] i
      by simp
    moreover have "Split_loop s m re full (i + 1) = keep re (segments P (drop (i + 1) s))"
      using less.hyps [of "i + 1"] i by simp
    ultimately show ?thesis
      using Some e skip by (simp add: Split_loop.simps [of _ _ _ _ start] substr_to_def keep_def)
  qed
qed

lemma find_cong_upt:
  "(\<And>j. a \<le> j \<Longrightarrow> j < b \<Longrightarrow> P j = Q j) \<Longrightarrow> List.find P [a..<b] = List.find Q [a..<b]"
  by (rule find_cong) auto

lemma find_full_single:
  assumes "i \<le> length s"
  shows "find_full s [d] i = List.find (\<lambda>j. s ! j = d) [i..<length s]"
proof -
  have 1: "List.find P (xs @ [a]) = List.find P xs" if "\<not> P a" for P :: "nat \<Rightarrow> bool" and xs a
    using that by (induction xs) auto
  have "find_full s [d] i = List.find (\<lambda>j. take 1 (drop j s) = [d]) [i..<length s]"
    using assms by (simp add: find_full_def 1)
  also have "\<dots> = List.find (\<lambda>j. s ! j = d) [i..<length s]"
    by (rule find_cong_upt) (simp add: take_Suc hd_drop_conv_nth)
  finally show ?thesis .
qed

lemma Split_single: "Split s [d] re True = keep re (segments (\<lambda>c. c = d) s)"
  using Split_loop_segments [of 0 s True "[d]" "\<lambda>c. c = d" re] find_full_single
  by (simp add: Split_def)

lemma Split_any: "Split s m re False = keep re (segments (\<lambda>c. c \<in> set m) s)"
  using Split_loop_segments [of 0 s False m "\<lambda>c. c \<in> set m" re]
  by (simp add: Split_def find_first_of_def)

text \<open>
  C25. The loop of \<open>Split\<close> over positions computes the segments of the string: with a delimiter of one
  character, matched as a whole, and with any set of delimiter characters, it returns the pieces
  between the delimiters in order, without the empty ones exactly if \<open>removeEmpty\<close> is set; with an empty
  delimiter matched as a whole it returns the string.
\<close>

theorem Split_is_segments:
  "Split s [d] re True = keep re (segments (\<lambda>c. c = d) s) \<and>
   Split s m re False = keep re (segments (\<lambda>c. c \<in> set m) s) \<and>
   Split s [] re True = keep re [s]"
  by (simp add: Split_single Split_any)
    (simp add: Split_def Split_loop.simps [of s "[]"] substr_to_def keep_def)

section \<open>Joined tokens\<close>

lemma Split_tokens:
  assumes "list_all (\<lambda>t. t \<noteq> [] \<and> d \<notin> set t) ts"
  shows "Split (concat (map (\<lambda>t. t @ [d]) ts)) [d] True True = ts"
  using assms
proof (induction ts)
  case Nil
  then show ?case by (simp add: Split_single keep_def)
next
  case (Cons t ts)
  then have "segments (\<lambda>c. c = d) (t @ d # concat (map (\<lambda>t. t @ [d]) ts)) =
      t # segments (\<lambda>c. c = d) (concat (map (\<lambda>t. t @ [d]) ts))"
    by (intro segments_append_delim) (auto simp: list_all_iff)
  with Cons show ?case by (simp add: Split_single keep_def)
qed

lemma Split_pair:
  assumes "a \<noteq> []" "d \<notin> set a" "b \<noteq> []" "d \<notin> set b"
  shows "Split (a @ d # b) [d] True True = [a, b]"
proof -
  have "segments (\<lambda>c. c = d) (a @ d # b) = [a, b]"
    by (subst segments_append_delim) (use assms in \<open>auto simp: list_all_iff intro!: segments_no_delim\<close>)
  with assms show ?thesis by (simp add: Split_single keep_def)
qed

lemma Split_free: "t \<in> set (Split s [d] True True) \<Longrightarrow> t \<noteq> [] \<and> d \<notin> set t"
  using segments_free [of t "\<lambda>c. c = d" s] by (auto simp: Split_single keep_def list_all_iff)

end
