(* ===== verification/Extent.thy ===== *)
theory Extent
  imports DS_Prelude
begin

text \<open>
  The extent service: \<^verbatim>\<open>extent_protocol.h\<close>, \<^verbatim>\<open>extent_server.cc\<close> and the write-back cache of
  \<^verbatim>\<open>extent_client.cc\<close>. The client reaches the server through a record of calls, one field per
  remote procedure; a reference parameter is passed in and handed back. The locale
  \<open>extent_service\<close> is the contract of these calls, provided by the model of the server. The
  step relation \<open>ext_step\<close> runs any number of clients that follow the discipline of
  \<^verbatim>\<open>extent_client.cc\<close>: operations on an extent only under its lock, and \<open>flush\<close> when the lock
  goes back.
\<close>

section \<open>Protocol\<close>

type_synonym extentid_t = u64

datatype ext_xxstatus = ext_OK | ext_RPCERR | ext_NOENT | ext_IOERR

fun ext_status :: "ext_xxstatus \<Rightarrow> int" where
  "ext_status ext_OK = 0"
| "ext_status ext_RPCERR = 1"
| "ext_status ext_NOENT = 2"
| "ext_status ext_IOERR = 3"

record attr =
  at_atime :: u32
  at_mtime :: u32
  at_ctime :: u32
  at_size :: u32

text \<open>The value-initialised element that \<open>operator[]\<close> creates.\<close>

definition attr_default :: attr where
  "attr_default = \<lparr>at_atime = 0, at_mtime = 0, at_ctime = 0, at_size = 0\<rparr>"

section \<open>Server\<close>

text \<open>\<open>now\<close> is the result of \<open>time(NULL)\<close>, converted to \<open>unsigned int\<close>.\<close>

record extent_server =
  files :: "extentid_t \<rightharpoonup> string"
  fileAttrs :: "extentid_t \<rightharpoonup> attr"

definition extent_server_init :: "u32 \<Rightarrow> extent_server" where
  "extent_server_init now =
     \<lparr>files = [1 \<mapsto> ''''],
      fileAttrs = [1 \<mapsto> \<lparr>at_atime = now, at_mtime = now, at_ctime = now, at_size = 0\<rparr>]\<rparr>"

definition es_put :: "u32 \<Rightarrow> extentid_t \<Rightarrow> string \<Rightarrow> extent_server \<Rightarrow> int \<times> extent_server" where
  "es_put now eid buf s =
     (let fa = (if files s eid = None
                then map_upd attr_default eid (\<lambda>a. a\<lparr>at_atime := now, at_ctime := now, at_mtime := now\<rparr>) (fileAttrs s)
                else map_upd attr_default eid (\<lambda>a. a\<lparr>at_ctime := now, at_mtime := now\<rparr>) (fileAttrs s));
          fa' = map_upd attr_default eid (\<lambda>a. a\<lparr>at_size := of_nat (length buf)\<rparr>) fa
      in (ext_status ext_OK, s\<lparr>files := (files s)(eid \<mapsto> buf), fileAttrs := fa'\<rparr>))"

definition es_get :: "u32 \<Rightarrow> extentid_t \<Rightarrow> string \<Rightarrow> extent_server \<Rightarrow> (int \<times> string) \<times> extent_server" where
  "es_get now eid buf s =
     (case files s eid of
        Some d \<Rightarrow> ((ext_status ext_OK, d),
                   s\<lparr>fileAttrs := map_upd attr_default eid (\<lambda>a. a\<lparr>at_atime := now\<rparr>) (fileAttrs s)\<rparr>)
      | None \<Rightarrow> ((ext_status ext_NOENT, buf), s))"

definition es_getattr :: "extentid_t \<Rightarrow> attr \<Rightarrow> extent_server \<Rightarrow> (int \<times> attr) \<times> extent_server" where
  "es_getattr eid a s =
     (case fileAttrs s eid of
        Some fa \<Rightarrow> ((ext_status ext_OK,
                     a\<lparr>at_size := at_size fa, at_atime := at_atime fa, at_mtime := at_mtime fa,
                       at_ctime := at_ctime fa\<rparr>), s)
      | None \<Rightarrow> ((ext_status ext_IOERR, a), s))"

definition es_remove :: "extentid_t \<Rightarrow> extent_server \<Rightarrow> int \<times> extent_server" where
  "es_remove eid s =
     (if files s eid \<noteq> None then
        let s' = s\<lparr>files := (files s)(eid := None)\<rparr> in
        if fileAttrs s' eid \<noteq> None
        then (ext_status ext_OK, s'\<lparr>fileAttrs := (fileAttrs s')(eid := None)\<rparr>)
        else (ext_status ext_NOENT, s')
      else (ext_status ext_NOENT, s))"

text \<open>The invariant of the server: every extent has attributes, with its size.\<close>

definition es_ok :: "extent_server \<Rightarrow> bool" where
  "es_ok s \<longleftrightarrow> (\<forall>e. map_option at_size (fileAttrs s e) = map_option (\<lambda>d. of_nat (length d)) (files s e))"

lemma es_init_ok: "es_ok (extent_server_init now)"
  by (simp add: es_ok_def extent_server_init_def)

lemma es_ok_attr:
  assumes "es_ok s" "files s e = Some d"
  obtains a where "fileAttrs s e = Some a" "at_size a = of_nat (length d)"
proof -
  have "map_option at_size (fileAttrs s e) = Some (of_nat (length d))"
    using assms by (simp add: es_ok_def)
  then show ?thesis using that by auto
qed

lemma es_put_ok: "es_ok s \<Longrightarrow> es_put now e b s = (r, s') \<Longrightarrow> es_ok s'"
  by (auto simp: es_ok_def es_put_def Let_def map_upd_def)

lemma es_get_ok:
  assumes "es_ok s" and "es_get now e b s = (r, s')"
  shows "es_ok s'"
proof (cases "files s e")
  case (Some d)
  with assms(1) obtain a where "fileAttrs s e = Some a" "at_size a = of_nat (length d)" by (rule es_ok_attr)
  with assms Some show ?thesis by (auto simp: es_ok_def es_get_def map_upd_def)
qed (use assms in \<open>simp add: es_get_def\<close>)

lemma es_remove_ok: "es_ok s \<Longrightarrow> es_remove e s = (r, s') \<Longrightarrow> es_ok s'"
  by (auto simp: es_ok_def es_remove_def Let_def split: if_splits)

section \<open>Client\<close>

record cacheFileEnt =
  fileExt :: string
  dirty :: bool

definition cacheFileEnt_default :: cacheFileEnt where
  "cacheFileEnt_default = \<lparr>fileExt = '''', dirty = False\<rparr>"

record extent_client =
  cacheFiles :: "extentid_t \<rightharpoonup> cacheFileEnt"
  cacheAttrs :: "extentid_t \<rightharpoonup> attr"

definition extent_client_init :: extent_client where
  "extent_client_init = \<lparr>cacheFiles = Map.empty, cacheAttrs = Map.empty\<rparr>"

text \<open>
  The remote procedures as the client calls them, on a state \<open>'s\<close> of the server. A call
  that fails in the RPC layer answers a status other than \<open>OK\<close> and leaves the reference
  parameter alone.
\<close>

record 's extent_rpc =
  rpc_put :: "extentid_t \<Rightarrow> string \<Rightarrow> 's \<Rightarrow> int \<times> 's"
  rpc_get :: "extentid_t \<Rightarrow> string \<Rightarrow> 's \<Rightarrow> (int \<times> string) \<times> 's"
  rpc_getattr :: "extentid_t \<Rightarrow> attr \<Rightarrow> 's \<Rightarrow> (int \<times> attr) \<times> 's"
  rpc_remove :: "extentid_t \<Rightarrow> 's \<Rightarrow> int \<times> 's"

text \<open>The four assignments that store fetched attributes.\<close>

definition ec_store_attr :: "extentid_t \<Rightarrow> attr \<Rightarrow> extent_client \<Rightarrow> extent_client" where
  "ec_store_attr eid a c =
     c\<lparr>cacheAttrs := map_upd attr_default eid
         (\<lambda>x. x\<lparr>at_atime := at_atime a, at_ctime := at_ctime a, at_mtime := at_mtime a,
                at_size := at_size a\<rparr>) (cacheAttrs c)\<rparr>"

text \<open>\<open>a0\<close> is the content of the local variable \<open>attr\<close>, which is not initialised.\<close>

definition ec_get ::
  "'s extent_rpc \<Rightarrow> u32 \<Rightarrow> attr \<Rightarrow> extentid_t \<Rightarrow> string \<Rightarrow> extent_client \<times> 's
    \<Rightarrow> (int \<times> string) \<times> extent_client \<times> 's" where
  "ec_get R now a0 eid buf cs =
     (let (c, s) = cs in
      case cacheFiles c eid of
        Some f \<Rightarrow> ((ext_status ext_OK, fileExt f),
                   c\<lparr>cacheAttrs := map_upd attr_default eid (\<lambda>a. a\<lparr>at_atime := now\<rparr>) (cacheAttrs c)\<rparr>, s)
      | None \<Rightarrow>
          let ((r1, buf), s) = rpc_get R eid buf s;
              ((ret, a), s) = rpc_getattr R eid a0 s;
              c = c\<lparr>cacheFiles := map_upd cacheFileEnt_default eid
                      (\<lambda>f. f\<lparr>fileExt := buf, dirty := False\<rparr>) (cacheFiles c)\<rparr>
          in ((ret, buf), ec_store_attr eid a c, s))"

definition ec_getattr ::
  "'s extent_rpc \<Rightarrow> extentid_t \<Rightarrow> attr \<Rightarrow> extent_client \<times> 's \<Rightarrow> (int \<times> attr) \<times> extent_client \<times> 's" where
  "ec_getattr R eid a cs =
     (let (c, s) = cs in
      case cacheAttrs c eid of
        Some ca \<Rightarrow> ((ext_status ext_OK,
                     a\<lparr>at_atime := at_atime ca, at_ctime := at_ctime ca, at_mtime := at_mtime ca,
                       at_size := at_size ca\<rparr>), c, s)
      | None \<Rightarrow>
          let ((ret, a), s) = rpc_getattr R eid a s in ((ret, a), ec_store_attr eid a c, s))"

definition ec_put ::
  "'s extent_rpc \<Rightarrow> u32 \<Rightarrow> attr \<Rightarrow> extentid_t \<Rightarrow> string \<Rightarrow> extent_client \<times> 's \<Rightarrow> int \<times> extent_client \<times> 's" where
  "ec_put R now a0 eid buf cs =
     (let (c, s) = cs;
          c = c\<lparr>cacheFiles := map_upd cacheFileEnt_default eid
                  (\<lambda>f. f\<lparr>fileExt := buf, dirty := True\<rparr>) (cacheFiles c)\<rparr>;
          len = of_nat (length buf)
      in if cacheAttrs c eid \<noteq> None then
           (ext_status ext_OK,
            c\<lparr>cacheAttrs := map_upd attr_default eid
                (\<lambda>a. a\<lparr>at_ctime := now, at_mtime := now, at_size := len\<rparr>) (cacheAttrs c)\<rparr>, s)
         else
           let ((r, a), s) = rpc_getattr R eid a0 s in
           if r = ext_status ext_OK then
             (ext_status ext_OK,
              c\<lparr>cacheAttrs := map_upd attr_default eid
                  (\<lambda>x. x\<lparr>at_atime := at_atime a, at_ctime := now, at_mtime := now, at_size := len\<rparr>)
                  (cacheAttrs c)\<rparr>, s)
           else
             (ext_status ext_OK,
              c\<lparr>cacheAttrs := map_upd attr_default eid
                  (\<lambda>x. x\<lparr>at_atime := now, at_ctime := now, at_mtime := now, at_size := len\<rparr>)
                  (cacheAttrs c)\<rparr>, s))"

definition ec_remove :: "extentid_t \<Rightarrow> extent_client \<times> 's \<Rightarrow> int \<times> extent_client \<times> 's" where
  "ec_remove eid cs =
     (let (c, s) = cs in
      (ext_status ext_OK,
       c\<lparr>cacheFiles := (cacheFiles c)(eid := None), cacheAttrs := (cacheAttrs c)(eid := None)\<rparr>, s))"

definition ec_flush :: "'s extent_rpc \<Rightarrow> extentid_t \<Rightarrow> extent_client \<times> 's \<Rightarrow> extent_client \<times> 's" where
  "ec_flush R eid cs =
     (let (c, s) = cs;
          c' = c\<lparr>cacheFiles := (cacheFiles c)(eid := None), cacheAttrs := (cacheAttrs c)(eid := None)\<rparr>
      in case cacheFiles c eid of
           Some f \<Rightarrow> if dirty f then (c', snd (rpc_put R eid (fileExt f) s)) else (c', s)
         | None \<Rightarrow>
             if cacheAttrs c eid \<noteq> None
             then (c\<lparr>cacheAttrs := (cacheAttrs c)(eid := None)\<rparr>, s)
             else (c, snd (rpc_remove R eid s)))"

section \<open>What a client presents\<close>

text \<open>
  The extent \<open>e\<close> as seen through the cache: its content and the size in the cached
  attributes; a clean copy agrees with the server's content \<open>m\<close>.
\<close>

definition presents :: "extent_client \<Rightarrow> (extentid_t \<rightharpoonup> string) \<Rightarrow> extentid_t \<Rightarrow> string \<Rightarrow> bool" where
  "presents c m e d \<longleftrightarrow>
     (case cacheFiles c e of
        Some f \<Rightarrow> fileExt f = d \<and> (\<not> dirty f \<longrightarrow> m e = Some d) \<and> cacheAttrs c e \<noteq> None
      | None \<Rightarrow> m e = Some d) \<and>
     (\<forall>a. cacheAttrs c e = Some a \<longrightarrow> at_size a = of_nat (length d))"

definition touched :: "extent_client \<Rightarrow> extentid_t \<Rightarrow> bool" where
  "touched c e \<longleftrightarrow> cacheFiles c e \<noteq> None \<or> cacheAttrs c e \<noteq> None"

definition cache_eq :: "extent_client \<Rightarrow> extent_client \<Rightarrow> extentid_t \<Rightarrow> bool" where
  "cache_eq c c' e \<longleftrightarrow> cacheFiles c' e = cacheFiles c e \<and> cacheAttrs c' e = cacheAttrs c e"

locale extent_service =
  fixes R :: "'s extent_rpc" and content :: "'s \<Rightarrow> extentid_t \<rightharpoonup> string" and ok :: "'s \<Rightarrow> bool"
  assumes put_law: "ok s \<Longrightarrow> rpc_put R e b s = (r, s') \<Longrightarrow> r = 0 \<and> ok s' \<and> content s' = (content s)(e \<mapsto> b)"
    and get_law: "ok s \<Longrightarrow> rpc_get R e b s = ((r, b'), s') \<Longrightarrow>
      ok s' \<and> content s' = content s \<and> (\<forall>d. content s e = Some d \<longrightarrow> r = 0 \<and> b' = d)"
    and getattr_law: "ok s \<Longrightarrow> rpc_getattr R e a s = ((r, a'), s') \<Longrightarrow>
      ok s' \<and> content s' = content s \<and> (\<forall>d. content s e = Some d \<longrightarrow> r = 0 \<and> at_size a' = of_nat (length d))"
    and remove_law: "ok s \<Longrightarrow> rpc_remove R e s = (r, s') \<Longrightarrow> ok s' \<and> content s' = (content s)(e := None)"
begin

lemma get_keeps:
  assumes "ok s" and "ec_get R now a0 e buf (c, s) = ((r, b), c', s')"
  shows "ok s' \<and> content s' = content s \<and> (\<forall>e'. e' \<noteq> e \<longrightarrow> cache_eq c c' e')"
proof (cases "cacheFiles c e")
  case (Some f)
  with assms show ?thesis by (auto simp: ec_get_def cache_eq_def)
next
  case None
  obtain r1 b1 s1 where 1: "rpc_get R e buf s = ((r1, b1), s1)" by (metis prod.exhaust)
  obtain r2 a2 s2 where 2: "rpc_getattr R e a0 s1 = ((r2, a2), s2)" by (metis prod.exhaust)
  from get_law [OF assms(1) 1] have ok1: "ok s1" and c1: "content s1 = content s" by auto
  from getattr_law [OF ok1 2] None assms(2) 1 2 c1 show ?thesis
    by (auto simp: ec_get_def ec_store_attr_def cache_eq_def)
qed

lemma get_presents:
  assumes "ok s" and "presents c (content s) e d" and "ec_get R now a0 e buf (c, s) = ((r, b), c', s')"
  shows "r = 0 \<and> b = d \<and> presents c' (content s') e d"
proof (cases "cacheFiles c e")
  case (Some f)
  with assms(2,3) show ?thesis by (auto simp: ec_get_def presents_def)
next
  case None
  obtain r1 b1 s1 where 1: "rpc_get R e buf s = ((r1, b1), s1)" by (metis prod.exhaust)
  obtain r2 a2 s2 where 2: "rpc_getattr R e a0 s1 = ((r2, a2), s2)" by (metis prod.exhaust)
  from None assms(2) have d: "content s e = Some d" by (simp add: presents_def)
  from get_law [OF assms(1) 1] d have ok1: "ok s1" and c1: "content s1 = content s" and b1: "b1 = d" by auto
  from getattr_law [OF ok1 2] c1 d have "content s2 = content s" "r2 = 0" "at_size a2 = of_nat (length d)"
    by auto
  with None assms(3) 1 2 b1 d show ?thesis
    by (auto simp: ec_get_def ec_store_attr_def presents_def)
qed

lemma getattr_keeps:
  assumes "ok s" and "ec_getattr R e a (c, s) = ((r, a'), c', s')"
  shows "ok s' \<and> content s' = content s \<and> (\<forall>e'. e' \<noteq> e \<longrightarrow> cache_eq c c' e')"
proof (cases "cacheAttrs c e")
  case (Some f)
  with assms show ?thesis by (auto simp: ec_getattr_def cache_eq_def)
next
  case None
  obtain r2 a2 s2 where 2: "rpc_getattr R e a s = ((r2, a2), s2)" by (metis prod.exhaust)
  from getattr_law [OF assms(1) 2] None assms(2) 2 show ?thesis
    by (auto simp: ec_getattr_def ec_store_attr_def cache_eq_def)
qed

lemma getattr_presents:
  assumes "ok s" and "presents c (content s) e d" and "ec_getattr R e a (c, s) = ((r, a'), c', s')"
  shows "r = 0 \<and> at_size a' = of_nat (length d) \<and> presents c' (content s') e d"
proof (cases "cacheAttrs c e")
  case (Some f)
  with assms(2,3) show ?thesis by (auto simp: ec_getattr_def presents_def)
next
  case None
  obtain r2 a2 s2 where 2: "rpc_getattr R e a s = ((r2, a2), s2)" by (metis prod.exhaust)
  from None assms(2) have d: "cacheFiles c e = None" "content s e = Some d"
    by (auto simp: presents_def split: option.splits)
  with getattr_law [OF assms(1) 2] None assms(3) 2 show ?thesis
    by (auto simp: ec_getattr_def ec_store_attr_def presents_def)
qed

lemma put_presents:
  assumes "ok s" and "ec_put R now a0 e buf (c, s) = (r, c', s')"
  shows "r = 0 \<and> ok s' \<and> content s' = content s \<and> presents c' (content s') e buf \<and>
         (\<forall>e'. e' \<noteq> e \<longrightarrow> cache_eq c c' e')"
proof (cases "cacheAttrs c e")
  case (Some f)
  with assms show ?thesis by (auto simp: ec_put_def presents_def cache_eq_def)
next
  case None
  obtain r2 a2 s2 where 2: "rpc_getattr R e a0 s = ((r2, a2), s2)" by (metis prod.exhaust)
  from getattr_law [OF assms(1) 2] None assms(2) 2 show ?thesis
    by (cases "r2 = 0") (auto simp: ec_put_def presents_def cache_eq_def)
qed

lemma flush_keeps:
  assumes "ok s" and "ec_flush R e (c, s) = (c', s')"
  shows "ok s' \<and> (\<forall>e'. e' \<noteq> e \<longrightarrow> content s' e' = content s e' \<and> cache_eq c c' e') \<and> \<not> touched c' e"
proof -
  obtain r2 s2 where 2: "rpc_remove R e s = (r2, s2)" by (metis prod.exhaust)
  have 1: "ok (snd (rpc_put R e b s)) \<and> content (snd (rpc_put R e b s)) = (content s)(e \<mapsto> b)" for b
    using put_law [OF assms(1), of e b] by (cases "rpc_put R e b s") simp
  from 1 remove_law [OF assms(1) 2] assms 2 show ?thesis
    by (cases "cacheFiles c e") (auto simp: ec_flush_def Let_def cache_eq_def touched_def split: if_splits)
qed

lemma flush_presents:
  assumes "ok s" and "presents c (content s) e d" and "touched c e" and "ec_flush R e (c, s) = (c', s')"
  shows "content s' e = Some d"
proof (cases "cacheFiles c e")
  case None
  with assms(2-4) show ?thesis by (auto simp: ec_flush_def Let_def presents_def touched_def)
next
  case (Some f)
  obtain r1 s1 where 1: "rpc_put R e (fileExt f) s = (r1, s1)" by (metis prod.exhaust)
  from put_law [OF assms(1) 1] Some 1 assms(2,4) show ?thesis
    by (auto simp: ec_flush_def Let_def presents_def split: if_splits)
qed

lemma flush_untouched:
  assumes "ok s" and "\<not> touched c e" and "ec_flush R e (c, s) = (c', s')"
  shows "content s' e = None"
proof -
  obtain r2 s2 where 2: "rpc_remove R e s = (r2, s2)" by (metis prod.exhaust)
  from remove_law [OF assms(1) 2] 2 assms(2,3) show ?thesis
    by (auto simp: ec_flush_def Let_def touched_def)
qed

end

section \<open>The server provides the service\<close>

definition es_rpc :: "u32 \<Rightarrow> extent_server extent_rpc" where
  "es_rpc now = \<lparr>rpc_put = es_put now, rpc_get = es_get now, rpc_getattr = es_getattr, rpc_remove = es_remove\<rparr>"

interpretation ext: extent_service "es_rpc now" files es_ok for now
proof
  show "r = 0 \<and> es_ok s' \<and> files s' = (files s)(e \<mapsto> b)"
    if "es_ok s" "rpc_put (es_rpc now) e b s = (r, s')" for s e b r s'
    using that es_put_ok by (auto simp: es_rpc_def es_put_def Let_def)
  show "es_ok s' \<and> files s' = files s \<and> (\<forall>d. files s e = Some d \<longrightarrow> r = 0 \<and> b' = d)"
    if "es_ok s" "rpc_get (es_rpc now) e b s = ((r, b'), s')" for s e b r b' s'
    using that es_get_ok by (auto simp: es_rpc_def es_get_def split: option.splits)
  show "es_ok s' \<and> files s' = files s \<and> (\<forall>d. files s e = Some d \<longrightarrow> r = 0 \<and> at_size a' = of_nat (length d))"
    if "es_ok s" "rpc_getattr (es_rpc now) e a s = ((r, a'), s')" for s e a r a' s'
    using that by (cases "files s e") (auto simp: es_rpc_def es_getattr_def split: option.splits elim: es_ok_attr)
  show "es_ok s' \<and> files s' = (files s)(e := None)"
    if "es_ok s" "rpc_remove (es_rpc now) e s = (r, s')" for s e r s'
    using that es_remove_ok [of s e r s']
    by (auto simp: es_rpc_def es_remove_def Let_def split: if_splits)
qed

section \<open>Clients under the locks\<close>

text \<open>
  \<open>holder\<close> is the client that has the lock of an extent, \<open>latest\<close> the content given by
  the last \<open>put\<close> on it. \<open>latest\<close> is forgotten when the extent is removed, or when a lock goes back
  without the extent having been touched, because \<open>flush\<close> then removes it from the server.
\<close>

record ext_sys =
  xsrv :: extent_server
  xcl :: "nat \<Rightarrow> extent_client"
  holder :: "extentid_t \<Rightarrow> nat option"
  latest :: "extentid_t \<rightharpoonup> string"

inductive ext_step :: "ext_sys \<Rightarrow> ext_sys \<Rightarrow> bool" where
  ext_acquire: "holder y e = None \<Longrightarrow> ext_step y (y\<lparr>holder := (holder y)(e := Some c)\<rparr>)"
| ext_get: "\<lbrakk>holder y e = Some c; ec_get (es_rpc now) now' a0 e buf (xcl y c, xsrv y) = (res, c', s')\<rbrakk> \<Longrightarrow>
    ext_step y (y\<lparr>xcl := (xcl y)(c := c'), xsrv := s'\<rparr>)"
| ext_getattr: "\<lbrakk>holder y e = Some c; ec_getattr (es_rpc now) e a0 (xcl y c, xsrv y) = (res, c', s')\<rbrakk> \<Longrightarrow>
    ext_step y (y\<lparr>xcl := (xcl y)(c := c'), xsrv := s'\<rparr>)"
| ext_put: "\<lbrakk>holder y e = Some c; ec_put (es_rpc now) now' a0 e buf (xcl y c, xsrv y) = (res, c', s')\<rbrakk> \<Longrightarrow>
    ext_step y (y\<lparr>xcl := (xcl y)(c := c'), xsrv := s', latest := (latest y)(e \<mapsto> buf)\<rparr>)"
| ext_remove: "\<lbrakk>holder y e = Some c; ec_remove e (xcl y c, xsrv y) = (res, c', s')\<rbrakk> \<Longrightarrow>
    ext_step y (y\<lparr>xcl := (xcl y)(c := c'), xsrv := s', latest := (latest y)(e := None)\<rparr>)"
| ext_release: "\<lbrakk>holder y e = Some c; ec_flush (es_rpc now) e (xcl y c, xsrv y) = (c', s')\<rbrakk> \<Longrightarrow>
    ext_step y (y\<lparr>xcl := (xcl y)(c := c'), xsrv := s', holder := (holder y)(e := None),
                  latest := (if touched (xcl y c) e then latest y else (latest y)(e := None))\<rparr>)"

definition ext_start :: "ext_sys \<Rightarrow> bool" where
  "ext_start y \<longleftrightarrow> (\<exists>now. y = \<lparr>xsrv = extent_server_init now, xcl = \<lambda>_. extent_client_init,
     holder = \<lambda>_. None, latest = [1 \<mapsto> '''']\<rparr>)"

text \<open>
  Coherence at one extent: only the holder of the lock caches it, and the last content
  is what the holder presents, or without a holder what the server has.
\<close>

definition coherent :: "ext_sys \<Rightarrow> extentid_t \<Rightarrow> bool" where
  "coherent y e \<longleftrightarrow>
     (\<forall>c. holder y e \<noteq> Some c \<longrightarrow> \<not> touched (xcl y c) e) \<and>
     (\<forall>d. latest y e = Some d \<longrightarrow>
        (case holder y e of None \<Rightarrow> files (xsrv y) e = Some d
         | Some c \<Rightarrow> presents (xcl y c) (files (xsrv y)) e d))"

definition ext_inv :: "ext_sys \<Rightarrow> bool" where
  "ext_inv y \<longleftrightarrow> es_ok (xsrv y) \<and> (\<forall>e. coherent y e)"

lemma cache_eqD:
  assumes "cache_eq c c' e"
  shows "touched c' e = touched c e" and "m' e = m e \<Longrightarrow> presents c' m' e d = presents c m e d"
  using assms by (simp_all add: cache_eq_def touched_def presents_def split: option.splits)

lemma coherent_other:
  assumes "coherent y e" and "cache_eq (xcl y c) c' e" and "files s' e = files (xsrv y) e"
    and "h' e = holder y e" and "l' e = latest y e"
  shows "coherent (y\<lparr>xcl := (xcl y)(c := c'), xsrv := s', holder := h', latest := l'\<rparr>) e"
proof -
  have 1: "touched (((xcl y)(c := c')) x) e = touched (xcl y x) e" for x
    using cache_eqD(1) [OF assms(2)] by simp
  have 2: "presents (((xcl y)(c := c')) x) (files s') e d = presents (xcl y x) (files (xsrv y)) e d" for x d
    using cache_eqD(2) [OF assms(2), of "files s'" "files (xsrv y)" d] assms(3) by (cases "x = c") (simp_all add: presents_def split: option.splits)
  show ?thesis
    using assms(1,3-5) 1 2 by (cases "holder y e") (simp_all add: coherent_def)
qed

lemma coherent_held:
  assumes "coherent y e" and "holder y e = Some c"
    and "\<And>d. l' e = Some d \<Longrightarrow> presents c' (files s') e d"
  shows "coherent (y\<lparr>xcl := (xcl y)(c := c'), xsrv := s', latest := l'\<rparr>) e"
  using assms by (auto simp: coherent_def)

lemma coherent_presents:
  "\<lbrakk>coherent y e; holder y e = Some c; latest y e = Some d\<rbrakk> \<Longrightarrow> presents (xcl y c) (files (xsrv y)) e d"
  by (auto simp: coherent_def)

lemma coherent_op:
  assumes "ext_inv y" and "holder y e = Some c" and "es_ok s'"
    and "\<And>e'. e' \<noteq> e \<Longrightarrow> files s' e' = files (xsrv y) e' \<and> cache_eq (xcl y c) c' e' \<and> l' e' = latest y e'"
    and "\<And>d. l' e = Some d \<Longrightarrow> presents c' (files s') e d"
  shows "ext_inv (y\<lparr>xcl := (xcl y)(c := c'), xsrv := s', latest := l'\<rparr>)"
proof -
  have "coherent (y\<lparr>xcl := (xcl y)(c := c'), xsrv := s', latest := l'\<rparr>) e'" for e'
  proof (cases "e' = e")
    case True
    with assms show ?thesis by (auto simp: ext_inv_def intro: coherent_held)
  next
    case False
    with assms(1,4) coherent_other [of y e' c c' s' "holder y" l'] show ?thesis
      by (simp add: ext_inv_def)
  qed
  with assms(3) show ?thesis by (simp add: ext_inv_def)
qed

lemma coherent_release:
  assumes "ext_inv y" and "holder y e = Some c" and f: "ec_flush (es_rpc now) e (xcl y c, xsrv y) = (c', s')"
  shows "ext_inv (y\<lparr>xcl := (xcl y)(c := c'), xsrv := s', holder := (holder y)(e := None),
                  latest := (if touched (xcl y c) e then latest y else (latest y)(e := None))\<rparr>)"
    (is "ext_inv ?z")
proof -
  have ok: "es_ok (xsrv y)" and co: "coherent y e'" for e' using assms(1) by (auto simp: ext_inv_def)
  note fk = ext.flush_keeps [OF ok f]
  have "coherent ?z e'" for e'
  proof (cases "e' = e")
    case True
    have "files s' e = Some d" if "touched (xcl y c) e" "latest y e = Some d" for d
      using ext.flush_presents [OF ok coherent_presents [OF co assms(2) that(2)] that(1) f] .
    moreover have "\<not> touched (xcl y c'') e" if "c'' \<noteq> c" for c''
      using co [of e] assms(2) that by (simp add: coherent_def)
    ultimately show ?thesis using True fk by (auto simp: coherent_def)
  next
    case False
    with co [of e'] fk show ?thesis
      by (intro coherent_other) auto
  qed
  with fk show ?thesis by (simp add: ext_inv_def)
qed

interpretation extents: step_invariant ext_start ext_step ext_inv
proof
  fix y assume "ext_start y"
  then obtain now where "y = \<lparr>xsrv = extent_server_init now, xcl = \<lambda>_. extent_client_init,
     holder = \<lambda>_. None, latest = [1 \<mapsto> '''']\<rparr>" by (auto simp: ext_start_def)
  then show "ext_inv y"
    using es_init_ok
    by (auto simp: ext_inv_def coherent_def touched_def extent_client_init_def extent_server_init_def)
next
  fix y z assume inv: "ext_inv y" and "ext_step y z"
  from inv have ok: "es_ok (xsrv y)" and co: "coherent y e" for e by (auto simp: ext_inv_def)
  from \<open>ext_step y z\<close> show "ext_inv z"
  proof cases
    case (ext_acquire e c)
    have "presents (xcl y c) (files (xsrv y)) e d" if "latest y e = Some d" for d
      using co [of e] ext_acquire(2) that by (auto simp: coherent_def touched_def presents_def)
    then have "coherent z e'" for e'
      using co [of e'] ext_acquire by (cases "e' = e"; cases "holder y e'") (auto simp: coherent_def)
    with ok ext_acquire(1) show ?thesis by (simp add: ext_inv_def)
  next
    case (ext_get e c now now' a0 buf res c' s')
    obtain r b where res: "res = (r, b)" by (cases res)
    note k = ext.get_keeps [OF ok ext_get(3) [unfolded res]]
    note p = ext.get_presents [OF ok coherent_presents [OF co ext_get(2)] ext_get(3) [unfolded res]]
    have "ext_inv (y\<lparr>xcl := (xcl y)(c := c'), xsrv := s', latest := latest y\<rparr>)"
      by (rule coherent_op [OF inv ext_get(2)]) (use k p in auto)
    with ext_get(1) show ?thesis by simp
  next
    case (ext_getattr e c now a0 res c' s')
    obtain r b where res: "res = (r, b)" by (cases res)
    note k = ext.getattr_keeps [OF ok ext_getattr(3) [unfolded res]]
    note p = ext.getattr_presents [OF ok coherent_presents [OF co ext_getattr(2)] ext_getattr(3) [unfolded res]]
    have "ext_inv (y\<lparr>xcl := (xcl y)(c := c'), xsrv := s', latest := latest y\<rparr>)"
      by (rule coherent_op [OF inv ext_getattr(2)]) (use k p in auto)
    with ext_getattr(1) show ?thesis by simp
  next
    case (ext_put e c now now' a0 buf res c' s')
    note k = ext.put_presents [OF ok ext_put(3)]
    show ?thesis unfolding ext_put(1)
      by (rule coherent_op [OF inv ext_put(2)]) (use k in auto)
  next
    case (ext_remove e c res c' s')
    show ?thesis unfolding ext_remove(1)
      by (rule coherent_op [OF inv ext_remove(2)])
        (use ext_remove(3) ok in \<open>auto simp: ec_remove_def cache_eq_def\<close>)
  next
    case (ext_release e c now c' s')
    then show ?thesis using coherent_release [OF inv] by blast
  qed
qed


text \<open>
  One client writes the extent and gives the lock back; another one takes the lock.
\<close>

definition handed_over :: ext_sys where
  "handed_over =
     (let s0 = extent_server_init 5;
          (_, c1, s1) = ec_put (es_rpc 6) 6 attr_default 9 ''data'' (extent_client_init, s0);
          (c2, s2) = ec_flush (es_rpc 7) 9 (c1, s1)
      in \<lparr>xsrv = s2, xcl = (\<lambda>_. extent_client_init)(1 := c2), holder = (\<lambda>_. None)(9 := Some 2),
          latest = [1 \<mapsto> '''', 9 \<mapsto> ''data'']\<rparr>)"

lemmas ext_reach = reach_step_eq [where init = ext_start and step = ext_step]

lemma handed_over_reachable: "reach ext_start ext_step handed_over"
proof -
  obtain r1 c1 s1 where 1: "ec_put (es_rpc 6) 6 attr_default 9 ''data'' (extent_client_init, extent_server_init 5) = (r1, c1, s1)"
    by (metis prod.exhaust)
  obtain c2 s2 where 2: "ec_flush (es_rpc 7) 9 (c1, s1) = (c2, s2)" by (metis prod.exhaust)
  have t: "touched c1 9"
    using 1 by (auto simp: ec_put_def Let_def touched_def split: prod.splits if_splits)
  let ?y0 = "\<lparr>xsrv = extent_server_init 5, xcl = \<lambda>_. extent_client_init, holder = \<lambda>_. None, latest = [1 \<mapsto> '''']\<rparr>"
  have "reach ext_start ext_step ?y0" by (rule reach_init) (auto simp: ext_start_def)
  then have "reach ext_start ext_step (?y0\<lparr>holder := (\<lambda>_. None)(9 := Some 1)\<rparr>)" (is "reach _ _ ?y1")
    by (rule ext_reach [OF _ ext_acquire [of _ 9 1]]) simp_all
  then have "reach ext_start ext_step (?y1\<lparr>xcl := (\<lambda>_. extent_client_init)(1 := c1), xsrv := s1, latest := [1 \<mapsto> '''', 9 \<mapsto> ''data'']\<rparr>)"
    (is "reach _ _ ?y2")
    by (rule ext_reach [OF _ ext_put [of ?y1 9 1 6 6 attr_default "''data''" r1 c1 s1]]) (simp_all add: 1)
  then have "reach ext_start ext_step (?y2\<lparr>xcl := (\<lambda>_. extent_client_init)(1 := c2), xsrv := s2, holder := \<lambda>_. None\<rparr>)"
    (is "reach _ _ ?y3")
    by (rule ext_reach [OF _ ext_release [of ?y2 9 1 7 c2 s2]]) (simp_all add: 2 t)
  then show ?thesis
    by (rule ext_reach [OF _ ext_acquire [of _ 9 2]]) (simp_all add: handed_over_def 1 2)
qed


text \<open>
  What a \<open>get\<close> of an extent that neither the cache nor the server has does: the status of the
  failed \<open>get\<close> is overwritten by that of \<open>getattr\<close>, so the caller sees \<open>IOERR\<close> and never
  \<open>NOENT\<close>, and an empty extent is cached: the next \<open>get\<close> succeeds with the empty string.
\<close>

lemma get_missing_cached:
  assumes "cacheFiles c e = None" and "files s e = None" and "es_ok s"
    and "ec_get (es_rpc now) t a0 e '''' (c, s) = (res, c', s')"
  shows "res = (ext_status ext_IOERR, '''') \<and>
         fst (ec_get (es_rpc now') t' a0' e buf' (c', s')) = (ext_status ext_OK, '''')"
proof -
  have "fileAttrs s e = None" using assms(2,3) by (simp add: es_ok_def) (metis option.map_disc_iff)
  with assms(1,2,4) show ?thesis
    by (auto simp: ec_get_def es_rpc_def es_get_def es_getattr_def ec_store_attr_def)
qed

text \<open>
  C37. \<open>flush\<close> of an extent that the client neither wrote nor read nor looked at since it got the lock
  removes it from the server.
\<close>

theorem flush_untouched_removes:
  assumes "es_ok s" and "\<not> touched c e"
  shows "files (snd (ec_flush (es_rpc now) e (c, s))) e = None \<and>
         fileAttrs (snd (ec_flush (es_rpc now) e (c, s))) e = None"
proof -
  obtain c' s' where f: "ec_flush (es_rpc now) e (c, s) = (c', s')" by (metis prod.exhaust)
  from ext.flush_untouched [OF assms f] have 1: "files s' e = None" .
  moreover from ext.flush_keeps [OF assms(1) f] have "es_ok s'" by simp
  ultimately have "fileAttrs s' e = None" by (simp add: es_ok_def) (metis option.map_disc_iff)
  with 1 f show ?thesis by simp
qed

theorem flush_untouched_removes_witness:
  "files (snd (ec_flush (es_rpc 3) 1 (extent_client_init, extent_server_init 0))) 1 = None"
  using flush_untouched_removes [OF es_init_ok, of extent_client_init 1 3 0]
  by (simp add: touched_def extent_client_init_def)

end
