(* ===== verification/Yfs.thy ===== *)
theory Yfs
  imports Split Text_Streams Extent
begin

text \<open>
  The file system operations of \<^verbatim>\<open>yfs_client.cc\<close> over an extent client and a lock client. The two
  objects behind \<open>ec\<close> and \<open>lc\<close> are a record of operations on a state \<open>'s\<close>; \<open>yfs_local\<close>
  instantiates it with the extent client of \<open>Extent\<close> and a lock client that flushes an extent
  when a revoked lock is released. A directory is a text of \<^verbatim>\<open>name:inum|\<close> entries. The locale
  \<open>file_store\<close> is what the operations need of the two objects; the lemmas show that the
  directory operations implement an association list of names and that the file operations
  implement byte arrays with zero filling.
\<close>

section \<open>State and types\<close>

type_synonym inum = u64

datatype yfs_xxstatus = yfs_OK | yfs_RPCERR | yfs_NOENT | yfs_IOERR | yfs_EXIST

fun yfs_status :: "yfs_xxstatus \<Rightarrow> int" where
  "yfs_status yfs_OK = 0"
| "yfs_status yfs_RPCERR = 1"
| "yfs_status yfs_NOENT = 2"
| "yfs_status yfs_IOERR = 3"
| "yfs_status yfs_EXIST = 4"

record fileinfo =
  fin_size :: u64
  fin_atime :: u64
  fin_mtime :: u64
  fin_ctime :: u64

record dirinfo =
  din_atime :: u64
  din_mtime :: u64
  din_ctime :: u64

record dirent =
  de_name :: string
  de_inum :: inum

text \<open>The operations of \<open>lc\<close> and \<open>ec\<close>; a reference parameter is passed in and handed back.\<close>

record 's yfs_env =
  y_acquire :: "inum \<Rightarrow> 's \<Rightarrow> 's"
  y_release :: "inum \<Rightarrow> 's \<Rightarrow> 's"
  y_get :: "inum \<Rightarrow> string \<Rightarrow> 's \<Rightarrow> (int \<times> string) \<times> 's"
  y_put :: "inum \<Rightarrow> string \<Rightarrow> 's \<Rightarrow> int \<times> 's"
  y_getattr :: "inum \<Rightarrow> attr \<Rightarrow> 's \<Rightarrow> (int \<times> attr) \<times> 's"
  y_remove :: "inum \<Rightarrow> 's \<Rightarrow> int \<times> 's"

section \<open>Numbers and names\<close>

text \<open>\<open>iss >> n\<close> for an \<open>unsigned long long\<close> with the old value \<open>old\<close>.\<close>

definition extract_u64 :: "u64 \<Rightarrow> string \<Rightarrow> u64" where
  "extract_u64 old n =
     (case extract_unsigned (2 ^ 64 - 1) n of (Some v, _) \<Rightarrow> of_nat v | (None, _) \<Rightarrow> old)"

text \<open>\<open>finum\<close> is not initialised; \<open>old\<close> is its content.\<close>

definition n2i :: "u64 \<Rightarrow> string \<Rightarrow> inum" where
  "n2i old n = extract_u64 old n"

definition filename :: "inum \<Rightarrow> string" where
  "filename i = print_nat (unat i)"

definition isfile :: "inum \<Rightarrow> bool" where
  "isfile i \<longleftrightarrow> i AND 0x80000000 \<noteq> 0"

definition isdir :: "inum \<Rightarrow> bool" where
  "isdir i \<longleftrightarrow> \<not> isfile i"

lemma n2i_filename: "n2i old (filename i) = i"
proof -
  have "unat i < 2 ^ 64" using unsigned_less [of i, where ?'a = nat] by simp
  then have "unat i \<le> 2 ^ 64 - 1" by simp
  then have "extract_unsigned (2 ^ 64 - 1) (print_nat (unat i) @ []) = (Some (unat i), True, [])"
    by (intro extract_print_nat) auto
  then show ?thesis by (simp add: n2i_def filename_def extract_u64_def)
qed

section \<open>Attributes\<close>

text \<open>\<open>a0\<close> is the content of the uninitialised local variable \<open>a\<close>.\<close>

definition getfile :: "'s yfs_env \<Rightarrow> attr \<Rightarrow> inum \<Rightarrow> fileinfo \<Rightarrow> 's \<Rightarrow> (int \<times> fileinfo) \<times> 's" where
  "getfile E a0 i fin s =
     (let s = y_acquire E i s;
          ((ret, a), s) = y_getattr E i a0 s;
          (r, fin) = (if ret \<noteq> ext_status ext_OK then (yfs_status yfs_IOERR, fin)
                      else (yfs_status yfs_OK,
                            fin\<lparr>fin_atime := ucast (at_atime a), fin_mtime := ucast (at_mtime a),
                                fin_ctime := ucast (at_ctime a), fin_size := ucast (at_size a)\<rparr>))
      in ((r, fin), y_release E i s))"

definition getdir :: "'s yfs_env \<Rightarrow> attr \<Rightarrow> inum \<Rightarrow> dirinfo \<Rightarrow> 's \<Rightarrow> (int \<times> dirinfo) \<times> 's" where
  "getdir E a0 i din s =
     (let s = y_acquire E i s;
          ((ret, a), s) = y_getattr E i a0 s;
          (r, din) = (if ret \<noteq> ext_status ext_OK then (yfs_status yfs_IOERR, din)
                      else (yfs_status yfs_OK,
                            din\<lparr>din_atime := ucast (at_atime a), din_mtime := ucast (at_mtime a),
                                din_ctime := ucast (at_ctime a)\<rparr>))
      in ((r, din), y_release E i s))"

section \<open>Directories\<close>

text \<open>The search loop of \<open>lookup\<close>: the value of \<open>child\<close> and \<open>found\<close>.\<close>

fun lookup_scan :: "string \<Rightarrow> string list \<Rightarrow> inum \<Rightarrow> inum \<times> bool" where
  "lookup_scan name [] child = (child, False)"
| "lookup_scan name (p # ps) child =
     (let aPair = Split p '':'' True True in
      if length aPair = 2 \<and> name = aPair ! 0 then (extract_u64 child (aPair ! 1), True)
      else lookup_scan name ps child)"

definition yfs_lookup ::
  "'s yfs_env \<Rightarrow> string \<Rightarrow> inum \<Rightarrow> inum \<Rightarrow> bool \<Rightarrow> 's \<Rightarrow> (int \<times> inum \<times> bool) \<times> 's" where
  "yfs_lookup E name parent child singleOp s =
     (let s = y_acquire E parent s;
          ((ret, cont), s) = y_get E parent '''' s
      in if ret \<noteq> ext_status ext_OK then
           ((yfs_status yfs_NOENT, child, False), y_release E parent s)
         else
           let (child, found) = lookup_scan name (Split cont ''|'' True True) child;
               s = (if singleOp then y_release E parent s else s)
           in ((yfs_status yfs_OK, child, found), s))"

definition addDirent :: "'s yfs_env \<Rightarrow> inum \<Rightarrow> inum \<Rightarrow> string \<Rightarrow> 's \<Rightarrow> int \<times> 's" where
  "addDirent E dirInum fileInum name s =
     (let s = y_acquire E fileInum s;
          ((r1, oldExt), s) = y_get E dirInum '''' s;
          (ret, s) =
            (if r1 = ext_status ext_OK then
               let newExt = oldExt @ name @ '':'' @ print_nat (unat fileInum) @ ''|'';
                   (r2, s) = y_put E dirInum newExt s
               in if r2 = ext_status ext_OK then
                    let (r3, s) = y_put E fileInum '''' s in
                    (if r3 \<noteq> ext_status ext_OK then yfs_status yfs_RPCERR else yfs_status yfs_OK, s)
                  else (yfs_status yfs_RPCERR, s)
             else (yfs_status yfs_NOENT, s));
          s = y_release E fileInum s
      in (ret, y_release E dirInum s))"

text \<open>The loop of \<open>unlink\<close> that writes the remaining entries.\<close>

fun unlink_scan :: "string \<Rightarrow> string list \<Rightarrow> string" where
  "unlink_scan name [] = ''''"
| "unlink_scan name (p # ps) =
     (let aPair = Split p '':'' True True in
      (if length aPair = 2 \<and> name \<noteq> aPair ! 0 then p @ ''|'' else '''') @ unlink_scan name ps)"

definition yfs_unlink :: "'s yfs_env \<Rightarrow> inum \<Rightarrow> inum \<Rightarrow> string \<Rightarrow> 's \<Rightarrow> int \<times> 's" where
  "yfs_unlink E dirInum fileInum name s =
     (let s = y_acquire E fileInum s;
          ((r1, dirExtent), s) = y_get E dirInum '''' s;
          (ret, s) =
            (if r1 = ext_status ext_OK then
               let (r2, s) = y_put E dirInum (unlink_scan name (Split dirExtent ''|'' True True)) s
               in if r2 = ext_status ext_OK then
                    let (r3, s) = y_remove E fileInum s in
                    (if r3 \<noteq> ext_status ext_OK then yfs_status yfs_IOERR else yfs_status yfs_OK, s)
                  else (yfs_status yfs_RPCERR, s)
             else (yfs_status yfs_NOENT, s));
          s = y_release E fileInum s
      in (ret, y_release E dirInum s))"

text \<open>
  The loop of \<open>readDir\<close>; \<open>old\<close> stands for the uninitialised \<open>inum\<close> of the local \<open>aDirent\<close>.
\<close>

fun readDir_scan :: "u64 \<Rightarrow> string list \<Rightarrow> dirent list" where
  "readDir_scan old [] = []"
| "readDir_scan old (p # ps) =
     (let aPair = Split p '':'' True True in
      (if length aPair = 2
       then [\<lparr>de_name = aPair ! 0, de_inum = extract_u64 old (aPair ! 1)\<rparr>] else []) @ readDir_scan old ps)"

definition readDir :: "'s yfs_env \<Rightarrow> u64 \<Rightarrow> inum \<Rightarrow> dirent list \<Rightarrow> 's \<Rightarrow> (int \<times> dirent list) \<times> 's" where
  "readDir E old dirInum dirents s =
     (let s = y_acquire E dirInum s;
          ((r1, cont), s) = y_get E dirInum '''' s;
          (ret, dirents) =
            (if r1 \<noteq> ext_status ext_OK then (yfs_status yfs_NOENT, dirents)
             else (yfs_status yfs_OK, dirents @ readDir_scan old (Split cont ''|'' True True)))
      in ((ret, dirents), y_release E dirInum s))"

section \<open>Files\<close>

definition nul :: char where
  "nul = CHR 0x00"

text \<open>The content that \<open>setSize\<close> writes.\<close>

definition setSize_ext :: "u32 \<Rightarrow> string \<Rightarrow> string" where
  "setSize_ext sz ext =
     (if sz = 0 then ''''
      else if unat sz \<le> length ext then take (unat sz) ext
      else ext @ replicate (unat sz - length ext) nul)"

definition setSize :: "'s yfs_env \<Rightarrow> inum \<Rightarrow> u32 \<Rightarrow> 's \<Rightarrow> int \<times> 's" where
  "setSize E ino sz s =
     (let s = y_acquire E ino s;
          ((r1, ext), s) = y_get E ino '''' s;
          (ret, s) =
            (if r1 = ext_status ext_OK then
               let (r2, s) = y_put E ino (setSize_ext sz ext) s in
               (if r2 \<noteq> ext_status ext_OK then yfs_status yfs_RPCERR else yfs_status yfs_OK, s)
             else (yfs_status yfs_NOENT, s))
      in (ret, y_release E ino s))"

definition readFile_ext :: "u32 \<Rightarrow> u32 \<Rightarrow> string \<Rightarrow> string" where
  "readFile_ext off sz ext =
     (if length ext \<le> unat off then ''''
      else if length ext - unat off < unat sz then take (length ext - unat off) (drop (unat off) ext)
      else take (unat sz) (drop (unat off) ext))"

definition readFile :: "'s yfs_env \<Rightarrow> inum \<Rightarrow> u32 \<Rightarrow> u32 \<Rightarrow> string \<Rightarrow> 's \<Rightarrow> (int \<times> string) \<times> 's" where
  "readFile E ino off sz buf s =
     (let s = y_acquire E ino s;
          ((r1, ext), s) = y_get E ino '''' s;
          (ret, buf) = (if r1 = ext_status ext_OK then (yfs_status yfs_OK, readFile_ext off sz ext)
                        else (yfs_status yfs_NOENT, buf))
      in ((ret, buf), y_release E ino s))"

text \<open>The content that \<open>writeFile\<close> writes; \<open>off + size\<close> is computed in \<open>unsigned int\<close>.\<close>

definition writeFile_ext :: "u32 \<Rightarrow> u32 \<Rightarrow> string \<Rightarrow> string \<Rightarrow> string" where
  "writeFile_ext off sz buf ext =
     (if length ext \<le> unat off then ext @ replicate (unat off - length ext) nul @ buf
      else take (unat off) ext @
        (if unat (off + sz) < length ext then buf @ drop (unat (off + sz)) ext else buf))"

definition writeFile :: "'s yfs_env \<Rightarrow> inum \<Rightarrow> u32 \<Rightarrow> u32 \<Rightarrow> string \<Rightarrow> 's \<Rightarrow> int \<times> 's" where
  "writeFile E ino off sz buf s =
     (let s = y_acquire E ino s;
          ((r1, ext), s) = y_get E ino '''' s;
          (ret, s) =
            (if r1 = ext_status ext_OK then
               let (r2, s) = y_put E ino (writeFile_ext off sz buf ext) s in
               (if r2 \<noteq> ext_status ext_OK then yfs_status yfs_RPCERR else yfs_status yfs_OK, s)
             else (yfs_status yfs_NOENT, s))
      in (ret, y_release E ino s))"

definition releaseLock :: "'s yfs_env \<Rightarrow> inum \<Rightarrow> 's \<Rightarrow> 's" where
  "releaseLock E ino s = y_release E ino s"

section \<open>The directory format\<close>

definition entry_text :: "string \<times> inum \<Rightarrow> string" where
  "entry_text p = fst p @ CHR '':'' # print_nat (unat (snd p))"

definition dir_text :: "(string \<times> inum) list \<Rightarrow> string" where
  "dir_text es = concat (map (\<lambda>p. entry_text p @ ''|'') es)"

definition valid_name :: "string \<Rightarrow> bool" where
  "valid_name n \<longleftrightarrow> n \<noteq> [] \<and> CHR '':'' \<notin> set n \<and> CHR ''|'' \<notin> set n"

abbreviation valid_entries :: "(string \<times> inum) list \<Rightarrow> bool" where
  "valid_entries es \<equiv> list_all (\<lambda>p. valid_name (fst p)) es"

lemma print_nat_no_delim: "CHR '':'' \<notin> set (print_nat n) \<and> CHR ''|'' \<notin> set (print_nat n)"
  using print_nat_digits [of "CHR '':''" n] print_nat_digits [of "CHR ''|''" n] by (auto simp: isdigit_def)

lemma Split_dir_text: "valid_entries es \<Longrightarrow> Split (dir_text es) ''|'' True True = map entry_text es"
  using Split_tokens [of "CHR ''|''" "map entry_text es"] print_nat_no_delim
  by (auto simp: dir_text_def entry_text_def valid_name_def list_all_iff comp_def)

lemma Split_entry: "valid_name (fst p) \<Longrightarrow> Split (entry_text p) '':'' True True = [fst p, filename (snd p)]"
  using Split_pair [of "fst p" "CHR '':''" "print_nat (unat (snd p))"] print_nat_no_delim
  by (auto simp: entry_text_def valid_name_def filename_def)

lemma extract_filename: "extract_u64 old (filename i) = i"
  using n2i_filename [of old i] by (simp add: n2i_def)

lemma lookup_scan_entries:
  "valid_entries es \<Longrightarrow> lookup_scan n (map entry_text es) child =
     (case map_of es n of None \<Rightarrow> (child, False) | Some i \<Rightarrow> (i, True))"
  by (induction es) (auto simp: Split_entry extract_filename)

lemma unlink_scan_entries:
  "valid_entries es \<Longrightarrow> unlink_scan n (map entry_text es) = dir_text (filter (\<lambda>p. fst p \<noteq> n) es)"
  by (induction es) (auto simp: Split_entry dir_text_def)

lemma readDir_scan_entries:
  "valid_entries es \<Longrightarrow> readDir_scan old (map entry_text es) = map (\<lambda>(n, i). \<lparr>de_name = n, de_inum = i\<rparr>) es"
  by (induction es) (auto simp: Split_entry extract_filename)

lemma dir_text_snoc: "dir_text es @ n @ '':'' @ print_nat (unat i) @ ''|'' = dir_text (es @ [(n, i)])"
  by (simp add: dir_text_def entry_text_def)

lemma lookup_scan_found:
  assumes "lookup_scan n ps child = (i, True)" and "\<forall>p\<in>set ps. CHR ''|'' \<notin> set p"
  shows "valid_name n"
  using assms
proof (induction ps)
  case (Cons p ps)
  show ?case
  proof (cases "length (Split p '':'' True True) = 2 \<and> n = Split p '':'' True True ! 0")
    case True
    then have n: "n \<in> set (Split p '':'' True True)" by auto
    moreover have "CHR ''|'' \<notin> set n"
      using Cons.prems(2) segments_subset [of n _ p] n by (auto simp: Split_single keep_def)
    ultimately show ?thesis using Split_free [OF n] by (simp add: valid_name_def)
  next
    case False
    with Cons show ?thesis by auto
  qed
qed simp

section \<open>The contract of \<open>ec\<close> and \<open>lc\<close>\<close>

text \<open>
  \<open>view\<close> is the content of the extents as the client sees it and \<open>tch\<close> the extents
  it has cached something of. Releasing a lock keeps the view of a cached extent. Between
  \<open>acquire\<close> and \<open>release\<close> nobody else changes the extent.
\<close>

locale file_store =
  fixes E :: "'s yfs_env" and view :: "'s \<Rightarrow> inum \<rightharpoonup> string" and tch :: "'s \<Rightarrow> inum \<Rightarrow> bool"
    and ok :: "'s \<Rightarrow> bool"
  assumes acquire_law: "ok s \<Longrightarrow> ok (y_acquire E l s) \<and> view (y_acquire E l s) = view s \<and> (tch s e \<longrightarrow> tch (y_acquire E l s) e)"
    and release_law: "ok s \<Longrightarrow> ok (y_release E l s) \<and> (e \<noteq> l \<or> tch s l \<longrightarrow> view (y_release E l s) e = view s e) \<and>
      (e \<noteq> l \<and> tch s e \<longrightarrow> tch (y_release E l s) e)"
    and get_law: "\<lbrakk>ok s; view s l = Some d; y_get E l b s = ((r, b'), s')\<rbrakk> \<Longrightarrow>
      r = 0 \<and> b' = d \<and> ok s' \<and> view s' = view s \<and> tch s' l \<and> (tch s e \<longrightarrow> tch s' e)"
    and put_law: "\<lbrakk>ok s; y_put E l b s = (r, s')\<rbrakk> \<Longrightarrow>
      r = 0 \<and> ok s' \<and> view s' = (view s)(l \<mapsto> b) \<and> tch s' l \<and> (tch s e \<longrightarrow> tch s' e)"
    and getattr_law: "\<lbrakk>ok s; view s l = Some d; y_getattr E l a s = ((r, a'), s')\<rbrakk> \<Longrightarrow>
      r = 0 \<and> at_size a' = of_nat (length d) \<and> ok s' \<and> view s' = view s \<and> tch s' l \<and> (tch s e \<longrightarrow> tch s' e)"
    and remove_law: "\<lbrakk>ok s; y_remove E l s = (r, s')\<rbrakk> \<Longrightarrow>
      r = 0 \<and> ok s' \<and> (e \<noteq> l \<longrightarrow> view s' e = view s e \<and> (tch s e \<longrightarrow> tch s' e))"
begin

lemma acquire_get:
  assumes "ok s" and "view s l = Some d"
  obtains s' where "y_get E l b (y_acquire E k s) = ((0, d), s')" "ok s'" "view s' = view s" "tch s' l"
proof -
  obtain r b' s' where g: "y_get E l b (y_acquire E k s) = ((r, b'), s')" by (metis prod.exhaust)
  with get_law [OF _ _ g] acquire_law [OF assms(1), of k] assms(2) show ?thesis
    by (intro that [of s']) auto
qed

lemma put_view:
  assumes "ok s"
  obtains s' where "y_put E l b s = (0, s')" "ok s'" "view s' = (view s)(l \<mapsto> b)" "tch s' l" "\<And>e. tch s e \<Longrightarrow> tch s' e"
proof -
  obtain r s' where p: "y_put E l b s = (r, s')" by (metis prod.exhaust)
  with put_law [OF assms p] show ?thesis by (intro that [of s']) auto
qed

lemma release_touched:
  assumes "ok s" and "tch s l"
  shows "ok (y_release E l s)" and "view (y_release E l s) = view s"
  using release_law [OF assms(1), of l] assms(2) by auto

lemma update_file:
  assumes "ok s" and "view s l = Some d"
  obtains s1 s2 where "y_get E l '''' (y_acquire E l s) = ((0, d), s1)" "y_put E l b s1 = (0, s2)"
    "ok (y_release E l s2)" "view (y_release E l s2) = (view s)(l \<mapsto> b)"
proof -
  obtain s1 where 1: "y_get E l '''' (y_acquire E l s) = ((0, d), s1)" "ok s1" "view s1 = view s"
    using acquire_get [OF assms] by metis
  obtain s2 where 2: "y_put E l b s1 = (0, s2)" "ok s2" "view s2 = (view s1)(l \<mapsto> b)" "tch s2 l"
    using put_view [OF 1(2)] by metis
  from 1 2 release_touched [OF 2(2,4)] show ?thesis by (intro that [of s1 s2]) auto
qed

lemma writeFile_view:
  assumes "ok s" and "view s l = Some d"
  shows "\<exists>s'. writeFile E l off sz buf s = (0, s') \<and> ok s' \<and> view s' = (view s)(l \<mapsto> writeFile_ext off sz buf d)"
  by (rule update_file [OF assms, of "writeFile_ext off sz buf d"]) (simp add: writeFile_def)

lemma setSize_view:
  assumes "ok s" and "view s l = Some d"
  shows "\<exists>s'. setSize E l sz s = (0, s') \<and> ok s' \<and> view s' = (view s)(l \<mapsto> setSize_ext sz d)"
  by (rule update_file [OF assms, of "setSize_ext sz d"]) (simp add: setSize_def)

lemma readFile_view:
  assumes "ok s" and "view s l = Some d"
  shows "\<exists>s'. readFile E l off sz buf s = ((0, readFile_ext off sz d), s') \<and> ok s' \<and> view s' = view s"
proof -
  obtain s1 where "y_get E l '''' (y_acquire E l s) = ((0, d), s1)" "ok s1" "view s1 = view s" "tch s1 l"
    using acquire_get [OF assms] by metis
  with release_touched [of s1 l] show ?thesis by (simp add: readFile_def)
qed

lemma readDir_view:
  assumes "ok s" and "view s l = Some (dir_text es)" and "valid_entries es"
  shows "\<exists>s'. readDir E old l ds s = ((0, ds @ map (\<lambda>(n, i). \<lparr>de_name = n, de_inum = i\<rparr>) es), s') \<and>
     ok s' \<and> view s' = view s"
proof -
  obtain s1 where "y_get E l '''' (y_acquire E l s) = ((0, dir_text es), s1)" "ok s1" "view s1 = view s" "tch s1 l"
    using acquire_get [OF assms(1,2)] by metis
  with release_touched [of s1 l] assms(3) show ?thesis
    by (simp add: readDir_def Split_dir_text readDir_scan_entries)
qed

lemma lookup_view:
  assumes "ok s" and "view s l = Some (dir_text es)" and "valid_entries es"
  shows "\<exists>s'. yfs_lookup E n l child so s =
      ((0, case map_of es n of None \<Rightarrow> (child, False) | Some i \<Rightarrow> (i, True)), s') \<and> ok s' \<and> view s' = view s \<and>
      (\<not> so \<longrightarrow> tch s' l)"
proof -
  obtain s1 where "y_get E l '''' (y_acquire E l s) = ((0, dir_text es), s1)" "ok s1" "view s1 = view s" "tch s1 l"
    using acquire_get [OF assms(1,2)] by metis
  with release_touched [of s1 l] assms(3) show ?thesis
    by (simp add: yfs_lookup_def Split_dir_text lookup_scan_entries split: prod.splits option.splits)
qed

lemma addDirent_view:
  assumes "ok s" and "view s l = Some (dir_text es)" and "i \<noteq> l"
  shows "\<exists>s'. addDirent E l i n s = (0, s') \<and> ok s' \<and>
      view s' = (view s)(l \<mapsto> dir_text (es @ [(n, i)]), i \<mapsto> '''')"
proof -
  obtain s1 where 1: "y_get E l '''' (y_acquire E i s) = ((0, dir_text es), s1)" "ok s1" "view s1 = view s" "tch s1 l"
    using acquire_get [OF assms(1,2)] by metis
  obtain s2 where 2: "y_put E l (dir_text (es @ [(n, i)])) s1 = (0, s2)" "ok s2"
      "view s2 = (view s1)(l \<mapsto> dir_text (es @ [(n, i)]))" "tch s2 l"
    using put_view [OF 1(2)] by metis
  obtain s3 where 3: "y_put E i '''' s2 = (0, s3)" "ok s3" "view s3 = (view s2)(i \<mapsto> '''')" "tch s3 i"
    and t: "tch s3 l" using put_view [OF 2(2), of i] 2(4) by metis
  note r = release_touched [OF 3(2,4)]
  have "tch (y_release E i s3) l" using release_law [OF 3(2), of i l] t assms(3) by simp
  note r2 = release_touched [OF r(1) this]
  have "oldExt @ n @ '':'' @ print_nat (unat i) @ ''|'' = dir_text (es @ [(n, i)])" if "oldExt = dir_text es" for oldExt
    using that dir_text_snoc by simp
  with 1 2 3 r r2 show ?thesis by (simp add: addDirent_def)
qed

lemma unlink_view:
  assumes "ok s" and "view s l = Some (dir_text es)" and "valid_entries es" and "i \<noteq> l"
  shows "\<exists>s'. yfs_unlink E l i n s = (0, s') \<and> ok s' \<and>
      view s' l = Some (dir_text (filter (\<lambda>p. fst p \<noteq> n) es)) \<and>
      (\<forall>e. e \<noteq> l \<and> e \<noteq> i \<longrightarrow> view s' e = view s e)"
proof -
  let ?d = "dir_text (filter (\<lambda>p. fst p \<noteq> n) es)"
  obtain s1 where 1: "y_get E l '''' (y_acquire E i s) = ((0, dir_text es), s1)" "ok s1" "view s1 = view s" "tch s1 l"
    using acquire_get [OF assms(1,2)] by metis
  obtain s2 where 2: "y_put E l ?d s1 = (0, s2)" "ok s2" "view s2 = (view s1)(l \<mapsto> ?d)" "tch s2 l"
    using put_view [OF 1(2)] by metis
  obtain r s3 where 3: "y_remove E i s2 = (r, s3)" by (metis prod.exhaust)
  from remove_law [OF 2(2) 3] have ok3: "r = 0" "ok s3" by auto
  have v3: "e \<noteq> i \<Longrightarrow> view s3 e = view s2 e" for e using remove_law [OF 2(2) 3] by blast
  have t3: "tch s3 l" using remove_law [OF 2(2) 3, of l] 2(4) assms(4) by simp
  have v4: "ok (y_release E i s3)" "e \<noteq> i \<Longrightarrow> view (y_release E i s3) e = view s3 e" "tch (y_release E i s3) l" for e
    using release_law [OF ok3(2)] assms(4) t3 by metis+
  note v5 = release_touched [OF v4(1,3)]
  from 1 2 3 ok3 v5 v3 v4 assms(3,4) show ?thesis
    by (simp add: yfs_unlink_def Split_dir_text unlink_scan_entries)
qed

lemma getfile_size:
  assumes "ok s" and "view s l = Some d"
  shows "\<exists>fin' s'. getfile E a0 l fin s = ((0, fin'), s') \<and> ok s' \<and> view s' = view s \<and>
     fin_size fin' = ucast (of_nat (length d) :: u32)"
proof -
  obtain r a s1 where g: "y_getattr E l a0 (y_acquire E l s) = ((r, a), s1)" by (metis prod.exhaust)
  from getattr_law [OF _ _ g] acquire_law [OF assms(1), of l] assms(2)
  have 1: "r = 0" "at_size a = of_nat (length d)" "ok s1" "view s1 = view s" "tch s1 l" by auto
  with g release_touched [OF 1(3,5)] show ?thesis by (simp add: getfile_def)
qed

end

section \<open>The operations on the extent client\<close>

text \<open>
  The state is the extent client with its server. \<open>rv\<close> are the locks that the lock server
  has asked back: releasing one flushes its extent. \<open>now\<close> is the time and \<open>a0\<close> the content of
  uninitialised attributes.
\<close>

definition yfs_local :: "(inum \<Rightarrow> bool) \<Rightarrow> u32 \<Rightarrow> attr \<Rightarrow> (extent_client \<times> extent_server) yfs_env" where
  "yfs_local rv now a0 =
     \<lparr>y_acquire = \<lambda>l s. s,
      y_release = \<lambda>l s. if rv l then ec_flush (es_rpc now) l s else s,
      y_get = ec_get (es_rpc now) now a0,
      y_put = ec_put (es_rpc now) now a0,
      y_getattr = ec_getattr (es_rpc now),
      y_remove = ec_remove\<rparr>"

definition ext_view :: "extent_client \<times> extent_server \<Rightarrow> inum \<rightharpoonup> string" where
  "ext_view x e = (case cacheFiles (fst x) e of Some f \<Rightarrow> Some (fileExt f) | None \<Rightarrow> files (snd x) e)"

definition ext_ok :: "extent_client \<times> extent_server \<Rightarrow> bool" where
  "ext_ok x \<longleftrightarrow> es_ok (snd x) \<and> (\<forall>e d. ext_view x e = Some d \<longrightarrow> presents (fst x) (files (snd x)) e d)"

lemma ext_okI:
  assumes "es_ok s'" and "presents c' (files s') l d"
    and "\<And>e. e \<noteq> l \<Longrightarrow> cache_eq c c' e \<and> files s' e = files s e" and "ext_ok (c, s)"
  shows "ext_ok (c', s') \<and> ext_view (c', s') = (ext_view (c, s))(l \<mapsto> d)"
proof -
  have l: "ext_view (c', s') l = Some d"
    using assms(2) by (auto simp: ext_view_def presents_def split: option.splits)
  have o: "ext_view (c', s') e = ext_view (c, s) e" if "e \<noteq> l" for e
    using assms(3) [OF that] by (auto simp: ext_view_def cache_eq_def split: option.split)
  have "presents c' (files s') e x" if "ext_view (c', s') e = Some x" for e x
  proof (cases "e = l")
    case True
    with l that assms(2) show ?thesis by simp
  next
    case False
    with o that assms(4) have "presents c (files s) e x" by (auto simp: ext_ok_def)
    with assms(3) [OF False] cache_eqD(2) [of c c' e "files s'" "files s" x] show ?thesis by simp
  qed
  with assms(1) l o show ?thesis by (auto simp: ext_ok_def)
qed

lemma ext_view_presents: "ext_ok (c, s) \<Longrightarrow> ext_view (c, s) e = Some d \<Longrightarrow> presents c (files s) e d"
  by (auto simp: ext_ok_def)

lemma ext_okE:
  assumes "es_ok s'" and "\<And>e. e \<noteq> l \<Longrightarrow> cache_eq c c' e \<and> files s' e = files s e" and "ext_ok (c, s)"
    and "\<not> touched c' l"
  shows "ext_ok (c', s') \<and> (e \<noteq> l \<longrightarrow> ext_view (c', s') e = ext_view (c, s) e)"
proof -
  have o: "ext_view (c', s') e = ext_view (c, s) e" if "e \<noteq> l" for e
    using assms(2) [OF that] by (auto simp: ext_view_def cache_eq_def split: option.split)
  have "presents c' (files s') e x" if "ext_view (c', s') e = Some x" for e x
  proof (cases "e = l")
    case True
    with that assms(4) show ?thesis by (simp add: ext_view_def presents_def touched_def)
  next
    case False
    with o that assms(3) have "presents c (files s) e x" by (auto simp: ext_ok_def)
    with assms(2) [OF False] cache_eqD(2) [of c c' e "files s'" "files s" x] show ?thesis by simp
  qed
  with assms(1) o show ?thesis by (auto simp: ext_ok_def)
qed

lemma release_flush:
  assumes "ext_ok (c, s)" and f: "ec_flush (es_rpc now) l (c, s) = (c', s')"
  shows "ext_ok (c', s') \<and> (e \<noteq> l \<or> touched c l \<longrightarrow> ext_view (c', s') e = ext_view (c, s) e) \<and>
         (e \<noteq> l \<and> touched c e \<longrightarrow> touched c' e)"
proof -
  have ok: "es_ok s" using assms(1) by (simp add: ext_ok_def)
  note k = ext.flush_keeps [OF ok f]
  have e: "ext_ok (c', s')" "e \<noteq> l \<Longrightarrow> ext_view (c', s') e = ext_view (c, s) e" for e
    using ext_okE [of s' l c c' s e] k assms(1) by auto
  moreover have "ext_view (c', s') l = ext_view (c, s) l" if "touched c l"
  proof (cases "ext_view (c, s) l")
    case None
    with that f have "ext_view (c', s') l = None"
      by (auto simp: ext_view_def touched_def ec_flush_def Let_def split: option.splits)
    with None show ?thesis by simp
  next
    case (Some d)
    from ext.flush_presents [OF ok ext_view_presents [OF assms(1) Some] that f] k Some
    show ?thesis by (simp add: ext_view_def touched_def)
  qed
  moreover have "touched c' e" if "e \<noteq> l" "touched c e"
    using k that cache_eqD(1) by blast
  ultimately show ?thesis by (cases "e = l") auto
qed

interpretation lfs: file_store "yfs_local rv now a0" ext_view "\<lambda>x. touched (fst x)" ext_ok for rv now a0
proof
  fix s s' :: "extent_client \<times> extent_server" and l e d b r b' a a'
  obtain c v c' v' where s: "s = (c, v)" "s' = (c', v')" by (metis prod.exhaust)
  assume ok: "ext_ok s"
  then have eok: "es_ok v" by (simp add: s ext_ok_def)
  show "ext_ok (y_acquire (yfs_local rv now a0) l s) \<and>
      ext_view (y_acquire (yfs_local rv now a0) l s) = ext_view s \<and>
      (touched (fst s) e \<longrightarrow> touched (fst (y_acquire (yfs_local rv now a0) l s)) e)"
    using ok by (simp add: yfs_local_def)
  show "ext_ok (y_release (yfs_local rv now a0) l s) \<and>
      (e \<noteq> l \<or> touched (fst s) l \<longrightarrow> ext_view (y_release (yfs_local rv now a0) l s) e = ext_view s e) \<and>
      (e \<noteq> l \<and> touched (fst s) e \<longrightarrow> touched (fst (y_release (yfs_local rv now a0) l s)) e)"
    using ok release_flush [of c v now l "fst (ec_flush (es_rpc now) l s)" "snd (ec_flush (es_rpc now) l s)" e]
    by (simp add: yfs_local_def s)
  show "r = 0 \<and> b' = d \<and> ext_ok s' \<and> ext_view s' = ext_view s \<and> touched (fst s') l \<and>
      (touched (fst s) e \<longrightarrow> touched (fst s') e)"
    if v: "ext_view s l = Some d" and g: "y_get (yfs_local rv now a0) l b s = ((r, b'), s')"
  proof -
    have g': "ec_get (es_rpc now) now a0 l b (c, v) = ((r, b'), c', v')" using g by (simp add: yfs_local_def s)
    note k = ext.get_keeps [OF eok g']
    note p = ext.get_presents [OF eok ext_view_presents [OF ok [unfolded s] v [unfolded s]] g']
    have "touched c' l" using g' by (auto simp: ec_get_def touched_def ec_store_attr_def Let_def split: option.splits prod.splits)
    then have "touched c e \<longrightarrow> touched c' e" using k cache_eqD(1) [of c c' e] by (cases "e = l") auto
    with ext_okI [of v' c' l d c v] k p ok v \<open>touched c' l\<close> show ?thesis by (auto simp: s fun_upd_idem)
  qed
  show "r = 0 \<and> ext_ok s' \<and> ext_view s' = (ext_view s)(l \<mapsto> b) \<and> touched (fst s') l \<and>
      (touched (fst s) e \<longrightarrow> touched (fst s') e)"
    if g: "y_put (yfs_local rv now a0) l b s = (r, s')"
  proof -
    have g': "ec_put (es_rpc now) now a0 l b (c, v) = (r, c', v')" using g by (simp add: yfs_local_def s)
    note k = ext.put_presents [OF eok g']
    have "touched c' l" using g' by (auto simp: ec_put_def touched_def Let_def split: prod.splits if_splits)
    then have "touched c e \<longrightarrow> touched c' e" using k cache_eqD(1) [of c c' e] by (cases "e = l") auto
    with ext_okI [of v' c' l b c v] k ok \<open>touched c' l\<close> show ?thesis by (auto simp: s)
  qed
  show "r = 0 \<and> at_size a' = of_nat (length d) \<and> ext_ok s' \<and> ext_view s' = ext_view s \<and> touched (fst s') l \<and>
      (touched (fst s) e \<longrightarrow> touched (fst s') e)"
    if v: "ext_view s l = Some d" and g: "y_getattr (yfs_local rv now a0) l a s = ((r, a'), s')"
  proof -
    have g': "ec_getattr (es_rpc now) l a (c, v) = ((r, a'), c', v')" using g by (simp add: yfs_local_def s)
    note k = ext.getattr_keeps [OF eok g']
    note p = ext.getattr_presents [OF eok ext_view_presents [OF ok [unfolded s] v [unfolded s]] g']
    have "touched c' l" using g' by (auto simp: ec_getattr_def touched_def ec_store_attr_def Let_def split: option.splits prod.splits)
    then have "touched c e \<longrightarrow> touched c' e" using k cache_eqD(1) [of c c' e] by (cases "e = l") auto
    with ext_okI [of v' c' l d c v] k p ok v \<open>touched c' l\<close> show ?thesis by (auto simp: s fun_upd_idem)
  qed
  show "r = 0 \<and> ext_ok s' \<and> (e \<noteq> l \<longrightarrow> ext_view s' e = ext_view s e \<and> (touched (fst s) e \<longrightarrow> touched (fst s') e))"
    if g: "y_remove (yfs_local rv now a0) l s = (r, s')"
  proof -
    have g': "r = 0" "c' = c\<lparr>cacheFiles := (cacheFiles c)(l := None), cacheAttrs := (cacheAttrs c)(l := None)\<rparr>" "v' = v"
      using g by (auto simp: yfs_local_def s ec_remove_def)
    then show ?thesis
      using ext_okE [of v' l c c' v e] eok ok by (auto simp: s cache_eq_def touched_def)
  qed
qed

section \<open>Correctness of the operations\<close>

lemma ext_ok_init: "ext_ok (extent_client_init, extent_server_init now)"
  using es_init_ok by (auto simp: ext_ok_def ext_view_def extent_client_init_def presents_def)

lemma ext_view_init: "ext_view (extent_client_init, extent_server_init now) = [1 \<mapsto> '''']"
  by (auto simp: ext_view_def extent_client_init_def extent_server_init_def)

text \<open>
  Directories refine association lists of names: creating a file under a name without \<open>:\<close> and \<open>|\<close> in a
  directory with the entries \<open>es\<close> succeeds, leaves the other extents alone and makes the directory hold
  \<open>es\<close> followed by the new entry; a later \<open>lookup\<close> of any name, by \<open>map_of\<close>, finds its first
  entry, and \<open>readDir\<close> lists all entries in order. Locks may be revoked at any release.
\<close>

lemma create_refines:
  assumes "ext_ok x" and "ext_view x dir = Some (dir_text es)" and "valid_entries es" and "valid_name n"
    and "i \<noteq> dir" and "addDirent (yfs_local rv now a0) dir i n x = (r, x1)"
  shows "r = yfs_status yfs_OK \<and>
         ext_view x1 = (ext_view x)(dir \<mapsto> dir_text (es @ [(n, i)]), i \<mapsto> '''') \<and>
         fst (yfs_lookup (yfs_local rv' now' a0') m dir child so x1) =
           (yfs_status yfs_OK, case map_of (es @ [(n, i)]) m of None \<Rightarrow> (child, False) | Some j \<Rightarrow> (j, True)) \<and>
         fst (readDir (yfs_local rv' now' a0') old dir [] x1) =
           (yfs_status yfs_OK, map (\<lambda>(n, i). \<lparr>de_name = n, de_inum = i\<rparr>) (es @ [(n, i)]))"
proof -
  from lfs.addDirent_view [OF assms(1,2,5), of rv now a0 n] assms(6)
  have 1: "r = 0" "ext_ok x1" "ext_view x1 = (ext_view x)(dir \<mapsto> dir_text (es @ [(n, i)]), i \<mapsto> '''')" by auto
  have 2: "ext_view x1 dir = Some (dir_text (es @ [(n, i)]))" "valid_entries (es @ [(n, i)])"
    using 1(3) assms(3-5) by auto
  from 1 lfs.lookup_view [OF 1(2) 2, of rv' now' a0' m child so] lfs.readDir_view [OF 1(2) 2, of rv' now' a0' old "[]"]
  show ?thesis by auto
qed

text \<open>
  Unlinking a name removes exactly its entries: \<open>unlink\<close> succeeds, the directory then holds the entries
  with other names in their order, so a \<open>lookup\<close> of the name fails and every other name is found
  as before; extents other than the directory and the file are left alone.
\<close>

lemma unlink_refines:
  assumes "ext_ok x" and "ext_view x dir = Some (dir_text es)" and "valid_entries es" and "i \<noteq> dir"
    and "yfs_unlink (yfs_local rv now a0) dir i n x = (r, x1)"
  shows "r = yfs_status yfs_OK \<and>
         ext_view x1 dir = Some (dir_text (filter (\<lambda>p. fst p \<noteq> n) es)) \<and>
         (\<forall>e. e \<noteq> dir \<and> e \<noteq> i \<longrightarrow> ext_view x1 e = ext_view x e) \<and>
         fst (yfs_lookup (yfs_local rv' now' a0') m dir child so x1) =
           (yfs_status yfs_OK,
            if m = n then (child, False)
            else case map_of es m of None \<Rightarrow> (child, False) | Some j \<Rightarrow> (j, True))"
proof -
  let ?es = "filter (\<lambda>p. fst p \<noteq> n) es"
  from lfs.unlink_view [OF assms(1-4), of rv now a0 n] assms(5)
  have 1: "r = 0" "ext_ok x1" "ext_view x1 dir = Some (dir_text ?es)"
    "\<forall>e. e \<noteq> dir \<and> e \<noteq> i \<longrightarrow> ext_view x1 e = ext_view x e" by auto
  have 2: "valid_entries ?es" using assms(3) by (auto simp: list_all_iff)
  have "map_of ?es m = (if m = n then None else map_of es m)" by (induction es) auto
  with 1 lfs.lookup_view [OF 1(2,3) 2, of rv' now' a0' m child so] show ?thesis by auto
qed




text \<open>The byte array that a write must leave: zeros fill a gap before the offset.\<close>

definition splice :: "nat \<Rightarrow> string \<Rightarrow> string \<Rightarrow> string" where
  "splice off buf ext =
     take off (ext @ replicate (off - length ext) nul) @ buf @ drop (off + length buf) ext"

lemma unat_add_u32: "unat (a :: u32) + unat b < 2 ^ 32 \<Longrightarrow> unat (a + b) = unat a + unat b"
  by (simp add: unat_word_ariths)

lemma writeFile_ext_splice:
  assumes "length buf = unat sz" and "unat off + unat sz < 2 ^ 32"
  shows "writeFile_ext off sz buf ext = splice (unat off) buf ext"
  using assms unat_add_u32 [of off sz] by (auto simp: writeFile_ext_def splice_def)

lemma readFile_ext_splice:
  assumes "length buf = unat sz"
  shows "readFile_ext off sz (splice (unat off) buf ext) = buf"
proof -
  have "drop (unat off) (splice (unat off) buf ext) = buf @ drop (unat off + length buf) ext"
    by (simp add: splice_def)
  moreover have "length (splice (unat off) buf ext) \<ge> unat off + length buf" by (simp add: splice_def)
  ultimately show ?thesis using assms by (cases "buf = []") (auto simp: readFile_ext_def)
qed

text \<open>
  C24. Files are byte arrays: as long as the end of the write fits an \<open>unsigned int\<close>, \<open>writeFile\<close> succeeds and
  changes the file to the reference content (the bytes before the offset, filled up with zeros, the
  written bytes, and what follows them), leaves all other extents alone, and reading the same
  range afterwards returns exactly the bytes written.
\<close>

theorem write_read:
  assumes "ext_ok x" and "ext_view x ino = Some d" and "length buf = unat sz" and "unat off + unat sz < 2 ^ 32"
    and "writeFile (yfs_local rv now a0) ino off sz buf x = (r, x1)"
  shows "r = yfs_status yfs_OK \<and>
         ext_view x1 = (ext_view x)(ino \<mapsto> splice (unat off) buf d) \<and>
         fst (readFile (yfs_local rv' now' a0') ino off sz b0 x1) = (yfs_status yfs_OK, buf)"
proof -
  from lfs.writeFile_view [OF assms(1,2), of rv now a0 off sz buf] assms(3-5)
  have 1: "r = 0" "ext_ok x1" "ext_view x1 = (ext_view x)(ino \<mapsto> splice (unat off) buf d)"
    by (auto simp: writeFile_ext_splice)
  then have "ext_view x1 ino = Some (splice (unat off) buf d)" by simp
  from lfs.readFile_view [OF 1(2) this, of rv' now' a0' off sz b0] 1 assms(3) show ?thesis
    by (auto simp: readFile_ext_splice)
qed

theorem write_read_witness:
  "fst (readFile (yfs_local (\<lambda>_. False) 2 attr_default) 1 3 2 ''''
     (snd (writeFile (yfs_local (\<lambda>_. True) 1 attr_default) 1 3 2 ''xy'' (extent_client_init, extent_server_init 0)))) = (0, ''xy'')"
proof -
  obtain r x1 where a: "writeFile (yfs_local (\<lambda>_. True) 1 attr_default) 1 3 2 ''xy''
      (extent_client_init, extent_server_init 0) = (r, x1)" by (metis prod.exhaust)
  have "ext_view (extent_client_init, extent_server_init 0) 1 = Some ''''" by (simp add: ext_view_init)
  from write_read [OF ext_ok_init this _ _ a, of "\<lambda>_. False" 2 attr_default "''''"] a show ?thesis by simp
qed

text \<open>
  Truncation and attributes: \<open>setSize\<close> succeeds, cuts the file to its first \<open>size\<close> bytes or extends it with
  zeros, and \<open>getfile\<close> reports exactly that size afterwards, from the cache or from the server.
\<close>

lemma setSize_getfile:
  assumes "ext_ok x" and "ext_view x ino = Some d" and "setSize (yfs_local rv now a0) ino sz x = (r, x1)"
  shows "r = yfs_status yfs_OK \<and>
         ext_view x1 = (ext_view x)(ino \<mapsto> take (unat sz) (d @ replicate (unat sz - length d) nul)) \<and>
         fst (fst (getfile (yfs_local rv' now' a0') a1 ino fin x1)) = yfs_status yfs_OK \<and>
         fin_size (snd (fst (getfile (yfs_local rv' now' a0') a1 ino fin x1))) = ucast sz"
proof -
  have s: "setSize_ext sz d = take (unat sz) (d @ replicate (unat sz - length d) nul)"
    by (auto simp: setSize_ext_def)
  from lfs.setSize_view [OF assms(1,2), of rv now a0 sz] assms(3)
  have 1: "r = 0" "ext_ok x1" "ext_view x1 = (ext_view x)(ino \<mapsto> setSize_ext sz d)" by auto
  then have v: "ext_view x1 ino = Some (setSize_ext sz d)" by simp
  have "length (setSize_ext sz d) = unat sz" by (simp add: s)
  then have "(of_nat (length (setSize_ext sz d)) :: u32) = sz" by simp
  with lfs.getfile_size [OF 1(2) v, of rv' now' a0' a1 fin] 1(1,3) show ?thesis
    unfolding s [symmetric] by auto
qed

end
