(* ===== verification/Fuse.thy ===== *)
theory Fuse
  imports Yfs
begin

text \<open>
  The FUSE server of \<^verbatim>\<open>fuse.cc\<close> over the operations of \<open>Yfs\<close>. A handler yields the reply that it sends. The FUSE library
  is a record of the two functions and the flag that the handlers use; the results of \<open>random\<close> are a list.
\<close>

section \<open>Replies\<close>

type_synonym fuse_ino_t = u64

definition ENOENT :: int where "ENOENT = 2"

definition EEXIST :: int where "EEXIST = 17"

definition ENOTDIR :: int where "ENOTDIR = 20"

definition ENOSYS :: int where "ENOSYS = 38"

definition S_IFREG :: u32 where "S_IFREG = 0x8000"

definition S_IFDIR :: u32 where "S_IFDIR = 0x4000"

text \<open>The members of \<open>struct stat\<close> that the code sets; \<open>bzero\<close> clears the others.\<close>

record stat =
  st_ino :: u64
  st_mode :: u32
  st_nlink :: u64
  st_atime :: u64
  st_mtime :: u64
  st_ctime :: u64
  st_size :: u64

definition stat_zero :: stat where
  "stat_zero = \<lparr>st_ino = 0, st_mode = 0, st_nlink = 0, st_atime = 0, st_mtime = 0, st_ctime = 0, st_size = 0\<rparr>"

text \<open>The timeouts are always \<open>0.0\<close>, and are kept as natural numbers.\<close>

record fuse_entry_param =
  fe_ino :: fuse_ino_t
  fe_generation :: u64
  fe_attr :: stat
  fe_attr_timeout :: nat
  fe_entry_timeout :: nat

record statvfs =
  f_namemax :: u64
  f_bsize :: u64

datatype reply =
  reply_err int
| reply_attr stat
| reply_buf string
| reply_write u64
| reply_create fuse_entry_param
| reply_entry fuse_entry_param
| reply_open
| reply_statfs statvfs

text \<open>
  The FUSE library: the bit of \<open>to_set\<close> for the size, the size of a directory entry for a name of a given length, and the bytes
  that \<open>fuse_add_dirent\<close> stores for a name, its attributes and an offset.
\<close>

record fuse_lib =
  FUSE_SET_ATTR_SIZE :: u32
  fuse_dirent_size :: "nat \<Rightarrow> nat"
  fuse_add_dirent :: "string \<Rightarrow> stat \<Rightarrow> u64 \<Rightarrow> string"

text \<open>The content of local variables that are not initialised.\<close>

record uninit =
  u_attr :: attr
  u_fileinfo :: fileinfo
  u_dirinfo :: dirinfo
  u_inum :: inum
  u_stat :: stat

section \<open>Handlers\<close>

definition getattr :: "'s yfs_env \<Rightarrow> uninit \<Rightarrow> inum \<Rightarrow> 's \<Rightarrow> (int \<times> stat) \<times> 's" where
  "getattr E u i s =
     (let st = stat_zero\<lparr>st_ino := i\<rparr> in
      if isfile i then
        let ((ret, info), s) = getfile E (u_attr u) i (u_fileinfo u) s in
        if ret \<noteq> yfs_status yfs_OK then ((ret, st), s)
        else ((yfs_status yfs_OK,
               st\<lparr>st_mode := S_IFREG OR 0x1b6, st_nlink := 1, st_atime := fin_atime info, st_mtime := fin_mtime info,
                  st_ctime := fin_ctime info, st_size := fin_size info\<rparr>), s)
      else
        let ((ret, info), s) = getdir E (u_attr u) i (u_dirinfo u) s in
        if ret \<noteq> yfs_status yfs_OK then ((ret, st), s)
        else ((yfs_status yfs_OK,
               st\<lparr>st_mode := S_IFDIR OR 0x1ff, st_nlink := 2, st_atime := din_atime info, st_mtime := din_mtime info,
                  st_ctime := din_ctime info\<rparr>), s))"

definition fuseserver_getattr :: "'s yfs_env \<Rightarrow> uninit \<Rightarrow> fuse_ino_t \<Rightarrow> 's \<Rightarrow> reply \<times> 's" where
  "fuseserver_getattr E u ino s =
     (let ((ret, st), s) = getattr E u ino s in
      if ret \<noteq> yfs_status yfs_OK then (reply_err ENOENT, s) else (reply_attr st, s))"

text \<open>\<open>size\<close> is \<open>attr->st_size\<close>, of 64 bits; \<open>setSize\<close> takes an \<open>unsigned int\<close>.\<close>

definition fuseserver_setattr ::
  "fuse_lib \<Rightarrow> 's yfs_env \<Rightarrow> uninit \<Rightarrow> fuse_ino_t \<Rightarrow> u64 \<Rightarrow> u32 \<Rightarrow> 's \<Rightarrow> reply \<times> 's" where
  "fuseserver_setattr L E u ino sz to_set s =
     (if FUSE_SET_ATTR_SIZE L AND to_set \<noteq> 0 then
        let (ret, s) = setSize E ino (ucast sz) s in
        if ret = yfs_status yfs_OK then
          let ((_, st), s) = getattr E u ino s in (reply_attr st, s)
        else (reply_err ENOENT, s)
      else (reply_err ENOSYS, s))"

definition fuseserver_read :: "'s yfs_env \<Rightarrow> fuse_ino_t \<Rightarrow> u64 \<Rightarrow> u64 \<Rightarrow> 's \<Rightarrow> reply \<times> 's" where
  "fuseserver_read E ino sz off s =
     (let ((ret, buf), s) = readFile E ino (ucast off) (ucast sz) '''' s in
      if ret = yfs_status yfs_OK then (reply_buf buf, s) else (reply_err ENOENT, s))"

definition fuseserver_write :: "'s yfs_env \<Rightarrow> fuse_ino_t \<Rightarrow> string \<Rightarrow> u64 \<Rightarrow> u64 \<Rightarrow> 's \<Rightarrow> reply \<times> 's" where
  "fuseserver_write E ino buf sz off s =
     (let str = take (unat sz) buf;
          (ret, s) = writeFile E ino (ucast off) (ucast sz) (take (unat sz) str) s in
      if ret = yfs_status yfs_OK then (reply_write sz, s) else (reply_err ENOENT, s))"

text \<open>
  The loop that draws the number of a new file or directory from the results of \<open>random\<close>; \<open>None\<close>: all of them were \<open>1\<close>,
  and the loop goes on.
\<close>

fun draw_ino :: "u64 list \<Rightarrow> u64 option" where
  "draw_ino [] = None"
| "draw_ino (r # rs) = (if r = 1 then draw_ino rs else Some r)"

definition file_ino :: "u64 \<Rightarrow> inum" where
  "file_ino r =
     (let mask = push_bit 32 1 - 1; ino = r AND mask; mask = push_bit 31 1 in ino OR mask)"

definition dir_ino :: "u64 \<Rightarrow> inum" where
  "dir_ino r = (let mask = push_bit 31 1 - 1 in r AND mask)"

definition entry_zero :: "uninit \<Rightarrow> fuse_entry_param" where
  "entry_zero u = \<lparr>fe_ino = u_inum u, fe_generation = 0, fe_attr = u_stat u, fe_attr_timeout = 0, fe_entry_timeout = 0\<rparr>"

definition fuseserver_createhelper ::
  "'s yfs_env \<Rightarrow> uninit \<Rightarrow> u64 list \<Rightarrow> fuse_ino_t \<Rightarrow> string \<Rightarrow> 's \<Rightarrow> ((int \<times> fuse_entry_param) \<times> 's) option" where
  "fuseserver_createhelper E u rs parent name s =
     (let e = entry_zero u;
          ((ret, ino, found), s) = yfs_lookup E name parent (u_inum u) False s in
      if ret = yfs_status yfs_OK then
        if found then Some ((yfs_status yfs_EXIST, e), releaseLock E parent s)
        else case draw_ino rs of
          None \<Rightarrow> None
        | Some r \<Rightarrow>
            let ino = file_ino r;
                (ret, s) = addDirent E parent ino name s in
            if ret = yfs_status yfs_OK then
              let ((_, st), s) = getattr E u ino s in
              Some ((yfs_status yfs_OK, e\<lparr>fe_ino := ino, fe_attr := st\<rparr>), s)
            else Some ((yfs_status yfs_NOENT, e), s)
      else Some ((ret, e), s))"

definition fuseserver_create ::
  "'s yfs_env \<Rightarrow> uninit \<Rightarrow> u64 list \<Rightarrow> fuse_ino_t \<Rightarrow> string \<Rightarrow> 's \<Rightarrow> (reply \<times> 's) option" where
  "fuseserver_create E u rs parent name s =
     map_option (\<lambda>((ret, e), s).
       (if ret = yfs_status yfs_OK then reply_create e
        else if ret = yfs_status yfs_EXIST then reply_err EEXIST else reply_err ENOENT, s))
     (fuseserver_createhelper E u rs parent name s)"

definition fuseserver_mknod ::
  "'s yfs_env \<Rightarrow> uninit \<Rightarrow> u64 list \<Rightarrow> fuse_ino_t \<Rightarrow> string \<Rightarrow> 's \<Rightarrow> (reply \<times> 's) option" where
  "fuseserver_mknod E u rs parent name s =
     map_option (\<lambda>((ret, e), s).
       (if ret = yfs_status yfs_OK then reply_entry e
        else if ret = yfs_status yfs_EXIST then reply_err EEXIST else reply_err ENOENT, s))
     (fuseserver_createhelper E u rs parent name s)"

definition fuseserver_lookup :: "'s yfs_env \<Rightarrow> uninit \<Rightarrow> fuse_ino_t \<Rightarrow> string \<Rightarrow> 's \<Rightarrow> reply \<times> 's" where
  "fuseserver_lookup E u parent name s =
     (let e = entry_zero u;
          ((ret, child, found), s) = yfs_lookup E name parent (u_inum u) True s in
      if ret \<noteq> yfs_status yfs_OK then (reply_err ENOENT, s)
      else if found then
        let ((_, st), s) = getattr E u child s in
        (reply_entry (e\<lparr>fe_ino := child, fe_attr := st\<rparr>), s)
      else (reply_err ENOENT, s))"

section \<open>Directories\<close>

record dirbuf =
  db_p :: string
  db_size :: u64

text \<open>The bytes that \<open>fuse_add_dirent\<close> stores extend the buffer from \<open>oldsize\<close> on.\<close>

definition dirbuf_add :: "fuse_lib \<Rightarrow> dirbuf \<Rightarrow> string \<Rightarrow> fuse_ino_t \<Rightarrow> dirbuf" where
  "dirbuf_add L b name ino =
     (let oldsize = db_size b;
          sz = db_size b + of_nat (fuse_dirent_size L (length name));
          stbuf = stat_zero\<lparr>st_ino := ino\<rparr>
      in \<lparr>db_p = take (unat oldsize) (db_p b) @ fuse_add_dirent L name stbuf sz, db_size = sz\<rparr>)"

definition reply_buf_limited :: "string \<Rightarrow> u64 \<Rightarrow> u64 \<Rightarrow> u64 \<Rightarrow> reply" where
  "reply_buf_limited buf bufsize off maxsize =
     (if off < bufsize
      then reply_buf (take (unat (if bufsize - off < maxsize then bufsize - off else maxsize)) (drop (unat off) buf))
      else reply_buf '''')"

text \<open>\<open>c_str\<close> ends at the first null character.\<close>

definition c_str :: "string \<Rightarrow> string" where
  "c_str s = takeWhile (\<lambda>c. c \<noteq> nul) s"

definition fuseserver_readdir ::
  "fuse_lib \<Rightarrow> 's yfs_env \<Rightarrow> uninit \<Rightarrow> fuse_ino_t \<Rightarrow> u64 \<Rightarrow> u64 \<Rightarrow> 's \<Rightarrow> reply \<times> 's" where
  "fuseserver_readdir L E u ino sz off s =
     (if \<not> isdir ino then (reply_err ENOTDIR, s)
      else
        let b = \<lparr>db_p = '''', db_size = 0\<rparr>;
            ((ret, dirents), s) = readDir E (u_inum u) ino [] s in
        if ret = yfs_status yfs_OK then
          let b = fold (\<lambda>d b. dirbuf_add L b (c_str (de_name d)) (de_inum d)) dirents b in
          (reply_buf_limited (db_p b) (db_size b) off sz, s)
        else (reply_err ENOENT, s))"

definition fuseserver_open :: "fuse_ino_t \<Rightarrow> 's \<Rightarrow> reply \<times> 's" where
  "fuseserver_open ino s = (reply_open, s)"

definition fuseserver_mkdir ::
  "'s yfs_env \<Rightarrow> uninit \<Rightarrow> u64 list \<Rightarrow> fuse_ino_t \<Rightarrow> string \<Rightarrow> 's \<Rightarrow> (reply \<times> 's) option" where
  "fuseserver_mkdir E u rs parent name s =
     (let e = entry_zero u;
          ((ret, ino, found), s) = yfs_lookup E name parent (u_inum u) False s in
      if ret = yfs_status yfs_OK then
        if found then Some (reply_err EEXIST, releaseLock E parent s)
        else case draw_ino rs of
          None \<Rightarrow> None
        | Some r \<Rightarrow>
            let ino = dir_ino r;
                (ret, s) = addDirent E parent ino name s in
            if ret = yfs_status yfs_OK then
              let ((_, st), s) = getattr E u ino s in
              Some (reply_entry (e\<lparr>fe_ino := ino, fe_attr := st\<rparr>), s)
            else Some (reply_err ENOSYS, s)
      else Some (reply_err ENOSYS, s))"

definition fuseserver_unlink :: "'s yfs_env \<Rightarrow> uninit \<Rightarrow> fuse_ino_t \<Rightarrow> string \<Rightarrow> 's \<Rightarrow> reply \<times> 's" where
  "fuseserver_unlink E u parent name s =
     (let ((ret, ino, found), s) = yfs_lookup E name parent (u_inum u) False s in
      if ret = yfs_status yfs_OK then
        if found then
          if \<not> isfile ino then (reply_err ENOSYS, releaseLock E parent s)
          else
            let (ret, s) = yfs_unlink E parent ino name s in
            if ret = yfs_status yfs_OK then (reply_err 0, s) else (reply_err ENOSYS, s)
        else (reply_err ENOENT, releaseLock E parent s)
      else (reply_err ENOSYS, s))"

definition fuseserver_statfs :: "'s \<Rightarrow> reply \<times> 's" where
  "fuseserver_statfs s = (reply_statfs \<lparr>f_namemax = 255, f_bsize = 512\<rparr>, s)"

section \<open>The table of operations\<close>

text \<open>A request with the arguments that the handlers use, and \<open>fuseserver_oper\<close>.\<close>

datatype fuse_op =
  op_getattr fuse_ino_t
| op_statfs
| op_readdir fuse_ino_t u64 u64
| op_lookup fuse_ino_t string
| op_create fuse_ino_t string
| op_mknod fuse_ino_t string
| op_open fuse_ino_t
| op_read fuse_ino_t u64 u64
| op_write fuse_ino_t string u64 u64
| op_setattr fuse_ino_t u64 u32
| op_unlink fuse_ino_t string
| op_mkdir fuse_ino_t string

fun fuseserver_oper :: "fuse_lib \<Rightarrow> 's yfs_env \<Rightarrow> uninit \<Rightarrow> u64 list \<Rightarrow> fuse_op \<Rightarrow> 's \<Rightarrow> (reply \<times> 's) option" where
  "fuseserver_oper L E u rs (op_getattr ino) s = Some (fuseserver_getattr E u ino s)"
| "fuseserver_oper L E u rs op_statfs s = Some (fuseserver_statfs s)"
| "fuseserver_oper L E u rs (op_readdir ino sz off) s = Some (fuseserver_readdir L E u ino sz off s)"
| "fuseserver_oper L E u rs (op_lookup parent name) s = Some (fuseserver_lookup E u parent name s)"
| "fuseserver_oper L E u rs (op_create parent name) s = fuseserver_create E u rs parent name s"
| "fuseserver_oper L E u rs (op_mknod parent name) s = fuseserver_mknod E u rs parent name s"
| "fuseserver_oper L E u rs (op_open ino) s = Some (fuseserver_open ino s)"
| "fuseserver_oper L E u rs (op_read ino sz off) s = Some (fuseserver_read E ino sz off s)"
| "fuseserver_oper L E u rs (op_write ino buf sz off) s = Some (fuseserver_write E ino buf sz off s)"
| "fuseserver_oper L E u rs (op_setattr ino sz to_set) s = Some (fuseserver_setattr L E u ino sz to_set s)"
| "fuseserver_oper L E u rs (op_unlink parent name) s = Some (fuseserver_unlink E u parent name s)"
| "fuseserver_oper L E u rs (op_mkdir parent name) s = fuseserver_mkdir E u rs parent name s"

section \<open>Numbers\<close>

lemma isfile_file_ino: "isfile (file_ino r)"
proof -
  have "bit (file_ino r AND 0x80000000) 31"
    by (simp add: file_ino_def Let_def bit_simps)
  then show ?thesis unfolding isfile_def by (metis bit_0_eq bot_fun_def bot_bool_def)
qed

lemma isdir_dir_ino: "isdir (dir_ino r)"
proof -
  have "(push_bit 31 1 - 1 :: u64) AND 0x80000000 = 0" by simp
  then show ?thesis by (simp add: isdir_def isfile_def dir_ino_def Let_def and.assoc)
qed

definition drawn :: "u64 list \<Rightarrow> u64" where
  "drawn rs = (case draw_ino rs of Some r \<Rightarrow> r | None \<Rightarrow> 0)"

lemma draw_ino_None: "draw_ino rs = None \<longleftrightarrow> set rs \<subseteq> {1}"
  by (induction rs) auto

lemma ucast_u32: "unat (x :: u64) < 2 ^ 32 \<Longrightarrow> unat (ucast x :: u32) = unat x"
  by (simp add: unsigned_ucast_eq take_bit_nat_eq_self)

text \<open>An instance of the library and of uninitialised memory.\<close>

definition demo_lib :: fuse_lib where
  "demo_lib = \<lparr>FUSE_SET_ATTR_SIZE = 8, fuse_dirent_size = \<lambda>n. 24 + n, fuse_add_dirent = \<lambda>n st k. replicate 24 nul @ n\<rparr>"

definition demo_uninit :: uninit where
  "demo_uninit = \<lparr>u_attr = attr_default, u_fileinfo = \<lparr>fin_size = 0, fin_atime = 0, fin_mtime = 0, fin_ctime = 0\<rparr>,
     u_dirinfo = \<lparr>din_atime = 0, din_mtime = 0, din_ctime = 0\<rparr>, u_inum = 0, u_stat = stat_zero\<rparr>"

end
