(* ===== verification/Fuse_Tree.thy ===== *)
theory Fuse_Tree
  imports Fuse
begin

text \<open>
  The FUSE server implements a file system. \<open>fs_op\<close> is an abstract file system of byte arrays and association lists; \<open>fs_ok\<close>
  are its well-formed states, which form a tree. The lemmas of the locale \<open>file_store\<close> show for every handler that it
  simulates \<open>fs_op\<close>; the properties follow for sequences of requests on the extent client and server.
\<close>

section \<open>An abstract file system\<close>

text \<open>Files are byte arrays; directories are association lists.\<close>

datatype fs_node = FileNode string | DirNode "(string \<times> inum) list"

type_synonym fs = "inum \<rightharpoonup> fs_node"

fun node_text :: "fs_node \<Rightarrow> string" where
  "node_text (FileNode d) = d"
| "node_text (DirNode es) = dir_text es"

fun node_stat :: "inum \<Rightarrow> fs_node \<Rightarrow> stat" where
  "node_stat i (FileNode d) =
     stat_zero\<lparr>st_ino := i, st_mode := S_IFREG OR 0x1b6, st_nlink := 1, st_size := of_nat (length d)\<rparr>"
| "node_stat i (DirNode es) = stat_zero\<lparr>st_ino := i, st_mode := S_IFDIR OR 0x1ff, st_nlink := 2\<rparr>"

definition node_entry :: "inum \<Rightarrow> fs_node \<Rightarrow> fuse_entry_param" where
  "node_entry i nd =
     \<lparr>fe_ino = i, fe_generation = 0, fe_attr = node_stat i nd, fe_attr_timeout = 0, fe_entry_timeout = 0\<rparr>"

fun listing :: "fuse_lib \<Rightarrow> nat \<Rightarrow> (string \<times> inum) list \<Rightarrow> string" where
  "listing L k [] = ''''"
| "listing L k ((n, i) # es) =
     (let k' = k + fuse_dirent_size L (length n) in
      fuse_add_dirent L n (stat_zero\<lparr>st_ino := i\<rparr>) (of_nat k') @ listing L k' es)"

text \<open>Adding a name; \<open>mk\<close> is the reply for a success.\<close>

definition fs_add :: "(fuse_entry_param \<Rightarrow> reply) \<Rightarrow> inum \<Rightarrow> string \<Rightarrow> inum \<Rightarrow> fs_node \<Rightarrow> fs \<Rightarrow> reply \<times> fs" where
  "fs_add mk p n i nd fs =
     (case fs p of
        Some (DirNode es) \<Rightarrow>
          if map_of es n \<noteq> None then (reply_err EEXIST, fs)
          else (mk (node_entry i nd), fs(p \<mapsto> DirNode (es @ [(n, i)]), i \<mapsto> nd))
      | _ \<Rightarrow> (reply_err ENOTDIR, fs))"

definition resize :: "nat \<Rightarrow> string \<Rightarrow> string" where
  "resize k d = take k (d @ replicate (k - length d) nul)"

text \<open>\<open>r\<close> is the random number for a new node.\<close>

fun fs_op :: "fuse_lib \<Rightarrow> u64 \<Rightarrow> fuse_op \<Rightarrow> fs \<Rightarrow> reply \<times> fs" where
  "fs_op L r (op_getattr i) fs =
     (case fs i of Some nd \<Rightarrow> (reply_attr (node_stat i nd), fs) | None \<Rightarrow> (reply_err ENOENT, fs))"
| "fs_op L r op_statfs fs = (reply_statfs \<lparr>f_namemax = 255, f_bsize = 512\<rparr>, fs)"
| "fs_op L r (op_readdir i sz off) fs =
     (case fs i of
        Some (DirNode es) \<Rightarrow> (reply_buf (take (unat sz) (drop (unat off) (listing L 0 es))), fs)
      | _ \<Rightarrow> (reply_err ENOTDIR, fs))"
| "fs_op L r (op_lookup p n) fs =
     (case fs p of
        Some (DirNode es) \<Rightarrow>
          (case map_of es n of
             Some i \<Rightarrow> (case fs i of Some nd \<Rightarrow> (reply_entry (node_entry i nd), fs) | None \<Rightarrow> (reply_err ENOENT, fs))
           | None \<Rightarrow> (reply_err ENOENT, fs))
      | _ \<Rightarrow> (reply_err ENOTDIR, fs))"
| "fs_op L r (op_create p n) fs = fs_add reply_create p n (file_ino r) (FileNode '''') fs"
| "fs_op L r (op_mknod p n) fs = fs_add reply_entry p n (file_ino r) (FileNode '''') fs"
| "fs_op L r (op_open i) fs = (reply_open, fs)"
| "fs_op L r (op_read i sz off) fs =
     (case fs i of
        Some (FileNode d) \<Rightarrow> (reply_buf (take (unat sz) (drop (unat off) d)), fs)
      | _ \<Rightarrow> (reply_err ENOENT, fs))"
| "fs_op L r (op_write i buf sz off) fs =
     (case fs i of
        Some (FileNode d) \<Rightarrow> (reply_write sz, fs(i \<mapsto> FileNode (splice (unat off) buf d)))
      | _ \<Rightarrow> (reply_err ENOENT, fs))"
| "fs_op L r (op_setattr i sz to_set) fs =
     (if FUSE_SET_ATTR_SIZE L AND to_set = 0 then (reply_err ENOSYS, fs)
      else case fs i of
        Some (FileNode d) \<Rightarrow>
          (reply_attr (node_stat i (FileNode (resize (unat sz) d))), fs(i \<mapsto> FileNode (resize (unat sz) d)))
      | _ \<Rightarrow> (reply_err ENOENT, fs))"
| "fs_op L r (op_unlink p n) fs =
     (case fs p of
        Some (DirNode es) \<Rightarrow>
          (case map_of es n of
             Some i \<Rightarrow>
               (case fs i of
                  Some (FileNode d) \<Rightarrow> (reply_err 0, fs(p \<mapsto> DirNode (filter (\<lambda>q. fst q \<noteq> n) es), i := None))
                | _ \<Rightarrow> (reply_err ENOSYS, fs))
           | None \<Rightarrow> (reply_err ENOENT, fs))
      | _ \<Rightarrow> (reply_err ENOTDIR, fs))"
| "fs_op L r (op_mkdir p n) fs = fs_add reply_entry p n (dir_ino r) (DirNode []) fs"

text \<open>Replies up to the times in attributes.\<close>

definition no_times :: "stat \<Rightarrow> stat" where
  "no_times st = st\<lparr>st_atime := 0, st_mtime := 0, st_ctime := 0\<rparr>"

fun timeless :: "reply \<Rightarrow> reply" where
  "timeless (reply_attr st) = reply_attr (no_times st)"
| "timeless (reply_create e) = reply_create (e\<lparr>fe_attr := no_times (fe_attr e)\<rparr>)"
| "timeless (reply_entry e) = reply_entry (e\<lparr>fe_attr := no_times (fe_attr e)\<rparr>)"
| "timeless r = r"

section \<open>Well-formed file systems\<close>

definition good_name :: "string \<Rightarrow> bool" where
  "good_name n \<longleftrightarrow> valid_name n \<and> nul \<notin> set n"

fun node_ok :: "inum \<Rightarrow> fs_node \<Rightarrow> bool" where
  "node_ok i (FileNode d) \<longleftrightarrow> isfile i \<and> length d < 2 ^ 32"
| "node_ok i (DirNode es) \<longleftrightarrow> isdir i \<and> distinct (map fst es) \<and> list_all (\<lambda>p. good_name (fst p)) es"

definition fs_entry :: "fs \<Rightarrow> inum \<Rightarrow> string \<Rightarrow> inum \<Rightarrow> bool" where
  "fs_entry fs d n i \<longleftrightarrow> (\<exists>es. fs d = Some (DirNode es) \<and> (n, i) \<in> set es)"

text \<open>The nodes below the root.\<close>

inductive linked :: "fs \<Rightarrow> inum \<Rightarrow> bool" for fs where
  linked_root: "linked fs 1"
| linked_entry: "\<lbrakk>linked fs d; fs_entry fs d n i\<rbrakk> \<Longrightarrow> linked fs i"

text \<open>
  Numbers tell files from directories; names in a directory are distinct; an entry names an existing node other than the root; no
  node has two names; all nodes are below the root.
\<close>

definition fs_ok :: "fs \<Rightarrow> bool" where
  "fs_ok fs \<longleftrightarrow>
     (\<forall>i nd. fs i = Some nd \<longrightarrow> node_ok i nd \<and> linked fs i) \<and> 1 \<in> dom fs \<and>
     (\<forall>d n i. fs_entry fs d n i \<longrightarrow> i \<in> dom fs \<and> i \<noteq> 1) \<and>
     (\<forall>d n d' n' i. fs_entry fs d n i \<and> fs_entry fs d' n' i \<longrightarrow> d = d' \<and> n = n')"

definition represents :: "fs \<Rightarrow> (inum \<rightharpoonup> string) \<Rightarrow> bool" where
  "represents fs v \<longleftrightarrow> (\<forall>i nd. fs i = Some nd \<longrightarrow> v i = Some (node_text nd))"

text \<open>
  The requests that the kernel sends: on nodes that exist and of the type of the operation. Offsets and sizes are below
  \<open>2 ^ 32\<close>, names have no delimiter, and the number drawn for a new node is not in use.
\<close>

definition unused :: "(u64 \<Rightarrow> inum) \<Rightarrow> u64 list \<Rightarrow> fs \<Rightarrow> bool" where
  "unused mk rs fs = (case draw_ino rs of None \<Rightarrow> False | Some r \<Rightarrow> fs (mk r) = None)"

definition is_DirNode :: "fs \<Rightarrow> inum \<Rightarrow> bool" where
  "is_DirNode fs i = (case fs i of Some (DirNode es) \<Rightarrow> True | _ \<Rightarrow> False)"

definition is_FileNode :: "fs \<Rightarrow> inum \<Rightarrow> bool" where
  "is_FileNode fs i = (case fs i of Some (FileNode d) \<Rightarrow> True | _ \<Rightarrow> False)"

fun op_ok :: "fuse_lib \<Rightarrow> u64 list \<Rightarrow> fs \<Rightarrow> fuse_op \<Rightarrow> bool" where
  "op_ok L rs fs (op_getattr i) \<longleftrightarrow> fs i \<noteq> None"
| "op_ok L rs fs op_statfs \<longleftrightarrow> True"
| "op_ok L rs fs (op_readdir i sz off) \<longleftrightarrow>
     (case fs i of Some (DirNode es) \<Rightarrow> length (listing L 0 es) < 2 ^ 64 | Some (FileNode d) \<Rightarrow> True | None \<Rightarrow> False)"
| "op_ok L rs fs (op_lookup p n) \<longleftrightarrow> is_DirNode fs p"
| "op_ok L rs fs (op_create p n) \<longleftrightarrow> is_DirNode fs p \<and> good_name n \<and> unused file_ino rs fs"
| "op_ok L rs fs (op_mknod p n) \<longleftrightarrow> is_DirNode fs p \<and> good_name n \<and> unused file_ino rs fs"
| "op_ok L rs fs (op_open i) \<longleftrightarrow> True"
| "op_ok L rs fs (op_read i sz off) \<longleftrightarrow> is_FileNode fs i \<and> unat sz < 2 ^ 32 \<and> unat off < 2 ^ 32"
| "op_ok L rs fs (op_write i buf sz off) \<longleftrightarrow> is_FileNode fs i \<and> length buf = unat sz \<and> unat off + unat sz < 2 ^ 32"
| "op_ok L rs fs (op_setattr i sz to_set) \<longleftrightarrow> is_FileNode fs i \<and> unat sz < 2 ^ 32"
| "op_ok L rs fs (op_unlink p n) \<longleftrightarrow> is_DirNode fs p"
| "op_ok L rs fs (op_mkdir p n) \<longleftrightarrow> is_DirNode fs p \<and> good_name n \<and> unused dir_ino rs fs"

text \<open>What \<open>fuse_add_dirent\<close> promises.\<close>

definition lib_ok :: "fuse_lib \<Rightarrow> bool" where
  "lib_ok L \<longleftrightarrow> (\<forall>n st k. length (fuse_add_dirent L n st k) = fuse_dirent_size L (length n))"

section \<open>Operations keep file systems well-formed\<close>

lemma linked_mono:
  assumes "linked fs i" and "\<And>d n i. fs_entry fs d n i \<Longrightarrow> fs_entry fs' d n i"
  shows "linked fs' i"
  using assms(1) by induction (auto intro: linked.intros assms(2))

lemma fs_okD:
  assumes "fs_ok fs"
  shows "fs i = Some nd \<Longrightarrow> node_ok i nd \<and> linked fs i" and "1 \<in> dom fs"
    and "fs_entry fs d n i \<Longrightarrow> i \<in> dom fs \<and> i \<noteq> 1"
    and "\<lbrakk>fs_entry fs d n i; fs_entry fs d' n' i\<rbrakk> \<Longrightarrow> d = d' \<and> n = n'"
  using assms unfolding fs_ok_def by blast+

lemma fs_okI:
  assumes "\<And>i nd. fs i = Some nd \<Longrightarrow> node_ok i nd" and "\<And>i nd. fs i = Some nd \<Longrightarrow> linked fs i" and "1 \<in> dom fs"
    and "\<And>d n i. fs_entry fs d n i \<Longrightarrow> i \<in> dom fs \<and> i \<noteq> 1"
    and "\<And>d n d' n' i. \<lbrakk>fs_entry fs d n i; fs_entry fs d' n' i\<rbrakk> \<Longrightarrow> d = d' \<and> n = n'"
  shows "fs_ok fs"
  unfolding fs_ok_def using assms by blast

lemma fs_ok_file:
  assumes ok: "fs_ok fs" and f: "fs i = Some (FileNode d)" and l: "length d' < 2 ^ 32"
  shows "fs_ok (fs(i \<mapsto> FileNode d'))"
proof -
  have e: "fs_entry (fs(i \<mapsto> FileNode d')) = fs_entry fs" using f by (auto simp: fs_entry_def fun_eq_iff)
  have k: "linked (fs(i \<mapsto> FileNode d')) j" if "linked fs j" for j by (rule linked_mono [OF that]) (simp add: e)
  show ?thesis
  proof (rule fs_okI)
    fix j nd assume a: "(fs(i \<mapsto> FileNode d')) j = Some nd"
    show "node_ok j nd" using a fs_okD(1) [OF ok f] fs_okD(1) [OF ok, of j nd] l by (auto split: if_splits)
    show "linked (fs(i \<mapsto> FileNode d')) j" using a fs_okD(1) [OF ok] f by (intro k) (auto split: if_splits)
  next
    show "1 \<in> dom (fs(i \<mapsto> FileNode d'))" using fs_okD(2) [OF ok] by auto
  next
    fix d n j assume "fs_entry (fs(i \<mapsto> FileNode d')) d n j"
    then show "j \<in> dom (fs(i \<mapsto> FileNode d')) \<and> j \<noteq> 1" using fs_okD(3) [OF ok, of d n j] by (auto simp: e)
  next
    fix c n c' n' j assume "fs_entry (fs(i \<mapsto> FileNode d')) c n j" "fs_entry (fs(i \<mapsto> FileNode d')) c' n' j"
    then show "c = c' \<and> n = n'" using fs_okD(4) [OF ok] unfolding e by blast
  qed
qed

lemma fs_ok_file_entry:
  assumes "fs_ok fs" and "fs d = Some (DirNode es)" and "map_of es n = Some i"
  shows "i \<in> dom fs \<and> i \<noteq> 1"
  using fs_okD(3) [OF assms(1), of d n i] assms(2) map_of_SomeD [OF assms(3)] by (auto simp: fs_entry_def)

lemma fs_ok_add:
  assumes ok: "fs_ok fs" and p: "fs p = Some (DirNode es)" and n: "map_of es n = None" "good_name n"
    and i: "fs i = None" and nd: "node_ok i nd" "nd = FileNode '''' \<or> nd = DirNode []"
  shows "fs_ok (fs(p \<mapsto> DirNode (es @ [(n, i)]), i \<mapsto> nd))"
proof -
  let ?f = "fs(p \<mapsto> DirNode (es @ [(n, i)]), i \<mapsto> nd)"
  have pi: "p \<noteq> i" using p i by auto
  have e: "fs_entry ?f d m j \<longleftrightarrow> fs_entry fs d m j \<or> d = p \<and> m = n \<and> j = i" for d m j
    using p i nd(2) by (auto simp: fs_entry_def)
  have k: "linked ?f j" if "linked fs j" for j by (rule linked_mono [OF that]) (simp add: e)
  have "linked ?f p" using fs_okD(1) [OF ok p] k by blast
  then have ki: "linked ?f i" by (rule linked_entry) (use e in blast)
  have i1: "i \<noteq> 1" using fs_okD(2) [OF ok] i by auto
  have ni: "\<not> fs_entry fs d m i" for d m using fs_okD(3) [OF ok, of d m i] i by auto
  have np: "node_ok p (DirNode (es @ [(n, i)]))" using fs_okD(1) [OF ok p] n by (auto simp: map_of_eq_None_iff)
  show ?thesis
  proof (rule fs_okI)
    fix j nd' assume a: "?f j = Some nd'"
    show "node_ok j nd'" using a np nd(1) fs_okD(1) [OF ok, of j nd'] by (auto split: if_splits)
    show "linked ?f j" using a ki k fs_okD(1) [OF ok, of j] p by (cases "j = i") (auto split: if_splits)
  next
    show "1 \<in> dom ?f" using fs_okD(2) [OF ok] by auto
  next
    fix d m j assume "fs_entry ?f d m j"
    then show "j \<in> dom ?f \<and> j \<noteq> 1" using fs_okD(3) [OF ok, of d m j] i1 by (auto simp: e)
  next
    fix d m d' m' j assume "fs_entry ?f d m j" "fs_entry ?f d' m' j"
    then show "d = d' \<and> m = m'" using fs_okD(4) [OF ok, of d m j d' m'] ni unfolding e by blast
  qed
qed

lemma fs_ok_unlink:
  assumes ok: "fs_ok fs" and p: "fs p = Some (DirNode es)" and n: "map_of es n = Some i" and i: "fs i = Some (FileNode d)"
  shows "fs_ok (fs(p \<mapsto> DirNode (filter (\<lambda>q. fst q \<noteq> n) es), i := None))"
proof -
  let ?f = "fs(p \<mapsto> DirNode (filter (\<lambda>q. fst q \<noteq> n) es), i := None)"
  have pi: "p \<noteq> i" using p i by auto
  have e: "fs_entry ?f c m j \<longleftrightarrow> fs_entry fs c m j \<and> \<not> (c = p \<and> m = n)" for c m j
    using p i by (auto simp: fs_entry_def)
  have ei: "fs_entry fs p n i" using p map_of_SomeD [OF n] by (auto simp: fs_entry_def)
  have k: "j = i \<or> linked ?f j" if "linked fs j" for j
    using that
  proof induction
    case linked_root
    show ?case by (simp add: linked.linked_root)
  next
    case (linked_entry c m j)
    have "c \<noteq> i" using linked_entry.hyps(2) i by (auto simp: fs_entry_def)
    moreover have "j = i" if "c = p" "m = n"
    proof -
      have "distinct (map fst es)" using fs_okD(1) [OF ok p] by simp
      moreover have "(n, j) \<in> set es" using linked_entry.hyps(2) that p by (auto simp: fs_entry_def)
      ultimately show ?thesis using n by simp
    qed
    ultimately show ?case using linked_entry e linked.linked_entry [of ?f c m j] by blast
  qed
  have i1: "i \<noteq> 1" using fs_okD(3) [OF ok ei] by simp
  show ?thesis
  proof (rule fs_okI)
    fix j nd assume a: "?f j = Some nd"
    show "node_ok j nd"
      using a fs_okD(1) [OF ok p] fs_okD(1) [OF ok, of j nd] by (auto simp: list_all_iff distinct_map_filter split: if_splits)
    show "linked ?f j" using a k [of j] fs_okD(1) [OF ok, of j] p by (cases "j = p") (auto split: if_splits)
  next
    show "1 \<in> dom ?f" using fs_okD(2) [OF ok] i1 by auto
  next
    fix c m j assume a: "fs_entry ?f c m j"
    then have "j \<noteq> i" using fs_okD(4) [OF ok ei, of c m] unfolding e by blast
    then show "j \<in> dom ?f \<and> j \<noteq> 1" using a fs_okD(3) [OF ok, of c m j] by (auto simp: e)
  next
    fix c m c' m' j assume "fs_entry ?f c m j" "fs_entry ?f c' m' j"
    then show "c = c' \<and> m = m'" using fs_okD(4) [OF ok, of c m j c' m'] unfolding e by blast
  qed
qed

section \<open>Listings\<close>

lemma unat_of_nat_u64: "n < 2 ^ 64 \<Longrightarrow> unat (of_nat n :: u64) = n"
  by (simp add: unsigned_of_nat take_bit_nat_eq_self)

lemma listing_dirbuf:
  assumes "lib_ok L" and "list_all (\<lambda>p. good_name (fst p)) es" and "length acc + length (listing L (length acc) es) < 2 ^ 64"
  shows "fold (\<lambda>d b. dirbuf_add L b (c_str (de_name d)) (de_inum d)) (map (\<lambda>(n, i). \<lparr>de_name = n, de_inum = i\<rparr>) es)
           \<lparr>db_p = acc, db_size = of_nat (length acc)\<rparr> =
         \<lparr>db_p = acc @ listing L (length acc) es, db_size = of_nat (length acc + length (listing L (length acc) es))\<rparr>"
  using assms(2,3)
proof (induction es arbitrary: acc)
  case (Cons p es)
  obtain n i where p: "p = (n, i)" by (cases p)
  let ?k = "length acc + fuse_dirent_size L (length n)"
  let ?acc = "acc @ fuse_add_dirent L n (stat_zero\<lparr>st_ino := i\<rparr>) (of_nat ?k)"
  have lib: "length (fuse_add_dirent L m st k) = fuse_dirent_size L (length m)" for m st k
    using assms(1) by (simp add: lib_ok_def)
  have len: "length ?acc = ?k" by (simp add: lib)
  have "c_str n = n" using Cons.prems(1) p by (auto simp: c_str_def good_name_def takeWhile_eq_all_conv)
  moreover have "length acc < 2 ^ 64" using Cons.prems(2) by linarith
  ultimately have "dirbuf_add L \<lparr>db_p = acc, db_size = of_nat (length acc)\<rparr> (c_str n) i =
      \<lparr>db_p = ?acc, db_size = of_nat (length ?acc)\<rparr>"
    by (simp add: dirbuf_add_def Let_def lib unat_of_nat_u64)
  moreover have l: "listing L (length acc) (p # es) = fuse_add_dirent L n (stat_zero\<lparr>st_ino := i\<rparr>) (of_nat ?k) @ listing L ?k es"
    by (simp add: p Let_def)
  moreover have "length ?acc + length (listing L (length ?acc) es) < 2 ^ 64"
    using Cons.prems(2) unfolding l len by (simp add: lib)
  ultimately show ?case using Cons.IH [of ?acc] Cons.prems(1) by (simp add: p lib Let_def add.assoc)
qed simp

lemma reply_buf_limited_take:
  assumes "length buf < 2 ^ 64"
  shows "reply_buf_limited buf (of_nat (length buf)) off sz = reply_buf (take (unat sz) (drop (unat off) buf))"
proof -
  have u: "unat (of_nat (length buf) :: u64) = length buf" using assms by (rule unat_of_nat_u64)
  have d: "unat (of_nat (length buf) - off) = length buf - unat off" if "off < of_nat (length buf)"
    using that u by (simp add: unat_sub word_le_nat_alt word_less_nat_alt)
  show ?thesis
    using u d by (auto simp: reply_buf_limited_def word_less_nat_alt)
qed

section \<open>The server implements the file system\<close>

definition fs_rel :: "('s \<Rightarrow> inum \<rightharpoonup> string) \<Rightarrow> ('s \<Rightarrow> bool) \<Rightarrow> fs \<Rightarrow> 's \<Rightarrow> bool" where
  "fs_rel view ok fs s \<longleftrightarrow> ok s \<and> fs_ok fs \<and> represents fs (view s)"

text \<open>A result of the server agrees with a result of the file system.\<close>

definition agrees :: "('s \<Rightarrow> inum \<rightharpoonup> string) \<Rightarrow> ('s \<Rightarrow> bool) \<Rightarrow> (reply \<times> 's) option \<Rightarrow> reply \<times> fs \<Rightarrow> bool" where
  "agrees view ok res out \<longleftrightarrow>
     (case res of None \<Rightarrow> False | Some (rp, s) \<Rightarrow> timeless rp = fst out \<and> fs_rel view ok (snd out) s)"

lemma represents_upd: "represents fs v \<Longrightarrow> represents (fs(i \<mapsto> nd)) (v(i \<mapsto> node_text nd))"
  by (auto simp: represents_def)

lemma readFile_ext_take: "readFile_ext off sz d = take (unat sz) (drop (unat off) d)"
  by (auto simp: readFile_ext_def)

lemma setSize_ext_resize: "setSize_ext sz d = resize (unat sz) d"
  by (auto simp: setSize_ext_def resize_def)

lemma node_entry_timeless:
  assumes "no_times st = node_stat i nd"
  shows "(entry_zero u)\<lparr>fe_ino := i, fe_attr := no_times st\<rparr> = node_entry i nd"
  using assms by (simp add: entry_zero_def node_entry_def)

context file_store
begin

lemma getdir_view:
  assumes "ok s" and "view s l = Some d"
  shows "\<exists>din' s'. getdir E a0 l din s = ((0, din'), s') \<and> ok s' \<and> view s' = view s"
proof -
  obtain r a s1 where g: "y_getattr E l a0 (y_acquire E l s) = ((r, a), s1)" by (metis prod.exhaust)
  from getattr_law [OF _ _ g] acquire_law [OF assms(1), of l] assms(2)
  have 1: "r = 0" "ok s1" "view s1 = view s" "tch s1 l" by auto
  with g release_touched [OF 1(2,4)] show ?thesis by (simp add: getdir_def)
qed

lemma getattr_node:
  assumes "ok s" and "view s i = Some (node_text nd)" and "node_ok i nd"
  obtains st s' where "getattr E u i s = ((0, st), s')" "ok s'" "view s' = view s" "no_times st = node_stat i nd"
proof (cases nd)
  case (FileNode d)
  obtain fin s' where g: "getfile E (u_attr u) i (u_fileinfo u) s = ((0, fin), s')" "ok s'" "view s' = view s"
      "fin_size fin = ucast (of_nat (length d) :: u32)"
    using getfile_size [OF assms(1,2)] FileNode by fastforce
  have "length d < 2 ^ 32" "isfile i" using assms(3) FileNode by auto
  then have "(ucast (of_nat (length d) :: u32) :: u64) = of_nat (length d)"
    by (simp add: unsigned_of_nat take_bit_nat_eq_self)
  with g \<open>isfile i\<close> show ?thesis
    by (intro that [of "snd (fst (getattr E u i s))" s']) (simp_all add: getattr_def FileNode no_times_def stat_zero_def)
next
  case (DirNode es)
  obtain din s' where g: "getdir E (u_attr u) i (u_dirinfo u) s = ((0, din), s')" "ok s'" "view s' = view s"
    using getdir_view [OF assms(1,2)] by fastforce
  have "\<not> isfile i" using assms(3) DirNode by (simp add: isdir_def)
  with g show ?thesis
    by (intro that [of "snd (fst (getattr E u i s))" s']) (simp_all add: getattr_def DirNode no_times_def stat_zero_def)
qed

lemma rel_node:
  assumes "fs_rel view ok fs s" and "fs i = Some nd"
  shows "ok s \<and> view s i = Some (node_text nd) \<and> node_ok i nd"
  using assms fs_okD(1) [of fs i nd] by (auto simp: fs_rel_def represents_def)

lemma rel_dir:
  assumes "fs_rel view ok fs s" and "fs p = Some (DirNode es)"
  shows "ok s" "view s p = Some (dir_text es)" "valid_entries es"
  using rel_node [OF assms] by (auto simp: list_all_iff good_name_def)

lemma rel_view:
  assumes "fs_rel view ok fs s" and "ok s'" and "view s' = view s"
  shows "fs_rel view ok fs s'"
  using assms by (simp add: fs_rel_def)

lemma getattr_sim:
  assumes "fs_rel view ok fs s" and "fs i = Some nd"
  obtains st s' where "getattr E u i s = ((0, st), s')" "fs_rel view ok fs s'" "no_times st = node_stat i nd"
proof -
  have "ok s" "view s i = Some (node_text nd)" "node_ok i nd" using rel_node [OF assms] by auto
  then obtain st s' where "getattr E u i s = ((0, st), s')" "ok s'" "view s' = view s" "no_times st = node_stat i nd"
    by (rule getattr_node)
  then show ?thesis using that rel_view [OF assms(1)] by blast
qed

lemma lookup_sim:
  assumes "fs_rel view ok fs s" and "fs p = Some (DirNode es)"
  obtains s' where "yfs_lookup E n p c so s = ((0, case map_of es n of None \<Rightarrow> (c, False) | Some i \<Rightarrow> (i, True)), s')"
    "fs_rel view ok fs s'" "\<not> so \<Longrightarrow> fs_rel view ok fs (releaseLock E p s')"
proof -
  obtain s' where l: "yfs_lookup E n p c so s = ((0, case map_of es n of None \<Rightarrow> (c, False) | Some i \<Rightarrow> (i, True)), s')"
      "ok s'" "view s' = view s" "\<not> so \<longrightarrow> tch s' p"
    using lookup_view [OF rel_dir [OF assms]] by blast
  have "fs_rel view ok fs (releaseLock E p s')" if "\<not> so"
    using release_touched [OF l(2)] l(3,4) that rel_view [OF assms(1)] unfolding releaseLock_def by simp
  then show ?thesis using that l rel_view [OF assms(1)] by blast
qed

lemma add_sim:
  assumes rel: "fs_rel view ok fs s" and p: "fs p = Some (DirNode es)" and n: "map_of es n = None" "good_name n"
    and i: "fs i = None" and nd: "node_ok i nd" "nd = FileNode '''' \<or> nd = DirNode []"
  obtains s' st s'' where "addDirent E p i n s = (0, s')" "getattr E u i s' = ((0, st), s'')" "no_times st = node_stat i nd"
    "fs_rel view ok (fs(p \<mapsto> DirNode (es @ [(n, i)]), i \<mapsto> nd)) s''"
proof -
  let ?f = "fs(p \<mapsto> DirNode (es @ [(n, i)]), i \<mapsto> nd)"
  have ip: "i \<noteq> p" using p i by auto
  obtain s' where a: "addDirent E p i n s = (0, s')" "ok s'" "view s' = (view s)(p \<mapsto> dir_text (es @ [(n, i)]), i \<mapsto> '''')"
    using addDirent_view [OF rel_dir(1,2) [OF rel p] ip] by blast
  have t: "node_text nd = ''''" using nd(2) by (auto simp: dir_text_def)
  have "represents ?f (view s')"
    using rel represents_upd [OF represents_upd, of fs "view s" p "DirNode (es @ [(n, i)])" i nd]
    by (simp add: fs_rel_def a(3) t)
  moreover have "fs_ok ?f" using fs_ok_add [OF _ p n i nd] rel by (simp add: fs_rel_def)
  ultimately have r: "fs_rel view ok ?f s'" using a(2) by (simp add: fs_rel_def)
  have "?f i = Some nd" by simp
  from getattr_sim [OF r this] obtain st s'' where "getattr E u i s' = ((0, st), s'')" "fs_rel view ok ?f s''"
      "no_times st = node_stat i nd" by metis
  with that a(1) show ?thesis by blast
qed

lemma createhelper_sim:
  assumes rel: "fs_rel view ok fs s" and p: "fs p = Some (DirNode es)" and n: "good_name n" and r: "draw_ino rs = Some r"
    and i: "fs (file_ino r) = None"
  shows "\<exists>ret e s'. fuseserver_createhelper E u rs p n s = Some ((ret, e), s') \<and>
     (if map_of es n \<noteq> None then ret = 4 \<and> fs_rel view ok fs s'
      else ret = 0 \<and> e\<lparr>fe_attr := no_times (fe_attr e)\<rparr> = node_entry (file_ino r) (FileNode '''') \<and>
        fs_rel view ok (fs(p \<mapsto> DirNode (es @ [(n, file_ino r)]), file_ino r \<mapsto> FileNode '''')) s')"
proof -
  obtain s1 where l: "yfs_lookup E n p (u_inum u) False s =
      ((0, case map_of es n of None \<Rightarrow> (u_inum u, False) | Some i \<Rightarrow> (i, True)), s1)"
    "fs_rel view ok fs s1" "fs_rel view ok fs (releaseLock E p s1)"
    using lookup_sim [OF rel p] by metis
  show ?thesis
  proof (cases "map_of es n")
    case (Some j)
    with l show ?thesis by (simp add: fuseserver_createhelper_def Let_def)
  next
    case None
    have nd: "node_ok (file_ino r) (FileNode '''')" by (simp add: isfile_file_ino)
    obtain s' st s'' where a: "addDirent E p (file_ino r) n s1 = (0, s')" "getattr E u (file_ino r) s' = ((0, st), s'')"
        "no_times st = node_stat (file_ino r) (FileNode '''')"
        "fs_rel view ok (fs(p \<mapsto> DirNode (es @ [(n, file_ino r)]), file_ino r \<mapsto> FileNode '''')) s''"
      using add_sim [OF l(2) p None n i nd] by blast
    from node_entry_timeless [OF a(3), of u] l(1) a r None show ?thesis
      by (simp add: fuseserver_createhelper_def Let_def)
  qed
qed

lemma mkdir_sim:
  assumes rel: "fs_rel view ok fs s" and p: "fs p = Some (DirNode es)" and n: "good_name n" and r: "draw_ino rs = Some r"
    and i: "fs (dir_ino r) = None"
  shows "agrees view ok (fuseserver_mkdir E u rs p n s) (fs_add reply_entry p n (dir_ino r) (DirNode []) fs)"
proof -
  obtain s1 where l: "yfs_lookup E n p (u_inum u) False s =
      ((0, case map_of es n of None \<Rightarrow> (u_inum u, False) | Some i \<Rightarrow> (i, True)), s1)"
    "fs_rel view ok fs s1" "fs_rel view ok fs (releaseLock E p s1)"
    using lookup_sim [OF rel p] by metis
  show ?thesis
  proof (cases "map_of es n")
    case (Some j)
    with l p show ?thesis by (simp add: fuseserver_mkdir_def fs_add_def agrees_def Let_def)
  next
    case None
    have nd: "node_ok (dir_ino r) (DirNode [])" by (simp add: isdir_dir_ino)
    obtain s' st s'' where a: "addDirent E p (dir_ino r) n s1 = (0, s')" "getattr E u (dir_ino r) s' = ((0, st), s'')"
        "no_times st = node_stat (dir_ino r) (DirNode [])"
        "fs_rel view ok (fs(p \<mapsto> DirNode (es @ [(n, dir_ino r)]), dir_ino r \<mapsto> DirNode [])) s''"
      using add_sim [OF l(2) p None n i nd] by blast
    from node_entry_timeless [OF a(3), of u] l(1) a r None p show ?thesis
      by (simp add: fuseserver_mkdir_def fs_add_def agrees_def Let_def)
  qed
qed

lemma create_sim:
  assumes "fs_rel view ok fs s" and "fs p = Some (DirNode es)" and "good_name n" and "draw_ino rs = Some r"
    and "fs (file_ino r) = None"
  shows "agrees view ok (fuseserver_create E u rs p n s) (fs_add reply_create p n (file_ino r) (FileNode '''') fs)"
    and "agrees view ok (fuseserver_mknod E u rs p n s) (fs_add reply_entry p n (file_ino r) (FileNode '''') fs)"
  using createhelper_sim [OF assms, of u] assms(2)
  by (auto simp: fuseserver_create_def fuseserver_mknod_def fs_add_def agrees_def split: if_splits)

lemma unlink_sim:
  assumes rel: "fs_rel view ok fs s" and p: "fs p = Some (DirNode es)"
  shows "agrees view ok (Some (fuseserver_unlink E u p n s)) (fs_op L r (op_unlink p n) fs)"
proof -
  obtain s1 where l: "yfs_lookup E n p (u_inum u) False s =
      ((0, case map_of es n of None \<Rightarrow> (u_inum u, False) | Some i \<Rightarrow> (i, True)), s1)"
    "fs_rel view ok fs s1" "fs_rel view ok fs (releaseLock E p s1)"
    using lookup_sim [OF rel p] by metis
  show ?thesis
  proof (cases "map_of es n")
    case None
    with l p show ?thesis by (simp add: fuseserver_unlink_def agrees_def Let_def)
  next
    case (Some i)
    have ok: "fs_ok fs" using rel by (simp add: fs_rel_def)
    obtain nd where nd: "fs i = Some nd" using fs_ok_file_entry [OF ok p Some] by auto
    have nok: "node_ok i nd" using fs_okD(1) [OF ok nd] by simp
    show ?thesis
    proof (cases nd)
      case (DirNode es')
      with nok l Some p nd show ?thesis by (simp add: fuseserver_unlink_def agrees_def isdir_def Let_def)
    next
      case (FileNode d)
      have ip: "i \<noteq> p" using nd p FileNode by auto
      obtain s2 where u: "yfs_unlink E p i n s1 = (0, s2)" "ok s2"
          "view s2 p = Some (dir_text (filter (\<lambda>q. fst q \<noteq> n) es))" "\<forall>e. e \<noteq> p \<and> e \<noteq> i \<longrightarrow> view s2 e = view s1 e"
        using unlink_view [OF rel_dir [OF l(2) p] ip] by blast
      have "fs_ok (fs(p \<mapsto> DirNode (filter (\<lambda>q. fst q \<noteq> n) es), i := None))"
        using fs_ok_unlink [OF ok p Some] nd FileNode by simp
      moreover have "represents (fs(p \<mapsto> DirNode (filter (\<lambda>q. fst q \<noteq> n) es), i := None)) (view s2)"
        using l(2) u(3,4) by (auto simp: represents_def fs_rel_def)
      ultimately show ?thesis using nok l(1) Some p nd FileNode u(1,2)
        by (simp add: fuseserver_unlink_def agrees_def fs_rel_def Let_def)
    qed
  qed
qed

lemma file_sim:
  assumes rel: "fs_rel view ok fs s" and f: "fs i = Some (FileNode d)" and "length d' < 2 ^ 32"
    and "ok s'" and "view s' = (view s)(i \<mapsto> d')"
  shows "fs_rel view ok (fs(i \<mapsto> FileNode d')) s'"
  using assms fs_ok_file [of fs i d d'] represents_upd [of fs "view s" i "FileNode d'"] by (simp add: fs_rel_def)

lemma read_sim:
  assumes rel: "fs_rel view ok fs s" and f: "fs i = Some (FileNode d)" and "unat sz < 2 ^ 32" and "unat off < 2 ^ 32"
  shows "agrees view ok (Some (fuseserver_read E i sz off s)) (fs_op L r (op_read i sz off) fs)"
proof -
  obtain s' where "readFile E i (ucast off) (ucast sz) '''' s = ((0, readFile_ext (ucast off) (ucast sz) d), s')" "ok s'"
      "view s' = view s"
    using readFile_view [of s i d "ucast off" "ucast sz" "''''"] rel_node [OF rel f] by auto
  then show ?thesis using f assms(3,4) rel_view [OF rel, of s']
    by (simp add: fuseserver_read_def agrees_def readFile_ext_take ucast_u32)
qed

lemma write_sim:
  assumes rel: "fs_rel view ok fs s" and f: "fs i = Some (FileNode d)" and l: "length buf = unat sz"
    and b: "unat off + unat sz < 2 ^ 32"
  shows "agrees view ok (Some (fuseserver_write E i buf sz off s)) (fs_op L r (op_write i buf sz off) fs)"
proof -
  have c: "unat (ucast sz :: u32) = unat sz" "unat (ucast off :: u32) = unat off" using b by (simp_all add: ucast_u32)
  have w: "writeFile_ext (ucast off) (ucast sz) buf d = splice (unat off) buf d"
    using writeFile_ext_splice [of buf "ucast sz" "ucast off" d] l b by (simp add: c)
  obtain s' where s: "writeFile E i (ucast off) (ucast sz) buf s = (0, s')" "ok s'"
      "view s' = (view s)(i \<mapsto> splice (unat off) buf d)"
    using writeFile_view [of s i d "ucast off" "ucast sz" buf] rel_node [OF rel f] unfolding w by auto
  have "length d < 2 ^ 32" using rel_node [OF rel f] by simp
  then have "length (splice (unat off) buf d) < 2 ^ 32" using l b by (auto simp: splice_def)
  from file_sim [OF rel f this s(2,3)] s(1) f l show ?thesis
    by (simp add: fuseserver_write_def agrees_def)
qed

lemma setattr_sim:
  assumes rel: "fs_rel view ok fs s" and f: "fs i = Some (FileNode d)" and b: "unat sz < 2 ^ 32"
  shows "agrees view ok (Some (fuseserver_setattr L E u i sz to_set s)) (fs_op L r (op_setattr i sz to_set) fs)"
proof (cases "FUSE_SET_ATTR_SIZE L AND to_set = 0")
  case False
  let ?d = "resize (unat sz) d"
  have c: "setSize_ext (ucast sz) d = ?d" using b by (simp add: setSize_ext_resize ucast_u32)
  obtain s' where s: "setSize E i (ucast sz) s = (0, s')" "ok s'" "view s' = (view s)(i \<mapsto> ?d)"
    using setSize_view [of s i d "ucast sz"] rel_node [OF rel f] unfolding c by auto
  have "length ?d < 2 ^ 32" using b by (simp add: resize_def)
  note r = file_sim [OF rel f this s(2,3)]
  have "(fs(i \<mapsto> FileNode ?d)) i = Some (FileNode ?d)" by simp
  from getattr_sim [OF r this] obtain st s'' where "getattr E u i s' = ((0, st), s'')"
      "fs_rel view ok (fs(i \<mapsto> FileNode ?d)) s''" "no_times st = node_stat i (FileNode ?d)" by metis
  with False s(1) f show ?thesis by (simp add: fuseserver_setattr_def agrees_def)
qed (use rel in \<open>simp add: fuseserver_setattr_def agrees_def\<close>)

lemma lookup_op_sim:
  assumes rel: "fs_rel view ok fs s" and p: "fs p = Some (DirNode es)"
  shows "agrees view ok (Some (fuseserver_lookup E u p n s)) (fs_op L r (op_lookup p n) fs)"
proof -
  obtain s1 where l: "yfs_lookup E n p (u_inum u) True s =
      ((0, case map_of es n of None \<Rightarrow> (u_inum u, False) | Some i \<Rightarrow> (i, True)), s1)" "fs_rel view ok fs s1"
    using lookup_sim [OF rel p] by metis
  show ?thesis
  proof (cases "map_of es n")
    case (Some i)
    obtain nd where nd: "fs i = Some nd" using fs_ok_file_entry [of fs p es n i] rel p Some by (auto simp: fs_rel_def)
    from getattr_sim [OF l(2) nd] obtain st s' where g: "getattr E u i s1 = ((0, st), s')" "fs_rel view ok fs s'"
        "no_times st = node_stat i nd" by metis
    from node_entry_timeless [OF g(3), of u] g l(1) Some nd p show ?thesis
      by (simp add: fuseserver_lookup_def agrees_def Let_def)
  qed (use l p in \<open>simp add: fuseserver_lookup_def agrees_def Let_def\<close>)
qed

lemma readdir_sim:
  assumes lib: "lib_ok L" and rel: "fs_rel view ok fs s" and p: "fs p = Some (DirNode es)"
    and b: "length (listing L 0 es) < 2 ^ 64"
  shows "agrees view ok (Some (fuseserver_readdir L E u p sz off s)) (fs_op L r (op_readdir p sz off) fs)"
proof -
  obtain s' where s: "readDir E (u_inum u) p [] s = ((0, map (\<lambda>(n, i). \<lparr>de_name = n, de_inum = i\<rparr>) es), s')" "ok s'"
      "view s' = view s"
    using readDir_view [OF rel_dir [OF rel p], of "u_inum u" "[]"] by auto
  have ok: "isdir p" "list_all (\<lambda>p. good_name (fst p)) es" using rel_node [OF rel p] by auto
  from listing_dirbuf [OF lib ok(2), of "''''"] b reply_buf_limited_take [OF b] ok(1) s p rel_view [OF rel s(2,3)]
  show ?thesis by (simp add: fuseserver_readdir_def agrees_def)
qed

lemma getattr_op_sim:
  assumes rel: "fs_rel view ok fs s" and "fs i = Some nd"
  shows "agrees view ok (Some (fuseserver_getattr E u i s)) (fs_op L r (op_getattr i) fs)"
proof -
  from getattr_sim [OF assms] obtain st s' where "getattr E u i s = ((0, st), s')" "fs_rel view ok fs s'"
      "no_times st = node_stat i nd" by metis
  then show ?thesis using assms(2) by (simp add: fuseserver_getattr_def agrees_def)
qed

lemma dir_node: "is_DirNode fs i \<longleftrightarrow> (\<exists>es. fs i = Some (DirNode es))"
  by (auto simp: is_DirNode_def split: option.splits fs_node.splits)

lemma file_node: "is_FileNode fs i \<longleftrightarrow> (\<exists>d. fs i = Some (FileNode d))"
  by (auto simp: is_FileNode_def split: option.splits fs_node.splits)

lemma unused_iff: "unused mk rs fs \<longleftrightarrow> (\<exists>r. draw_ino rs = Some r \<and> fs (mk r) = None)"
  by (auto simp: unused_def split: option.splits)

lemma op_sim:
  assumes lib: "lib_ok L" and rel: "fs_rel view ok fs s" and op: "op_ok L rs fs op"
  shows "agrees view ok (fuseserver_oper L E u rs op s) (fs_op L (drawn rs) op fs)"
proof (cases op)
  case (op_readdir i sz off)
  show ?thesis
  proof (cases "fs i")
    case (Some nd)
    show ?thesis
    proof (cases nd)
      case (FileNode d)
      with rel_node [OF rel Some] Some rel op_readdir show ?thesis
        by (simp add: fuseserver_readdir_def agrees_def isdir_def)
    next
      case (DirNode es)
      with readdir_sim [OF lib rel, of i es] op Some op_readdir show ?thesis by simp
    qed
  qed (use op op_readdir in simp)
next
  case (op_create p n)
  with op create_sim(1) [OF rel] show ?thesis by (auto simp: dir_node unused_iff drawn_def)
next
  case (op_mknod p n)
  with op create_sim(2) [OF rel] show ?thesis by (auto simp: dir_node unused_iff drawn_def)
next
  case (op_mkdir p n)
  with op mkdir_sim [OF rel] show ?thesis by (auto simp: dir_node unused_iff drawn_def)
next
  case (op_getattr i)
  with op getattr_op_sim [OF rel] show ?thesis by auto
next
  case (op_lookup p n)
  with op lookup_op_sim [OF rel] show ?thesis by (auto simp: dir_node)
next
  case (op_read i sz off)
  with op read_sim [OF rel] show ?thesis by (auto simp: file_node)
next
  case (op_write i buf sz off)
  with op write_sim [OF rel] show ?thesis by (auto simp: file_node)
next
  case (op_setattr i sz t)
  with op obtain d where "fs i = Some (FileNode d)" "unat sz < 2 ^ 32" by (auto simp: file_node)
  from setattr_sim [OF rel this] op_setattr show ?thesis by simp
next
  case (op_unlink p n)
  with op unlink_sim [OF rel] show ?thesis by (auto simp: dir_node)
qed (use rel in \<open>simp_all add: agrees_def fuseserver_statfs_def fuseserver_open_def\<close>)

end

section \<open>Runs of the server\<close>

text \<open>
  A call with what the environment decides: the locks asked back at releases, the time, uninitialised memory and the results
  of \<open>random\<close>.
\<close>

record fuse_call =
  fc_rv :: "inum \<Rightarrow> bool"
  fc_now :: u32
  fc_a0 :: attr
  fc_u :: uninit
  fc_rs :: "u64 list"
  fc_op :: fuse_op

fun fuse_run :: "fuse_lib \<Rightarrow> fuse_call list \<Rightarrow> extent_client \<times> extent_server \<Rightarrow> (reply list \<times> extent_client \<times> extent_server) option" where
  "fuse_run L [] x = Some ([], x)"
| "fuse_run L (c # cs) x =
     (case fuseserver_oper L (yfs_local (fc_rv c) (fc_now c) (fc_a0 c)) (fc_u c) (fc_rs c) (fc_op c) x of
        None \<Rightarrow> None
      | Some (rp, x) \<Rightarrow> map_option (\<lambda>(rps, x). (rp # rps, x)) (fuse_run L cs x))"

fun fs_run :: "fuse_lib \<Rightarrow> fuse_call list \<Rightarrow> fs \<Rightarrow> reply list \<times> fs" where
  "fs_run L [] fs = ([], fs)"
| "fs_run L (c # cs) fs =
     (let (rp, fs) = fs_op L (drawn (fc_rs c)) (fc_op c) fs; (rps, fs) = fs_run L cs fs in (rp # rps, fs))"

fun run_ok :: "fuse_lib \<Rightarrow> fuse_call list \<Rightarrow> fs \<Rightarrow> bool" where
  "run_ok L [] fs \<longleftrightarrow> True"
| "run_ok L (c # cs) fs \<longleftrightarrow>
     op_ok L (fc_rs c) fs (fc_op c) \<and> run_ok L cs (snd (fs_op L (drawn (fc_rs c)) (fc_op c) fs))"

definition fs_empty :: fs where
  "fs_empty = [1 \<mapsto> DirNode []]"

lemma fs_ok_empty: "fs_ok fs_empty"
  by (auto simp: fs_ok_def fs_empty_def fs_entry_def isdir_def isfile_def intro: linked_root split: if_splits)

lemma fuse_run_sim:
  assumes "lib_ok L" and "run_ok L cs fs" and "fs_rel ext_view ext_ok fs x"
  shows "\<exists>rps x'. fuse_run L cs x = Some (rps, x') \<and> map timeless rps = fst (fs_run L cs fs) \<and>
    fs_rel ext_view ext_ok (snd (fs_run L cs fs)) x'"
  using assms(2,3)
proof (induction cs arbitrary: fs x)
  case (Cons c cs)
  obtain rp fs' where a: "fs_op L (drawn (fc_rs c)) (fc_op c) fs = (rp, fs')" by (metis prod.exhaust)
  have "agrees ext_view ext_ok
      (fuseserver_oper L (yfs_local (fc_rv c) (fc_now c) (fc_a0 c)) (fc_u c) (fc_rs c) (fc_op c) x) (rp, fs')"
    using lfs.op_sim [OF assms(1) Cons.prems(2), of "fc_rs c" "fc_op c"] Cons.prems(1) a by simp
  then obtain q x' where o: "fuseserver_oper L (yfs_local (fc_rv c) (fc_now c) (fc_a0 c)) (fc_u c) (fc_rs c) (fc_op c) x = Some (q, x')"
      "timeless q = rp" "fs_rel ext_view ext_ok fs' x'"
    by (auto simp: agrees_def split: option.splits)
  have "run_ok L cs fs'" using Cons.prems(1) a by simp
  from Cons.IH [OF this o(3)] o(1,2) a show ?case by (auto split: prod.splits)
qed simp

lemma fs_rel_init: "fs_rel ext_view ext_ok fs_empty (extent_client_init, extent_server_init now)"
  using fs_ok_empty ext_ok_init ext_view_init [of now] by (simp add: fs_rel_def represents_def fs_empty_def dir_text_def)

text \<open>
  C6. The FUSE server implements a file system: starting from the empty server, for every sequence of requests that the kernel
  may send (on existing nodes of the right type, with offsets and sizes below \<open>2 ^ 32\<close>, names without delimiters and
  random numbers that are not in use), whatever locks are asked back and whatever the clock says, every request is answered, the replies
  are those of a file system of byte arrays and association lists, up to the times in attributes, and the extents hold its
  files and directories.
\<close>

theorem fuse_refines:
  assumes "lib_ok L" and "run_ok L cs fs_empty"
  shows "\<exists>rps x. fuse_run L cs (extent_client_init, extent_server_init now) = Some (rps, x) \<and>
    map timeless rps = fst (fs_run L cs fs_empty) \<and> represents (snd (fs_run L cs fs_empty)) (ext_view x)"
  using fuse_run_sim [OF assms fs_rel_init [of now]] unfolding fs_rel_def by blast

definition demo_call :: "u64 list \<Rightarrow> fuse_op \<Rightarrow> fuse_call" where
  "demo_call rs op =
     \<lparr>fc_rv = \<lambda>i. i = 5, fc_now = 9, fc_a0 = attr_default, fc_u = demo_uninit, fc_rs = rs, fc_op = op\<rparr>"

text \<open>A directory and a file in it, which is written, created once more and read; the directory cannot be unlinked.\<close>

definition demo_calls :: "fuse_call list" where
  "demo_calls =
     [demo_call [1, 5] (op_mkdir 1 ''d''), demo_call [7] (op_create 5 ''f''), demo_call [] (op_write 0x80000007 ''xy'' 2 1),
      demo_call [8] (op_mknod 5 ''f''), demo_call [] (op_read 0x80000007 10 0), demo_call [] (op_unlink 1 ''d'')]"

lemmas demo_simps = demo_call_def fs_empty_def fs_add_def is_DirNode_def is_FileNode_def good_name_def valid_name_def
  unused_def drawn_def dir_ino_def file_ino_def nul_def splice_def

lemma demo_ok: "lib_ok demo_lib" "run_ok demo_lib demo_calls fs_empty"
  by (simp_all add: lib_ok_def demo_lib_def demo_calls_def demo_simps)

lemma demo_fs: "snd (fs_run demo_lib demo_calls fs_empty) =
    [1 \<mapsto> DirNode [(''d'', 5)], 5 \<mapsto> DirNode [(''f'', 0x80000007)], 0x80000007 \<mapsto> FileNode [nul, CHR ''x'', CHR ''y'']]"
  by (auto simp: demo_lib_def demo_calls_def demo_simps Let_def fun_eq_iff)

theorem fuse_refines_witness:
  "\<exists>rps x. fuse_run demo_lib demo_calls (extent_client_init, extent_server_init 3) = Some (rps, x) \<and>
     map timeless rps = [reply_entry (node_entry 5 (DirNode [])), reply_create (node_entry 0x80000007 (FileNode '''')),
       reply_write 2, reply_err EEXIST, reply_buf [nul, CHR ''x'', CHR ''y''], reply_err ENOSYS]"
proof -
  have "fst (fs_run demo_lib demo_calls fs_empty) =
      [reply_entry (node_entry 5 (DirNode [])), reply_create (node_entry 0x80000007 (FileNode '''')),
       reply_write 2, reply_err EEXIST, reply_buf [nul, CHR ''x'', CHR ''y''], reply_err ENOSYS]"
    by (simp add: demo_lib_def demo_calls_def demo_simps Let_def)
  with fuse_refines [OF demo_ok, of 3] show ?thesis by auto
qed

text \<open>
  C10. The tree is well-typed: after every such sequence of requests bit 31 of the number of a node tells whether its extent
  is a file or the text of a directory; directories have distinct names; every entry names an existing node that is not the root and
  has no other name in any directory; and every node is below the root.
\<close>

theorem fuse_tree_typed:
  assumes "lib_ok L" and "run_ok L cs fs_empty" and "fuse_run L cs (extent_client_init, extent_server_init now) = Some (rps, x)"
    and "snd (fs_run L cs fs_empty) = fs" and "fs i = Some nd"
  shows "ext_view x i = Some (node_text nd) \<and> linked fs i \<and>
    (case nd of
       FileNode d \<Rightarrow> isfile i
     | DirNode es \<Rightarrow> isdir i \<and> distinct (map fst es) \<and>
         list_all (\<lambda>(n, j). j \<noteq> 1 \<and> fs j \<noteq> None \<and> (\<forall>d m. fs_entry fs d m j = (d = i \<and> m = n))) es)"
proof -
  have "represents fs (ext_view x)" and ok: "fs_ok fs"
    using fuse_run_sim [OF assms(1,2) fs_rel_init [of now]] assms(3,4) by (auto simp: fs_rel_def)
  then have 1: "ext_view x i = Some (node_text nd)" using assms(5) by (simp add: represents_def)
  have 2: "node_ok i nd" "linked fs i" using fs_okD(1) [OF ok assms(5)] by auto
  have 3: "j \<noteq> 1 \<and> fs j \<noteq> None \<and> (\<forall>d m. fs_entry fs d m j = (d = i \<and> m = n))" if "nd = DirNode es" "(n, j) \<in> set es" for es n j
  proof -
    have e: "fs_entry fs i n j" using assms(5) that by (auto simp: fs_entry_def)
    then show ?thesis using fs_okD(3) [OF ok e] fs_okD(4) [OF ok e] by blast
  qed
  show ?thesis
  proof (cases nd)
    case (DirNode es)
    with 1 2 3 [OF DirNode] show ?thesis by (auto simp: list_all_iff)
  qed (use 1 2 in simp)
qed

theorem fuse_tree_typed_witness:
  "\<exists>rps x. fuse_run demo_lib demo_calls (extent_client_init, extent_server_init 3) = Some (rps, x) \<and>
     ext_view x 5 = Some (dir_text [(''f'', 0x80000007)]) \<and> isdir 5 \<and> linked (snd (fs_run demo_lib demo_calls fs_empty)) 5"
proof -
  obtain rps x where r: "fuse_run demo_lib demo_calls (extent_client_init, extent_server_init 3) = Some (rps, x)"
    using fuse_run_sim [OF demo_ok fs_rel_init] by blast
  have "snd (fs_run demo_lib demo_calls fs_empty) 5 = Some (DirNode [(''f'', 0x80000007)])" by (simp add: demo_fs)
  from fuse_tree_typed [OF demo_ok r refl this] r show ?thesis by simp
qed

end
