(* ===== verification/Fuse_Locks.thy ===== *)
theory Fuse_Locks
  imports Fuse
begin

text \<open>
  The lock discipline of the FUSE server. \<open>traced\<close> records the locks that the handlers take and the extents that they access;
  \<open>lock_check\<close> is the discipline that the extent clients rely on.
\<close>

section \<open>Locks\<close>

text \<open>The operations of \<open>ec\<close> and \<open>lc\<close> with a record of the locks taken and the extents accessed.\<close>

datatype lock_ev = Acq inum | Rel inum | Acc inum

definition traced :: "'s yfs_env \<Rightarrow> ('s \<times> lock_ev list) yfs_env" where
  "traced E =
     \<lparr>y_acquire = \<lambda>l (s, t). (y_acquire E l s, t @ [Acq l]),
      y_release = \<lambda>l (s, t). (y_release E l s, t @ [Rel l]),
      y_get = \<lambda>l b (s, t). (let (r, s') = y_get E l b s in (r, s', t @ [Acc l])),
      y_put = \<lambda>l b (s, t). (let (r, s') = y_put E l b s in (r, s', t @ [Acc l])),
      y_getattr = \<lambda>l a (s, t). (let (r, s') = y_getattr E l a s in (r, s', t @ [Acc l])),
      y_remove = \<lambda>l (s, t). (let (r, s') = y_remove E l s in (r, s', t @ [Acc l]))\<rparr>"

text \<open>
  The locks held after a sequence of events. \<open>None\<close>: a lock is taken that is already held, or a third lock, or one
  while the lock of a file is held; a lock is given back that is not held; or an extent is accessed without its lock.
\<close>

fun lock_check :: "inum list \<Rightarrow> lock_ev list \<Rightarrow> inum list option" where
  "lock_check h [] = Some h"
| "lock_check h (Acq l # t) =
     (if l \<in> set h \<or> length h \<ge> 2 \<or> list_ex isfile h then None else lock_check (l # h) t)"
| "lock_check h (Rel l # t) = (if l \<in> set h then lock_check (removeAll l h) t else None)"
| "lock_check h (Acc l # t) = (if l \<in> set h then lock_check h t else None)"

lemma lock_check_append: "lock_check h (t @ t') = Option.bind (lock_check h t) (\<lambda>h. lock_check h t')"
  by (induction h t rule: lock_check.induct) auto

lemma lock_check_accs: "set as \<subseteq> Acc ` set h \<Longrightarrow> lock_check h as = Some h"
  by (induction as) auto

lemma lock_check_one: "set as \<subseteq> {Acc i} \<Longrightarrow> lock_check [] (Acq i # as @ [Rel i]) = Some []"
  using lock_check_accs [of as "[i]"] by (simp add: lock_check_append)

lemma lock_check_two:
  assumes "isdir p" and "i \<noteq> p" and "set as \<subseteq> {Acc p, Acc i}"
  shows "lock_check [] (Acq p # Acc p # Acq i # as @ [Rel i, Rel p]) = Some []"
proof -
  have "lock_check [i, p] as = Some [i, p]" using assms(3) by (intro lock_check_accs) auto
  with assms(1,2) show ?thesis by (simp add: lock_check_append isdir_def)
qed

lemmas traced_simps = traced_def Let_def split_def

lemma getattr_traced:
  "getattr (traced E) u i (s, t) = (case getattr E u i s of (r, s') \<Rightarrow> (r, s', t @ [Acq i, Acc i, Rel i]))"
  by (simp add: getattr_def getfile_def getdir_def traced_simps)

lemma readFile_traced:
  "readFile (traced E) i off sz b (s, t) = (case readFile E i off sz b s of (r, s') \<Rightarrow> (r, s', t @ [Acq i, Acc i, Rel i]))"
  by (simp add: readFile_def traced_simps)

lemma readDir_traced:
  "readDir (traced E) old i ds (s, t) = (case readDir E old i ds s of (r, s') \<Rightarrow> (r, s', t @ [Acq i, Acc i, Rel i]))"
  by (simp add: readDir_def traced_simps)

lemma writeFile_traced:
  "\<exists>as. set as \<subseteq> {Acc i} \<and> writeFile (traced E) i off sz b (s, t) =
     (case writeFile E i off sz b s of (r, s') \<Rightarrow> (r, s', t @ Acq i # as @ [Rel i]))"
  by (rule exI [of _ "if fst (fst (y_get E i '''' (y_acquire E i s))) = 0 then [Acc i, Acc i] else [Acc i]"])
    (simp add: writeFile_def traced_simps)

lemma setSize_traced:
  "\<exists>as. set as \<subseteq> {Acc i} \<and> setSize (traced E) i sz (s, t) =
     (case setSize E i sz s of (r, s') \<Rightarrow> (r, s', t @ Acq i # as @ [Rel i]))"
  by (rule exI [of _ "if fst (fst (y_get E i '''' (y_acquire E i s))) = 0 then [Acc i, Acc i] else [Acc i]"])
    (simp add: setSize_def traced_simps)

lemma lookup_traced:
  "yfs_lookup (traced E) n p c so (s, t) =
     (case yfs_lookup E n p c so s of ((r, x), s') \<Rightarrow>
        ((r, x), s', t @ Acq p # Acc p # (if r \<noteq> 0 \<or> so then [Rel p] else [])))"
  by (simp add: yfs_lookup_def traced_simps)

lemma addDirent_traced:
  "\<exists>as. set as \<subseteq> {Acc p, Acc i} \<and> addDirent (traced E) p i n (s, t) =
     (case addDirent E p i n s of (r, s') \<Rightarrow> (r, s', t @ Acq i # as @ [Rel i, Rel p]))"
proof -
  let ?g = "y_get E p '''' (y_acquire E i s)"
  let ?q = "y_put E p (snd (fst ?g) @ n @ '':'' @ print_nat (unat i) @ ''|'') (snd ?g)"
  show ?thesis
    by (rule exI [of _ "Acc p # (if fst (fst ?g) = 0 then Acc p # (if fst ?q = 0 then [Acc i] else []) else [])"])
      (auto simp: addDirent_def traced_simps)
qed

lemma unlink_traced:
  "\<exists>as. set as \<subseteq> {Acc p, Acc i} \<and> yfs_unlink (traced E) p i n (s, t) =
     (case yfs_unlink E p i n s of (r, s') \<Rightarrow> (r, s', t @ Acq i # as @ [Rel i, Rel p]))"
proof -
  let ?g = "y_get E p '''' (y_acquire E i s)"
  let ?q = "y_put E p (unlink_scan n (Split (snd (fst ?g)) ''|'' True True)) (snd ?g)"
  show ?thesis
    by (rule exI [of _ "Acc p # (if fst (fst ?g) = 0 then Acc p # (if fst ?q = 0 then [Acc i] else []) else [])"])
      (auto simp: yfs_unlink_def traced_simps)
qed

text \<open>
  What the requests assume: names are added to and removed from directories, and \<open>mkdir\<close> does not draw the number of
  the parent.
\<close>

fun lock_pre :: "u64 list \<Rightarrow> fuse_op \<Rightarrow> bool" where
  "lock_pre rs (op_create p n) \<longleftrightarrow> isdir p"
| "lock_pre rs (op_mknod p n) \<longleftrightarrow> isdir p"
| "lock_pre rs (op_unlink p n) \<longleftrightarrow> isdir p"
| "lock_pre rs (op_mkdir p n) \<longleftrightarrow> isdir p \<and> dir_ino (drawn rs) \<noteq> p"
| "lock_pre rs op \<longleftrightarrow> True"

text \<open>A traced run agrees with the run without the record, and follows the discipline.\<close>

definition disciplined :: "('a \<times> 's \<times> lock_ev list) option \<Rightarrow> ('a \<times> 's) option \<Rightarrow> bool" where
  "disciplined T r \<longleftrightarrow>
     (case T of None \<Rightarrow> r = None | Some (a, s, t) \<Rightarrow> r = Some (a, s) \<and> lock_check [] t = Some [])"

lemma disciplined_map:
  assumes "disciplined T r"
  shows "disciplined (map_option (\<lambda>(a, s). (f a, s)) T) (map_option (\<lambda>(a, s). (f a, s)) r)"
  using assms by (auto simp: disciplined_def split: option.splits)

lemma setattr_locks: "disciplined (Some (fuseserver_setattr L (traced E) u i sz ts (s, []))) (Some (fuseserver_setattr L E u i sz ts s))"
proof -
  obtain as where as: "set as \<subseteq> {Acc i}" "setSize (traced E) i (ucast sz) (s, []) =
      (case setSize E i (ucast sz) s of (r, s') \<Rightarrow> (r, s', Acq i # as @ [Rel i]))"
    using setSize_traced [of i E "ucast sz" s "[]"] by auto
  have "lock_check [] ((Acq i # as @ [Rel i]) @ [Acq i, Acc i, Rel i]) = Some []"
    unfolding lock_check_append lock_check_one [OF as(1)] by simp
  with as lock_check_one [OF as(1)] show ?thesis
    by (auto simp: disciplined_def fuseserver_setattr_def getattr_traced split: prod.splits)
qed

lemma add_locks:
  assumes "isdir p" and "i \<noteq> p" and "addDirent E p i n s = (r, s')"
  obtains t where "addDirent (traced E) p i n (s, [Acq p, Acc p]) = (r, s', t)" and "lock_check [] t = Some []"
    and "\<And>j. lock_check [] (t @ [Acq j, Acc j, Rel j]) = Some []"
proof -
  obtain as where as: "set as \<subseteq> {Acc p, Acc i}"
      "addDirent (traced E) p i n (s, [Acq p, Acc p]) = (r, s', Acq p # Acc p # Acq i # as @ [Rel i, Rel p])"
    using addDirent_traced [of p i E n s "[Acq p, Acc p]"] assms(3) by auto
  let ?t = "Acq p # Acc p # Acq i # as @ [Rel i, Rel p]"
  have two: "lock_check [] ?t = Some []" by (rule lock_check_two [OF assms(1,2) as(1)])
  then have "lock_check [] (?t @ [Acq j, Acc j, Rel j]) = Some []" for j
    unfolding lock_check_append by simp
  with as(2) two show ?thesis by (rule that)
qed

lemma createhelper_locks:
  assumes "isdir p"
  shows "disciplined (fuseserver_createhelper (traced E) u rs p n (s, [])) (fuseserver_createhelper E u rs p n s)"
proof -
  obtain r c f s1 where l: "yfs_lookup E n p (u_inum u) False s = ((r, c, f), s1)" by (metis prod.exhaust)
  note lt = lookup_traced [of E n p "u_inum u" False s "[]", unfolded l, simplified]
  show ?thesis
  proof (cases "r = 0 \<and> \<not> f")
    case False
    then show ?thesis using l lt
      by (cases "r = 0") (simp_all add: disciplined_def fuseserver_createhelper_def releaseLock_def traced_def)
  next
    case True
    show ?thesis
    proof (cases "draw_ino rs")
      case (Some k)
      obtain r2 s2 where a: "addDirent E p (file_ino k) n s1 = (r2, s2)" by (metis prod.exhaust)
      obtain r3 st s3 where g: "getattr E u (file_ino k) s2 = ((r3, st), s3)" by (metis prod.exhaust)
      have "file_ino k \<noteq> p" using isfile_file_ino [of k] assms by (auto simp: isdir_def)
      from add_locks [OF assms this a] obtain t where
        "addDirent (traced E) p (file_ino k) n (s1, [Acq p, Acc p]) = (r2, s2, t)" "lock_check [] t = Some []"
        "lock_check [] (t @ [Acq (file_ino k), Acc (file_ino k), Rel (file_ino k)]) = Some []" by metis
      with True Some l lt a g show ?thesis
        by (simp add: disciplined_def fuseserver_createhelper_def getattr_traced Let_def)
    qed (use True l lt in \<open>simp add: disciplined_def fuseserver_createhelper_def\<close>)
  qed
qed

lemma mkdir_locks:
  assumes "isdir p" and "dir_ino (drawn rs) \<noteq> p"
  shows "disciplined (fuseserver_mkdir (traced E) u rs p n (s, [])) (fuseserver_mkdir E u rs p n s)"
proof -
  obtain r c f s1 where l: "yfs_lookup E n p (u_inum u) False s = ((r, c, f), s1)" by (metis prod.exhaust)
  note lt = lookup_traced [of E n p "u_inum u" False s "[]", unfolded l, simplified]
  show ?thesis
  proof (cases "r = 0 \<and> \<not> f")
    case False
    then show ?thesis using l lt
      by (cases "r = 0") (simp_all add: disciplined_def fuseserver_mkdir_def releaseLock_def traced_def)
  next
    case True
    show ?thesis
    proof (cases "draw_ino rs")
      case (Some k)
      obtain r2 s2 where a: "addDirent E p (dir_ino k) n s1 = (r2, s2)" by (metis prod.exhaust)
      obtain r3 st s3 where g: "getattr E u (dir_ino k) s2 = ((r3, st), s3)" by (metis prod.exhaust)
      have "dir_ino k \<noteq> p" using assms(2) Some by (simp add: drawn_def)
      from add_locks [OF assms(1) this a] obtain t where
        "addDirent (traced E) p (dir_ino k) n (s1, [Acq p, Acc p]) = (r2, s2, t)" "lock_check [] t = Some []"
        "lock_check [] (t @ [Acq (dir_ino k), Acc (dir_ino k), Rel (dir_ino k)]) = Some []" by metis
      with True Some l lt a g show ?thesis
        by (simp add: disciplined_def fuseserver_mkdir_def getattr_traced Let_def)
    qed (use True l lt in \<open>simp add: disciplined_def fuseserver_mkdir_def\<close>)
  qed
qed

lemma unlink_locks:
  assumes "isdir p"
  shows "disciplined (Some (fuseserver_unlink (traced E) u p n (s, []))) (Some (fuseserver_unlink E u p n s))"
proof -
  obtain r i f s1 where l: "yfs_lookup E n p (u_inum u) False s = ((r, i, f), s1)" by (metis prod.exhaust)
  note lt = lookup_traced [of E n p "u_inum u" False s "[]", unfolded l, simplified]
  show ?thesis
  proof (cases "r = 0 \<and> f \<and> isfile i")
    case False
    then show ?thesis using l lt
      by (cases "r = 0"; cases f) (simp_all add: disciplined_def fuseserver_unlink_def releaseLock_def traced_def)
  next
    case True
    obtain r2 s2 where d: "yfs_unlink E p i n s1 = (r2, s2)" by (metis prod.exhaust)
    obtain as where as: "set as \<subseteq> {Acc p, Acc i}"
        "yfs_unlink (traced E) p i n (s1, [Acq p, Acc p]) = (r2, s2, Acq p # Acc p # Acq i # as @ [Rel i, Rel p])"
      using unlink_traced [of p i E n s1 "[Acq p, Acc p]"] d by auto
    have "i \<noteq> p" using True assms by (auto simp: isdir_def)
    from lock_check_two [OF assms this as(1)] True l lt d as(2) show ?thesis
      by (simp add: disciplined_def fuseserver_unlink_def)
  qed
qed

lemma oper_locks:
  assumes "lock_pre rs op"
  shows "disciplined (fuseserver_oper L (traced E) u rs op (s, [])) (fuseserver_oper L E u rs op s)"
proof (cases op)
  case (op_getattr i)
  obtain r st s' where "getattr E u i s = ((r, st), s')" by (metis prod.exhaust)
  with op_getattr show ?thesis by (simp add: disciplined_def fuseserver_getattr_def getattr_traced)
next
  case (op_readdir i sz off)
  obtain r ds s' where "readDir E (u_inum u) i [] s = ((r, ds), s')" by (metis prod.exhaust)
  with op_readdir show ?thesis by (simp add: disciplined_def fuseserver_readdir_def readDir_traced Let_def)
next
  case (op_lookup p n)
  obtain r i f s1 where l: "yfs_lookup E n p (u_inum u) True s = ((r, i, f), s1)" by (metis prod.exhaust)
  obtain r2 st s2 where "getattr E u i s1 = ((r2, st), s2)" by (metis prod.exhaust)
  with l op_lookup show ?thesis
    by (simp add: disciplined_def fuseserver_lookup_def lookup_traced getattr_traced Let_def)
next
  case (op_create p n)
  then show ?thesis
    using disciplined_map [OF createhelper_locks, of p] assms
    by (simp add: fuseserver_create_def case_prod_unfold)
next
  case (op_mknod p n)
  then show ?thesis
    using disciplined_map [OF createhelper_locks, of p] assms
    by (simp add: fuseserver_mknod_def case_prod_unfold)
next
  case (op_read i sz off)
  obtain r b s' where "readFile E i (ucast off) (ucast sz) '''' s = ((r, b), s')" by (metis prod.exhaust)
  with op_read show ?thesis by (simp add: disciplined_def fuseserver_read_def readFile_traced)
next
  case (op_write i buf sz off)
  obtain r s' where w: "writeFile E i (ucast off) (ucast sz) (take (unat sz) buf) s = (r, s')" by (metis prod.exhaust)
  obtain as where as: "set as \<subseteq> {Acc i}"
      "writeFile (traced E) i (ucast off) (ucast sz) (take (unat sz) buf) (s, []) = (r, s', Acq i # as @ [Rel i])"
    using writeFile_traced [of i E "ucast off" "ucast sz" "take (unat sz) buf" s "[]"] w by auto
  from lock_check_one [OF as(1)] as(2) w op_write show ?thesis
    by (simp add: disciplined_def fuseserver_write_def)
next
  case (op_setattr i sz ts)
  then show ?thesis by (simp add: setattr_locks)
next
  case (op_unlink p n)
  then show ?thesis using assms by (simp add: unlink_locks)
next
  case (op_mkdir p n)
  then show ?thesis using assms by (simp add: mkdir_locks)
qed (simp_all add: disciplined_def fuseserver_statfs_def fuseserver_open_def)

text \<open>
  C9. Every handler follows the lock discipline on every branch, whatever the extent service answers: an extent is accessed only
  while its lock is held, no lock is taken twice, a second lock only while the lock of a directory is held, no third one, and all
  locks are given back. This is the discipline under which the extent clients are coherent. The premises are that names are added
  to and removed from directories, and that \<open>mkdir\<close> does not draw the number of the parent.
\<close>

theorem fuse_lock_discipline:
  assumes "lock_pre rs op" and "fuseserver_oper L (traced E) u rs op (s, []) = Some (rp, s', t)"
  shows "fuseserver_oper L E u rs op s = Some (rp, s') \<and> lock_check [] t = Some []"
  using oper_locks [OF assms(1), of L E u s] assms(2) by (simp add: disciplined_def)

definition failing_env :: "nat yfs_env" where
  "failing_env =
     \<lparr>y_acquire = \<lambda>l s. s, y_release = \<lambda>l s. s, y_get = \<lambda>l b s. ((if s = 0 then 0 else 1, b), Suc s), y_put = \<lambda>l b s. (1, s),
      y_getattr = \<lambda>l a s. ((1, a), s), y_remove = \<lambda>l s. (1, s)\<rparr>"

theorem fuse_lock_discipline_witness:
  "fuseserver_oper demo_lib (traced failing_env) demo_uninit [7] (op_create 1 ''f'') (0, []) =
     Some (reply_err ENOENT, 2, [Acq 1, Acc 1, Acq 0x80000007, Acc 1, Rel 0x80000007, Rel 1]) \<and>
   fuseserver_oper demo_lib failing_env demo_uninit [7] (op_create 1 ''f'') 0 = Some (reply_err ENOENT, 2) \<and>
   lock_check [] [Acq 1, Acc 1, Acq 0x80000007, Acc 1, Rel 0x80000007, Rel 1] = Some []"
proof -
  have s: "Split '''' ''|'' True True = []" using Split_dir_text [of "[]"] by (simp add: dir_text_def)
  have 1: "fuseserver_oper demo_lib (traced failing_env) demo_uninit [7] (op_create 1 ''f'') (0, []) =
      Some (reply_err ENOENT, 2, [Acq 1, Acc 1, Acq 0x80000007, Acc 1, Rel 0x80000007, Rel 1])"
    by (simp add: fuseserver_create_def fuseserver_createhelper_def yfs_lookup_def addDirent_def traced_def failing_env_def
        Let_def s file_ino_def)
  have "lock_pre [7] (op_create 1 ''f'')" by (simp add: isdir_def isfile_def)
  from fuse_lock_discipline [OF this 1] 1 show ?thesis by simp
qed

end
