(* ===== verification/Lock_Server.thy ===== *)
theory Lock_Server
  imports DS_Prelude "HOL-Library.Multiset"
begin

text \<open>
  The plain lock service: \<^verbatim>\<open>lock_protocol.h\<close>, \<^verbatim>\<open>lock_server.cc\<close>, \<^verbatim>\<open>lock_server.h\<close>, and the stubs
  of \<^verbatim>\<open>lock_client.cc\<close>. \<open>acquire\<close> is split at its condition wait: \<open>ls_acquire\<close> is the part up to
  the first wait, \<open>ls_wake\<close> one return from \<open>pthread_cond_wait\<close>. The step relation
  \<open>ls_step\<close> runs any number of requests; it shows mutual exclusion and that no wake-up is
  lost.
\<close>

section \<open>Protocol\<close>

type_synonym lockid_t = u64

datatype lock_xxstatus = OK | RETRY | RPCERR | NOENT | IOERR

fun lock_status_value :: "lock_xxstatus \<Rightarrow> int" where
  "lock_status_value OK = 0"
| "lock_status_value RETRY = 1"
| "lock_status_value RPCERR = 2"
| "lock_status_value NOENT = 3"
| "lock_status_value IOERR = 4"

section \<open>Server\<close>

datatype lStatus = FREE | LOCKED

text \<open>A client number is printed into \<open>clientId\<close>; the model keeps the number.\<close>

record lockStatus =
  ls_status :: lStatus
  ls_clientId :: "int option"   \<comment> \<open>\<open>None\<close> is the empty string\<close>
  ls_waitingCount :: int

text \<open>The value-initialised element that \<open>operator[]\<close> creates.\<close>

definition lockStatus_default :: lockStatus where
  "lockStatus_default = \<lparr>ls_status = FREE, ls_clientId = None, ls_waitingCount = 0\<rparr>"

record lock_server =
  ls_nacquire :: int
  locks :: "lockid_t \<rightharpoonup> lockStatus"

definition lock_server_init :: lock_server where
  "lock_server_init = \<lparr>ls_nacquire = 0, locks = Map.empty\<rparr>"

definition ls_stat :: "int \<Rightarrow> lockid_t \<Rightarrow> lock_server \<Rightarrow> lock_xxstatus \<times> int" where
  "ls_stat clt lid s = (OK, ls_nacquire s)"

definition ls_changeLockState :: "lockid_t \<Rightarrow> lStatus \<Rightarrow> int option \<Rightarrow> lock_server \<Rightarrow> lock_server" where
  "ls_changeLockState lid st c s =
     s\<lparr>locks := map_upd lockStatus_default lid (\<lambda>l. l\<lparr>ls_status := st, ls_clientId := c\<rparr>) (locks s)\<rparr>"

definition ls_createLock :: "lockid_t \<Rightarrow> int option \<Rightarrow> lock_server \<Rightarrow> lock_server" where
  "ls_createLock lid c s =
     s\<lparr>locks := map_upd lockStatus_default lid
         (\<lambda>l. l\<lparr>ls_status := LOCKED, ls_clientId := c, ls_waitingCount := 0\<rparr>) (locks s)\<rparr>"

text \<open>Up to the first wait; the result tells whether the lock has been granted.\<close>

definition ls_acquire :: "int \<Rightarrow> lockid_t \<Rightarrow> lock_server \<Rightarrow> bool \<times> lock_server" where
  "ls_acquire clt lid s =
     (case locks s lid of
        None \<Rightarrow> (True, ls_createLock lid (Some clt) s)
      | Some l \<Rightarrow>
          if ls_status l = FREE then (True, ls_changeLockState lid LOCKED (Some clt) s)
          else (False, s\<lparr>locks := (locks s)(lid \<mapsto> l\<lparr>ls_waitingCount := ls_waitingCount l + 1\<rparr>)\<rparr>))"

text \<open>A return from the wait: the loop condition is tested again.\<close>

definition ls_wake :: "int \<Rightarrow> lockid_t \<Rightarrow> lock_server \<Rightarrow> bool \<times> lock_server" where
  "ls_wake clt lid s =
     (let s = s\<lparr>locks := map_upd lockStatus_default lid
                (\<lambda>l. l\<lparr>ls_waitingCount := ls_waitingCount l - 1\<rparr>) (locks s)\<rparr> in
      if ls_status (map_at lockStatus_default (locks s) lid) = LOCKED
      then (False, s\<lparr>locks := map_upd lockStatus_default lid
                     (\<lambda>l. l\<lparr>ls_waitingCount := ls_waitingCount l + 1\<rparr>) (locks s)\<rparr>)
      else (True, ls_changeLockState lid LOCKED (Some clt) s))"

text \<open>The result tells whether the waiting threads are signalled.\<close>

definition ls_release :: "int \<Rightarrow> lockid_t \<Rightarrow> lock_server \<Rightarrow> bool \<times> lock_server" where
  "ls_release clt lid s =
     (let s = ls_changeLockState lid FREE None s in
      (ls_waitingCount (map_at lockStatus_default (locks s) lid) > 0, s))"

section \<open>Client stubs\<close>

datatype lock_rpc_numbers = acquire_rpc | release_rpc | stat_rpc

fun lock_rpc_value :: "lock_rpc_numbers \<Rightarrow> int" where
  "lock_rpc_value acquire_rpc = 0x7001"
| "lock_rpc_value release_rpc = 0x7002"
| "lock_rpc_value stat_rpc = 0x7003"

text \<open>
  \<open>call\<close> stands for \<open>rpcc::call\<close> with a procedure number, the client's id and a lock; it yields
  the status of the call and the value of \<open>r\<close>.
\<close>

type_synonym lock_call = "int \<Rightarrow> int \<Rightarrow> lockid_t \<Rightarrow> int \<times> int"

definition lc_stat :: "lock_call \<Rightarrow> int \<Rightarrow> lockid_t \<Rightarrow> fault + int" where
  "lc_stat call clid lid = (case call (lock_rpc_value stat_rpc) clid lid of
     (ret, r) \<Rightarrow> bind_f (VERIFY (ret = lock_status_value OK)) (\<lambda>_. Inr r))"

definition lc_acquire :: "lock_call \<Rightarrow> int \<Rightarrow> lockid_t \<Rightarrow> fault + int" where
  "lc_acquire call clid lid = (case call (lock_rpc_value acquire_rpc) clid lid of
     (ret, r) \<Rightarrow> bind_f (VERIFY (ret = lock_status_value OK)) (\<lambda>_. Inr r))"

definition lc_release :: "lock_call \<Rightarrow> int \<Rightarrow> lockid_t \<Rightarrow> fault + int" where
  "lc_release call clid lid = (case call (lock_rpc_value release_rpc) clid lid of
     (ret, r) \<Rightarrow> bind_f (VERIFY (ret = lock_status_value OK)) (\<lambda>_. Inr r))"

section \<open>Requests in progress\<close>

text \<open>
  \<open>holding\<close> are the granted requests, \<open>waiting\<close> the threads in the condition wait and \<open>woken\<close>
  those that have been signalled; a thread is a client with a lock. A client releases
  only what it holds.
\<close>

record ls_sys =
  ls_srv :: lock_server
  holding :: "(int \<times> lockid_t) multiset"
  waiting :: "(int \<times> lockid_t) multiset"
  woken :: "(int \<times> lockid_t) multiset"

inductive ls_step :: "ls_sys \<Rightarrow> ls_sys \<Rightarrow> bool" where
  ls_step_acquire: "ls_acquire c l (ls_srv y) = (g, s') \<Longrightarrow>
    ls_step y (y\<lparr>ls_srv := s', holding := (if g then add_mset (c, l) (holding y) else holding y),
                 waiting := (if g then waiting y else add_mset (c, l) (waiting y))\<rparr>)"
| ls_step_wake: "\<lbrakk>(c, l) \<in># woken y; ls_wake c l (ls_srv y) = (g, s')\<rbrakk> \<Longrightarrow>
    ls_step y (y\<lparr>ls_srv := s', woken := woken y - {#(c, l)#},
                 holding := (if g then add_mset (c, l) (holding y) else holding y),
                 waiting := (if g then waiting y else add_mset (c, l) (waiting y))\<rparr>)"
| ls_step_release: "\<lbrakk>(c, l) \<in># holding y; ls_release c l (ls_srv y) = (b, s')\<rbrakk> \<Longrightarrow>
    ls_step y (y\<lparr>ls_srv := s', holding := holding y - {#(c, l)#},
                 waiting := (if b then {#p \<in># waiting y. snd p \<noteq> l#} else waiting y),
                 woken := (if b then woken y + {#p \<in># waiting y. snd p = l#} else woken y)\<rparr>)"

definition ls_start :: "ls_sys \<Rightarrow> bool" where
  "ls_start y \<longleftrightarrow> y = \<lparr>ls_srv = lock_server_init, holding = {#}, waiting = {#}, woken = {#}\<rparr>"

definition entry :: "ls_sys \<Rightarrow> lockid_t \<Rightarrow> lockStatus" where
  "entry y l = map_at lockStatus_default (locks (ls_srv y)) l"

definition on :: "lockid_t \<Rightarrow> (int \<times> lockid_t) multiset \<Rightarrow> (int \<times> lockid_t) multiset" where
  "on l M = {#p \<in># M. snd p = l#}"

lemma on_simps [simp]:
  "on l {#} = {#}"
  "on l (add_mset p M) = (if snd p = l then add_mset p (on l M) else on l M)"
  "on l (M + N) = on l M + on l N"
  "on l (on l' M) = (if l = l' then on l M else {#})"
  "on l {#p \<in># M. snd p \<noteq> l'#} = (if l = l' then {#} else on l M)"
  by (auto simp: on_def filter_filter_mset intro: filter_mset_cong filter_mset_False)

lemma on_diff [simp]: "p \<in># M \<Longrightarrow> on l (M - {#p#}) = (if snd p = l then on l M - {#p#} else on l M)"
  by (auto simp: on_def)

text \<open>
  The invariant of a lock: it is held at most once and locked exactly if held, \<open>waitingCount\<close>
  counts the threads in the wait, and threads only stay unsignalled while it is locked.
\<close>

definition lock_ok :: "ls_sys \<Rightarrow> lockid_t \<Rightarrow> bool" where
  "lock_ok y l \<longleftrightarrow>
     size (on l (holding y)) = (if ls_status (entry y l) = LOCKED then 1 else 0) \<and>
     ls_waitingCount (entry y l) = int (size (on l (waiting y)) + size (on l (woken y))) \<and>
     (ls_status (entry y l) = FREE \<longrightarrow> on l (waiting y) = {#}) \<and>
     (locks (ls_srv y) l = None \<longrightarrow> on l (waiting y) = {#} \<and> on l (woken y) = {#})"

lemma acquire_ok:
  assumes "lock_ok y l" and "ls_acquire c k (ls_srv y) = (g, s')"
  shows "lock_ok (y\<lparr>ls_srv := s', holding := (if g then add_mset (c, k) (holding y) else holding y),
                   waiting := (if g then waiting y else add_mset (c, k) (waiting y))\<rparr>) l"
  using assms
  by (cases "l = k"; cases "locks (ls_srv y) k")
    (auto simp: lock_ok_def entry_def ls_acquire_def ls_createLock_def ls_changeLockState_def
      lockStatus_default_def map_at_def map_upd_def split: if_splits)

lemma size_on_diff: "p \<in># M \<Longrightarrow> snd p = l \<Longrightarrow> size (on l M) = Suc (size (on l M - {#p#}))"
  using size_Suc_Diff1 [of p "on l M"] by (simp add: on_def)

lemma wake_ok:
  assumes "lock_ok y l" and "(c, k) \<in># woken y" and "ls_wake c k (ls_srv y) = (g, s')"
  shows "lock_ok (y\<lparr>ls_srv := s', woken := woken y - {#(c, k)#},
                   holding := (if g then add_mset (c, k) (holding y) else holding y),
                   waiting := (if g then waiting y else add_mset (c, k) (waiting y))\<rparr>) l"
proof (cases "l = k")
  case True
  have sz: "size (on k (woken y)) = Suc (size (on k (woken y) - {#(c, k)#}))"
    using size_on_diff [OF assms(2)] by simp
  show ?thesis
  proof (cases "ls_status (entry y k) = LOCKED")
    case True
    with assms sz \<open>l = k\<close> show ?thesis
      by (auto simp: lock_ok_def entry_def ls_wake_def Let_def)
  next
    case False
    then have "ls_status (entry y k) = FREE" by (cases "ls_status (entry y k)") auto
    with assms sz \<open>l = k\<close> show ?thesis
      by (auto simp: lock_ok_def entry_def ls_wake_def ls_changeLockState_def Let_def)
  qed
next
  case False
  with assms(1,3) show ?thesis
    by (auto simp: lock_ok_def entry_def ls_wake_def ls_changeLockState_def Let_def assms(2) split: if_splits)
qed

lemma release_ok:
  assumes "lock_ok y l" and "(c, k) \<in># holding y" and "ls_release c k (ls_srv y) = (b, s')"
  shows "lock_ok (y\<lparr>ls_srv := s', holding := holding y - {#(c, k)#},
                   waiting := (if b then {#p \<in># waiting y. snd p \<noteq> k#} else waiting y),
                   woken := (if b then woken y + {#p \<in># waiting y. snd p = k#} else woken y)\<rparr>) l"
proof (cases "l = k")
  case True
  have sz: "size (on k (holding y)) = Suc (size (on k (holding y) - {#(c, k)#}))"
    using size_on_diff [OF assms(2)] by simp
  then have one: "ls_status (entry y k) = LOCKED" "on k (holding y) - {#(c, k)#} = {#}"
    using assms(1) True by (auto simp: lock_ok_def split: if_splits)
  then have "locks (ls_srv y) k \<noteq> None" by (auto simp: entry_def map_at_def lockStatus_default_def split: option.splits)
  moreover have "on k (waiting y) = {#}" if "\<not> b"
  proof -
    have "\<not> 0 < ls_waitingCount (entry y k)"
      using assms(3) that by (auto simp: ls_release_def ls_changeLockState_def entry_def Let_def)
    moreover have "ls_waitingCount (entry y k) = int (size (on k (waiting y))) + int (size (on k (woken y)))"
      using assms(1) True by (simp add: lock_ok_def)
    ultimately have "size (on k (waiting y)) = 0" by linarith
    then show ?thesis by simp
  qed
  ultimately show ?thesis
    using assms sz one True
    by (auto simp: lock_ok_def entry_def ls_release_def ls_changeLockState_def Let_def on_def [symmetric])
next
  case False
  have "on l {#p \<in># waiting y. snd p = k#} = {#}" using False by (auto simp: on_def filter_filter_mset intro: filter_mset_False)
  with False assms(1,3) show ?thesis
    by (auto simp: lock_ok_def entry_def ls_release_def ls_changeLockState_def Let_def assms(2) split: if_splits)
qed

interpretation lock_service: step_invariant ls_start ls_step "\<lambda>y. \<forall>l. lock_ok y l"
proof
  fix y assume "ls_start y"
  then show "\<forall>l. lock_ok y l"
    by (simp add: ls_start_def lock_ok_def entry_def lock_server_init_def lockStatus_default_def)
next
  fix y z assume y: "\<forall>l. lock_ok y l" and "ls_step y z"
  from this(2) show "\<forall>l. lock_ok z l"
    by cases (use y acquire_ok wake_ok release_ok in \<open>blast+\<close>)
qed

text \<open>
  C36. Mutual exclusion and no lost wake-up of the lock server: whatever requests are running, at
  every moment a lock is held by at most one granted request, and when a lock is free, no
  thread is left in the condition wait for it without having been signalled; \<open>waitingCount\<close>
  is the number of threads that are in the wait.
\<close>

theorem lock_server_mutex:
  assumes "reach ls_start ls_step y"
  shows "size (on l (holding y)) \<le> 1 \<and>
         (ls_status (entry y l) = FREE \<longrightarrow> on l (waiting y) = {#}) \<and>
         ls_waitingCount (entry y l) = int (size (on l (waiting y)) + size (on l (woken y)))"
  using lock_service.reach_inv [OF assms] by (auto simp: lock_ok_def)

definition two_clients :: ls_sys where
  "two_clients = \<lparr>ls_srv = snd (ls_acquire 2 7 (snd (ls_acquire 1 7 lock_server_init))),
     holding = {#(1, 7)#}, waiting = {#(2, 7)#}, woken = {#}\<rparr>"

theorem lock_server_mutex_witness:
  "size (on 7 (holding two_clients)) \<le> 1 \<and> ls_waitingCount (entry two_clients 7) = 1"
proof -
  define s1 where "s1 = snd (ls_acquire 1 7 lock_server_init)"
  let ?y0 = "\<lparr>ls_srv = lock_server_init, holding = {#}, waiting = {#}, woken = {#}\<rparr>"
  let ?y1 = "\<lparr>ls_srv = s1, holding = {#(1, 7)#}, waiting = {#}, woken = {#}\<rparr>"
  have 1: "ls_acquire 1 7 lock_server_init = (True, s1)"
    by (simp add: s1_def ls_acquire_def lock_server_init_def)
  have 2: "ls_acquire 2 7 s1 = (False, ls_srv two_clients)"
    by (simp add: s1_def ls_acquire_def lock_server_init_def ls_createLock_def two_clients_def)
  have "reach ls_start ls_step ?y0" by (rule reach_init) (simp add: ls_start_def)
  moreover have "ls_step ?y0 ?y1"
    using ls_step_acquire [of 1 7 ?y0, unfolded ls_sys.simps, OF 1] by simp
  ultimately have "reach ls_start ls_step ?y1" by (rule reach_step)
  moreover have "ls_step ?y1 two_clients"
    using ls_step_acquire [of 2 7 ?y1, unfolded ls_sys.simps, OF 2] by (simp add: two_clients_def)
  ultimately have "reach ls_start ls_step two_clients" by (rule reach_step)
  from lock_server_mutex [OF this, of 7] show ?thesis by (simp add: two_clients_def)
qed

end
