(* ===== verification/Lock_Cache.thy ===== *)
theory Lock_Cache
  imports Lock_Server Text_Streams
begin

text \<open>
  The caching lock service: \<^verbatim>\<open>lock_server_cache.cc\<close>, \<^verbatim>\<open>lock_client_cache.cc\<close> and their headers. Every operation works on
  the entry of one lock, \<open>lockList[lid]\<close>; the model has that entry, \<open>None\<close> while it is missing. Operations are split where
  they release \<open>mutexLockList\<close>: at condition waits and at remote calls. The step relation \<open>lc_step\<close> interleaves any number of
  clients with any number of threads each, and the handlers of the server; it shows mutual exclusion.
\<close>

section \<open>Server\<close>

datatype srv_lockState = sFREE | sLOCKED

record srv_lockInfo =
  sl_lid :: lockid_t
  sl_state :: srv_lockState
  sl_clientId :: string
  sl_waitList :: "string list"

text \<open>The value-initialised entry that \<open>operator[]\<close> creates.\<close>

definition srv_default :: srv_lockInfo where
  "srv_default = \<lparr>sl_lid = 0, sl_state = sFREE, sl_clientId = [], sl_waitList = []\<rparr>"

definition the_entry :: "'a \<Rightarrow> 'a option \<Rightarrow> 'a" where
  "the_entry d e = (case e of None \<Rightarrow> d | Some x \<Rightarrow> x)"

definition srv_createLock :: "lockid_t \<Rightarrow> string \<Rightarrow> srv_lockInfo option \<Rightarrow> srv_lockInfo" where
  "srv_createLock lid c e = (the_entry srv_default e)\<lparr>sl_lid := lid, sl_state := sLOCKED, sl_clientId := c\<rparr>"

definition srv_updateLockState :: "string \<Rightarrow> srv_lockState \<Rightarrow> srv_lockInfo option \<Rightarrow> srv_lockInfo" where
  "srv_updateLockState c st e = (the_entry srv_default e)\<lparr>sl_clientId := c, sl_state := st\<rparr>"

text \<open>What follows the unlock in \<open>acquire\<close>.\<close>

datatype acq_next =
    AcqReturn lock_xxstatus     \<comment> \<open>return this status\<close>
  | AcqRevokeHolder             \<comment> \<open>revoke the client in \<open>clientId\<close>; return \<open>RETRY\<close>, or \<open>RPCERR\<close> when that fails\<close>
  | AcqRevoke string            \<comment> \<open>revoke this client; return \<open>OK\<close>\<close>

definition srv_acquire :: "lockid_t \<Rightarrow> string \<Rightarrow> srv_lockInfo option \<Rightarrow> acq_next \<times> srv_lockInfo" where
  "srv_acquire lid c e =
     (case e of
        None \<Rightarrow> (AcqReturn OK, srv_createLock lid c e)
      | Some l \<Rightarrow>
          if sl_state l = sLOCKED then
            if length (sl_waitList l) = 0
            then (AcqRevokeHolder, l\<lparr>sl_waitList := sl_waitList l @ [c]\<rparr>)
            else (AcqReturn RETRY, l\<lparr>sl_waitList := sl_waitList l @ [c]\<rparr>)
          else
            (case sl_waitList l of
               [] \<Rightarrow> (AcqReturn OK, srv_updateLockState c sLOCKED (Some l))
             | w # ws \<Rightarrow>
                 if c = w then
                   let l = srv_updateLockState c sLOCKED (Some (l\<lparr>sl_waitList := ws\<rparr>)) in
                   (if length (sl_waitList l) > 0 then AcqRevoke c else AcqReturn OK, l)
                 else (AcqReturn RETRY, l\<lparr>sl_waitList := sl_waitList l @ [c]\<rparr>)))"

text \<open>The result tells whether the first client of \<open>waitList\<close> is told to retry.\<close>

definition srv_release :: "srv_lockInfo option \<Rightarrow> bool \<times> srv_lockInfo" where
  "srv_release e = (let l = srv_updateLockState [] sFREE e in (length (sl_waitList l) > 0, l))"

datatype rlock_xxstatus = rl_OK | rl_RPCERR

text \<open>\<open>revokeLock\<close> and \<open>retryCli\<close>: \<open>ret\<close> is the result of the call, \<open>None\<close> when the client cannot be bound.\<close>

definition revokeLock :: "int option \<Rightarrow> rlock_xxstatus" where
  "revokeLock ret = (if ret = None \<or> ret \<noteq> Some 0 then rl_RPCERR else rl_OK)"

definition retryCli :: "int option \<Rightarrow> rlock_xxstatus" where
  "retryCli ret = (if ret = None \<or> ret \<noteq> Some 0 then rl_RPCERR else rl_OK)"

text \<open>The status that \<open>acquire\<close> returns after a revoke.\<close>

definition acq_revoked :: "acq_next \<Rightarrow> rlock_xxstatus \<Rightarrow> lock_xxstatus" where
  "acq_revoked n r =
     (case n of
        AcqReturn st \<Rightarrow> st
      | AcqRevokeHolder \<Rightarrow> if r \<noteq> rl_OK then RPCERR else RETRY
      | AcqRevoke c \<Rightarrow> OK)"

definition srv_cache_stat :: "int \<Rightarrow> lock_xxstatus \<times> int" where
  "srv_cache_stat nacquire = (OK, nacquire)"

section \<open>Client\<close>

datatype lockState = cNONE | cFREE | cLOCKED | cACQUIRING | cRELEASING

record lockInfo =
  li_lid :: lockid_t
  threadId :: nat
  waitingToRetry :: bool
  waitingToAcq :: bool
  toRetry :: bool
  toRevoke :: bool
  li_state :: lockState
  li_waitList :: "nat set"

text \<open>The identity of a client: the address of its \<open>rpcs\<close>, whose \<open>port\<close> the constructor prints.\<close>

definition client_id :: "nat \<Rightarrow> string" where
  "client_id port = ''127.0.0.1'' @ '':'' @ print_nat port"

definition li_default :: lockInfo where
  "li_default = \<lparr>li_lid = 0, threadId = 0, waitingToRetry = False, waitingToAcq = False, toRetry = False, toRevoke = False,
     li_state = cNONE, li_waitList = {}\<rparr>"

definition cl_createLock :: "lockid_t \<Rightarrow> nat \<Rightarrow> lockInfo option \<Rightarrow> lockInfo" where
  "cl_createLock lid t e = (the_entry li_default e)\<lparr>li_lid := lid, threadId := t, waitingToAcq := False, waitingToRetry := False,
     toRetry := False, toRevoke := False, li_state := cACQUIRING\<rparr>"

definition cl_updateLockState :: "nat \<Rightarrow> lockState \<Rightarrow> lockInfo option \<Rightarrow> lockInfo" where
  "cl_updateLockState t st e = (the_entry li_default e)\<lparr>threadId := t, li_state := st\<rparr>"

text \<open>Where \<open>acquire\<close> goes on: with the lock, in one of its two waits, or in \<open>acquireAndMaybeRetry\<close>.\<close>

datatype cl_next = Got | WaitFree | WaitNone | AcquireRemote

definition cl_acquire :: "lockid_t \<Rightarrow> nat \<Rightarrow> lockInfo option \<Rightarrow> cl_next \<times> lockInfo" where
  "cl_acquire lid t e =
     (case e of
        None \<Rightarrow> (AcquireRemote, cl_createLock lid t e)
      | Some l \<Rightarrow>
          (case li_state l of
             cNONE \<Rightarrow> if waitingToAcq l then (WaitFree, l\<lparr>li_waitList := insert t (li_waitList l)\<rparr>)
                     else (AcquireRemote, cl_updateLockState t cACQUIRING (Some l))
           | cFREE \<Rightarrow> (Got, cl_updateLockState t cLOCKED (Some l))
           | cACQUIRING \<Rightarrow> (WaitFree, l\<lparr>li_waitList := insert t (li_waitList l)\<rparr>)
           | cLOCKED \<Rightarrow> (WaitFree, l\<lparr>li_waitList := insert t (li_waitList l)\<rparr>)
           | cRELEASING \<Rightarrow> if waitingToAcq l then (WaitFree, l\<lparr>li_waitList := insert t (li_waitList l)\<rparr>)
                          else (WaitNone, l\<lparr>waitingToAcq := True\<rparr>)))"

text \<open>A thread returns from its wait on \<open>lockCondVar\<close>; the result tells whether it leaves the loop with the lock.\<close>

definition cl_wake_free :: "nat \<Rightarrow> lockInfo option \<Rightarrow> bool \<times> lockInfo" where
  "cl_wake_free t e =
     (let l = the_entry li_default e in
      if li_state l \<noteq> cFREE then (False, l)
      else let l = cl_updateLockState t cLOCKED (Some l) in (True, l\<lparr>li_waitList := li_waitList l - {t}\<rparr>))"

text \<open>The same for \<open>acquireCondVar\<close>; the thread goes on in \<open>acquireAndMaybeRetry\<close>.\<close>

definition cl_wake_none :: "nat \<Rightarrow> lockInfo option \<Rightarrow> bool \<times> lockInfo" where
  "cl_wake_none t e =
     (let l = the_entry li_default e in
      if li_state l \<noteq> cNONE then (False, l)
      else (True, cl_updateLockState t cACQUIRING (Some (l\<lparr>waitingToAcq := False\<rparr>))))"

text \<open>
  \<open>acquireAndMaybeRetry\<close> after its first call with status \<open>st\<close>: it returns, calls again, or waits for \<open>retryCondVar\<close>.
\<close>

datatype maybe_next = Return | CallAgain | WaitRetry

definition first_reply :: "nat \<Rightarrow> lock_xxstatus \<Rightarrow> lockInfo option \<Rightarrow> maybe_next \<times> lockInfo option" where
  "first_reply t st e =
     (if st = RETRY then
        let l = the_entry li_default e in
        if toRetry l then (CallAgain, Some (l\<lparr>toRetry := False\<rparr>))
        else (WaitRetry, Some (l\<lparr>waitingToRetry := True\<rparr>))
      else if st = OK then (Return, Some (cl_updateLockState t cLOCKED e))
      else (Return, e))"

definition wake_retry :: "lockInfo option \<Rightarrow> maybe_next \<times> lockInfo option" where
  "wake_retry e =
     (let l = the_entry li_default e in
      if \<not> toRetry l then (WaitRetry, Some (l\<lparr>waitingToRetry := True\<rparr>))
      else (CallAgain, Some (l\<lparr>toRetry := False, waitingToRetry := False\<rparr>)))"

text \<open>After the second call.\<close>

definition second_reply :: "nat \<Rightarrow> lock_xxstatus \<Rightarrow> lockInfo option \<Rightarrow> lockInfo option" where
  "second_reply t st e = (if st \<noteq> OK then e else Some (cl_updateLockState t cLOCKED e))"

text \<open>
  \<open>release\<close> up to the first unlock: the result tells whether the lock goes back to the server (with \<open>dorelease\<close> before
  the call) and whether the waiting threads are woken.
\<close>

definition cl_release :: "nat \<Rightarrow> lockInfo option \<Rightarrow> (bool \<times> bool) \<times> lockInfo" where
  "cl_release t e =
     (let l = cl_updateLockState t cFREE e in
      if li_waitList l = {} then
        if toRevoke l then ((True, False), (cl_updateLockState t cRELEASING (Some l))\<lparr>toRevoke := False\<rparr>)
        else ((False, False), l)
      else ((False, True), l))"

text \<open>The rest of \<open>release\<close> and of \<open>revoke_handler\<close> with the status of the call; whether \<open>acquireCondVar\<close> is signalled.\<close>

definition cl_released :: "nat \<Rightarrow> lock_xxstatus \<Rightarrow> lockInfo option \<Rightarrow> bool \<times> lockInfo option" where
  "cl_released t st e =
     (if st = OK then let l = cl_updateLockState t cNONE e in (waitingToAcq l, Some l) else (False, e))"

definition revoke_handler :: "nat \<Rightarrow> lockInfo option \<Rightarrow> bool \<times> lockInfo" where
  "revoke_handler t e =
     (let l = (the_entry li_default e)\<lparr>toRevoke := True\<rparr> in
      if li_state l = cFREE \<and> li_waitList l = {}
      then (True, (cl_updateLockState t cRELEASING (Some l))\<lparr>toRevoke := False\<rparr>)
      else (False, l))"

definition retry_handler :: "lockInfo option \<Rightarrow> bool \<times> lockInfo" where
  "retry_handler e = (let l = (the_entry li_default e)\<lparr>toRetry := True\<rparr> in (waitingToRetry l, l))"

section \<open>Clients, threads and messages\<close>

text \<open>
  Where a thread of a client is: not in the lock client, with the lock (\<open>acquire\<close> has returned), in one of the waits, or in a call.
  A thread in a call stands also for the thread of the server that handles it: before the handler (\<open>Call\<close>, \<open>RelCall\<close>), between the
  unlock and the remote call of the handler (\<open>SrvRevoke\<close>, \<open>SrvRetry\<close>), and with the reply on its way (\<open>Reply\<close>, \<open>RelReply\<close>). \<open>Call\<close>,
  \<open>SrvRevoke\<close> and \<open>Reply\<close> carry whether it is the second call of \<open>acquireAndMaybeRetry\<close>.
\<close>

datatype pc =
    Idle | Hold | InWaitFree | InWaitNone | InWaitRetry
  | Call bool | SrvRevoke bool acq_next | Reply bool lock_xxstatus
  | RelCall | SrvRetry | RelReply

record lc_sys =
  srv :: "srv_lockInfo option"
  cli :: "string \<Rightarrow> lockInfo option"
  pcs :: "string \<Rightarrow> nat \<Rightarrow> pc"

definition set_pc :: "string \<Rightarrow> nat \<Rightarrow> pc \<Rightarrow> lc_sys \<Rightarrow> lc_sys" where
  "set_pc c t p y = y\<lparr>pcs := (pcs y)(c := (pcs y c)(t := p))\<rparr>"

definition set_cli :: "string \<Rightarrow> lockInfo option \<Rightarrow> lc_sys \<Rightarrow> lc_sys" where
  "set_cli c e y = y\<lparr>cli := (cli y)(c := e)\<rparr>"

fun after_acquire :: "cl_next \<Rightarrow> pc" where
  "after_acquire Got = Hold"
| "after_acquire WaitFree = InWaitFree"
| "after_acquire WaitNone = InWaitNone"
| "after_acquire AcquireRemote = Call False"

text \<open>\<open>acquire\<close> returns \<open>OK\<close> when \<open>acquireAndMaybeRetry\<close> returns, whatever happened there.\<close>

fun after_maybe :: "maybe_next \<Rightarrow> pc" where
  "after_maybe Return = Hold"
| "after_maybe CallAgain = Call True"
| "after_maybe WaitRetry = InWaitRetry"

fun after_srv :: "bool \<Rightarrow> acq_next \<Rightarrow> pc" where
  "after_srv k (AcqReturn st) = Reply k st"
| "after_srv k n = SrvRevoke k n"

text \<open>The client that \<open>acquire\<close> revokes; \<open>clientId\<close> is read after the unlock.\<close>

fun revoked :: "acq_next \<Rightarrow> srv_lockInfo option \<Rightarrow> string" where
  "revoked (AcqRevoke c) e = c"
| "revoked n e = sl_clientId (the_entry srv_default e)"

text \<open>
  With \<open>lossy\<close>, a call of \<open>acquire\<close> may fail without reaching the server. The revoke handler runs on an idle thread of its client,
  which goes on with the release when the lock goes back; the server need not wait for it.
\<close>

inductive lc_step :: "bool \<Rightarrow> lockid_t \<Rightarrow> lc_sys \<Rightarrow> lc_sys \<Rightarrow> bool" for lossy :: bool and lid :: lockid_t where
  lc_acquire: "\<lbrakk>pcs y c t = Idle; cl_acquire lid t (cli y c) = (n, e)\<rbrakk> \<Longrightarrow>
    lc_step lossy lid y (set_pc c t (after_acquire n) (set_cli c (Some e) y))"
| lc_wake_free: "\<lbrakk>pcs y c t = InWaitFree; cl_wake_free t (cli y c) = (b, e)\<rbrakk> \<Longrightarrow>
    lc_step lossy lid y (set_pc c t (if b then Hold else InWaitFree) (set_cli c (Some e) y))"
| lc_wake_none: "\<lbrakk>pcs y c t = InWaitNone; cl_wake_none t (cli y c) = (b, e)\<rbrakk> \<Longrightarrow>
    lc_step lossy lid y (set_pc c t (if b then Call False else InWaitNone) (set_cli c (Some e) y))"
| lc_srv_acquire: "\<lbrakk>pcs y c t = Call k; srv_acquire lid c (srv y) = (n, l)\<rbrakk> \<Longrightarrow>
    lc_step lossy lid y (set_pc c t (after_srv k n) (y\<lparr>srv := Some l\<rparr>))"
| lc_call_fails: "\<lbrakk>lossy; pcs y c t = Call k; st \<noteq> OK; st \<noteq> RETRY\<rbrakk> \<Longrightarrow> lc_step lossy lid y (set_pc c t (Reply k st) y)"
| lc_revoke: "\<lbrakk>pcs y c t = SrvRevoke k n; a = revoked n (srv y); revoke_handler t' (cli y a) = (b, e);
      b \<longrightarrow> pcs y a t' = Idle\<rbrakk> \<Longrightarrow>
    lc_step lossy lid y (set_pc c t (Reply k (acq_revoked n (revokeLock (Some 0))))
      ((if b then set_pc a t' RelCall else id) (set_cli a (Some e) y)))"
| lc_first_reply: "\<lbrakk>pcs y c t = Reply False st; first_reply t st (cli y c) = (n, e)\<rbrakk> \<Longrightarrow>
    lc_step lossy lid y (set_pc c t (after_maybe n) (set_cli c e y))"
| lc_wake_retry: "\<lbrakk>pcs y c t = InWaitRetry; wake_retry (cli y c) = (n, e)\<rbrakk> \<Longrightarrow>
    lc_step lossy lid y (set_pc c t (after_maybe n) (set_cli c e y))"
| lc_second_reply: "\<lbrakk>pcs y c t = Reply True st; second_reply t st (cli y c) = e\<rbrakk> \<Longrightarrow>
    lc_step lossy lid y (set_pc c t Hold (set_cli c e y))"
| lc_release: "\<lbrakk>pcs y c t = Hold; cl_release t (cli y c) = ((b, w), e)\<rbrakk> \<Longrightarrow>
    lc_step lossy lid y (set_pc c t (if b then RelCall else Idle) (set_cli c (Some e) y))"
| lc_srv_release: "\<lbrakk>pcs y c t = RelCall; srv_release (srv y) = (b, l)\<rbrakk> \<Longrightarrow>
    lc_step lossy lid y (set_pc c t (if b then SrvRetry else RelReply) (y\<lparr>srv := Some l\<rparr>))"
| lc_retry: "\<lbrakk>pcs y c t = SrvRetry; a = hd (sl_waitList (the_entry srv_default (srv y))); retry_handler (cli y a) = (b, e)\<rbrakk> \<Longrightarrow>
    lc_step lossy lid y (set_pc c t RelReply (set_cli a (Some e) y))"
| lc_released: "\<lbrakk>pcs y c t = RelReply; cl_released t OK (cli y c) = (b, e)\<rbrakk> \<Longrightarrow>
    lc_step lossy lid y (set_pc c t Idle (set_cli c e y))"

definition lc_start :: "lc_sys \<Rightarrow> bool" where
  "lc_start y \<longleftrightarrow> y = \<lparr>srv = None, cli = (\<lambda>_. None), pcs = (\<lambda>_ _. Idle)\<rparr>"

section \<open>Invariant\<close>

text \<open>The state of the client's entry that goes with a busy thread.\<close>

fun busy :: "pc \<Rightarrow> lockState option" where
  "busy Hold = Some cLOCKED"
| "busy (Call k) = Some cACQUIRING"
| "busy (SrvRevoke k n) = Some cACQUIRING"
| "busy (Reply k st) = Some cACQUIRING"
| "busy InWaitRetry = Some cACQUIRING"
| "busy RelCall = Some cRELEASING"
| "busy SrvRetry = Some cRELEASING"
| "busy RelReply = Some cRELEASING"
| "busy _ = None"

text \<open>The server has granted the lock to the client of this thread.\<close>

fun granted :: "pc \<Rightarrow> bool" where
  "granted Hold = True"
| "granted (SrvRevoke k n) = (n \<noteq> AcqRevokeHolder)"
| "granted (Reply k st) = (st = OK)"
| "granted RelCall = True"
| "granted _ = False"

text \<open>The client of this thread is in the wait list of the server.\<close>

fun queued :: "pc \<Rightarrow> bool" where
  "queued (SrvRevoke k n) = (\<not> k \<and> n = AcqRevokeHolder)"
| "queued (Reply k st) = (\<not> k \<and> st = RETRY)"
| "queued InWaitRetry = True"
| "queued (Call k) = k"
| "queued _ = False"

text \<open>Replies that cannot occur: the second call is always granted, and a call fails only with \<open>lossy\<close>.\<close>

fun possible :: "pc \<Rightarrow> bool" where
  "possible (Reply k st) = (st = OK \<or> st = RETRY \<and> \<not> k)"
| "possible (SrvRevoke k n) = ((n = AcqRevokeHolder \<and> \<not> k) \<or> (\<exists>c. n = AcqRevoke c))"
| "possible _ = True"

definition cli_state :: "lc_sys \<Rightarrow> string \<Rightarrow> lockState" where
  "cli_state y c = li_state (the_entry li_default (cli y c))"

definition srv_locked :: "lc_sys \<Rightarrow> string \<Rightarrow> bool" where
  "srv_locked y c \<longleftrightarrow> (\<exists>l. srv y = Some l \<and> sl_state l = sLOCKED \<and> sl_clientId l = c)"

definition wait_list :: "lc_sys \<Rightarrow> string list" where
  "wait_list y = sl_waitList (the_entry srv_default (srv y))"

definition srv_free :: "lc_sys \<Rightarrow> bool" where
  "srv_free y \<longleftrightarrow> sl_state (the_entry srv_default (srv y)) = sFREE"

text \<open>The permission to ask again, on its way from the server to the first waiting client.\<close>

datatype token = TokenSrv string nat | TokenCli string | TokenCall string nat

definition tokens :: "lc_sys \<Rightarrow> token set" where
  "tokens y = {TokenSrv c t | c t. pcs y c t = SrvRetry} \<union> {TokenCli c | c. toRetry (the_entry li_default (cli y c))} \<union>
     {TokenCall c t | c t. pcs y c t = Call True}"

definition token_ok :: "lc_sys \<Rightarrow> token \<Rightarrow> bool" where
  "token_ok y k \<longleftrightarrow> srv_free y \<and> wait_list y \<noteq> [] \<and>
     (case k of TokenSrv c t \<Rightarrow> True | TokenCli c \<Rightarrow> hd (wait_list y) = c | TokenCall c t \<Rightarrow> hd (wait_list y) = c)"

definition lc_inv :: "lc_sys \<Rightarrow> bool" where
  "lc_inv y \<longleftrightarrow>
     (\<forall>c t s. busy (pcs y c t) = Some s \<longrightarrow> cli_state y c = s) \<and>
     (\<forall>c t t'. busy (pcs y c t) \<noteq> None \<longrightarrow> busy (pcs y c t') \<noteq> None \<longrightarrow> t = t') \<and>
     (\<forall>c t. possible (pcs y c t)) \<and>
     (\<forall>c t. granted (pcs y c t) \<longrightarrow> srv_locked y c) \<and>
     (\<forall>c. cli_state y c = cFREE \<longrightarrow> srv_locked y c) \<and>
     (\<forall>c. c \<in> set (wait_list y) \<longrightarrow> (\<exists>t. queued (pcs y c t))) \<and>
     distinct (wait_list y) \<and>
     (\<forall>k\<in>tokens y. token_ok y k) \<and> (\<forall>k\<in>tokens y. \<forall>k'\<in>tokens y. k = k')"

lemma set_simps [simp]:
  "pcs (set_pc c t p y) c' t' = (if c' = c \<and> t' = t then p else pcs y c' t')" "pcs (set_cli c e y) = pcs y"
  "cli (set_cli c e y) c' = (if c' = c then e else cli y c')" "cli (set_pc c t p y) = cli y"
  "srv (set_pc c t p y) = srv y" "srv (set_cli c e y) = srv y"
  "cli_state (set_pc c t p y) = cli_state y" "srv_locked (set_pc c t p y) = srv_locked y" "srv_locked (set_cli c e y) = srv_locked y"
  "wait_list (set_pc c t p y) = wait_list y" "wait_list (set_cli c e y) = wait_list y"
  "srv_free (set_pc c t p y) = srv_free y" "srv_free (set_cli c e y) = srv_free y"
  "cli_state (set_cli c e y) c' = (if c' = c then li_state (the_entry li_default e) else cli_state y c')"
  by (auto simp: set_pc_def set_cli_def cli_state_def srv_locked_def wait_list_def srv_free_def fun_eq_iff)

lemma entry_simps [simp]: "the_entry d (Some x) = x" "the_entry d None = d"
  by (simp_all add: the_entry_def)

lemma set_cli_same [simp]: "set_cli c (cli y c) y = y"
  by (simp add: set_cli_def)

lemma tokens_mem [simp]:
  "TokenSrv c t \<in> tokens y \<longleftrightarrow> pcs y c t = SrvRetry"
  "TokenCli c \<in> tokens y \<longleftrightarrow> toRetry (the_entry li_default (cli y c))"
  "TokenCall c t \<in> tokens y \<longleftrightarrow> pcs y c t = Call True"
  by (auto simp: tokens_def)

lemma token_ok_frame: "srv y' = srv y \<Longrightarrow> token_ok y' = token_ok y"
proof -
  assume s: "srv y' = srv y"
  have "srv_free y' = srv_free y" "wait_list y' = wait_list y" using s by (simp_all add: srv_free_def wait_list_def)
  then show ?thesis by (simp add: fun_eq_iff token_ok_def split: token.split)
qed

lemma lc_invD:
  assumes "lc_inv y"
  shows "busy (pcs y c t) = Some s \<Longrightarrow> cli_state y c = s"
    and "busy (pcs y c t) \<noteq> None \<Longrightarrow> busy (pcs y c t') \<noteq> None \<Longrightarrow> t = t'"
    and "possible (pcs y c t)" and "granted (pcs y c t) \<Longrightarrow> srv_locked y c" and "cli_state y c = cFREE \<Longrightarrow> srv_locked y c"
    and "c \<in> set (wait_list y) \<Longrightarrow> \<exists>t. queued (pcs y c t)" and "distinct (wait_list y)"
    and "k \<in> tokens y \<Longrightarrow> token_ok y k" and "k \<in> tokens y \<Longrightarrow> k' \<in> tokens y \<Longrightarrow> k = k'"
  using assms unfolding lc_inv_def by (blast, blast, blast, blast, blast, blast, blast, blast, blast)

lemma lc_invI:
  assumes "\<And>c t s. busy (pcs y c t) = Some s \<Longrightarrow> cli_state y c = s"
    and "\<And>c t t'. busy (pcs y c t) \<noteq> None \<Longrightarrow> busy (pcs y c t') \<noteq> None \<Longrightarrow> t = t'"
    and "\<And>c t. possible (pcs y c t)" and "\<And>c t. granted (pcs y c t) \<Longrightarrow> srv_locked y c" and "\<And>c. cli_state y c = cFREE \<Longrightarrow> srv_locked y c"
    and "\<And>c. c \<in> set (wait_list y) \<Longrightarrow> \<exists>t. queued (pcs y c t)" and "distinct (wait_list y)"
    and "\<And>k. k \<in> tokens y \<Longrightarrow> token_ok y k" and "\<And>k k'. k \<in> tokens y \<Longrightarrow> k' \<in> tokens y \<Longrightarrow> k = k'"
  shows "lc_inv y"
  unfolding lc_inv_def by (intro conjI allI impI ballI) (fact assms(1) assms(2) assms(3) assms(4) assms(5) assms(6) assms(7) assms(8) assms(9) | rule assms(1) assms(2) assms(4) assms(5) assms(6) assms(8) assms(9); assumption)+

lemma idle_state:
  assumes "lc_inv y" and "cli_state y c \<in> {cNONE, cFREE}"
  shows "busy (pcs y c t) = None"
proof (cases "pcs y c t")
qed (use lc_invD(1) [OF assms(1), of c t] assms(2) in auto)

lemma only_busy:
  assumes "lc_inv y" and "busy (pcs y c t) = Some s"
  shows "\<forall>t'. t' \<noteq> t \<longrightarrow> busy (pcs y c t') = None"
proof (intro allI impI)
  fix t' assume "t' \<noteq> t"
  then show "busy (pcs y c t') = None" using lc_invD(2) [OF assms(1), of c t t'] assms(2) by (cases "busy (pcs y c t')") auto
qed

text \<open>A step of one thread that changes the entry of its client and leaves the server alone.\<close>

lemma inv_local:
  assumes inv: "lc_inv y"
    and others: "(\<forall>t'. t' \<noteq> t \<longrightarrow> busy (pcs y c t') = None) \<or> busy p' = None \<and> li_state (the_entry li_default e) = cli_state y c"
    and st: "\<And>s. busy p' = Some s \<Longrightarrow> li_state (the_entry li_default e) = s" and pos: "possible p'"
    and gr: "granted p' \<or> li_state (the_entry li_default e) = cFREE \<Longrightarrow> srv_locked y c"
    and qu: "queued (pcs y c t) \<Longrightarrow> queued p'"
    and tok: "\<forall>k\<in>tokens (set_pc c t p' (set_cli c e y)). token_ok y k"
      "\<forall>k\<in>tokens (set_pc c t p' (set_cli c e y)). \<forall>k'\<in>tokens (set_pc c t p' (set_cli c e y)). k = k'"
  shows "lc_inv (set_pc c t p' (set_cli c e y))"
proof -
  note D = lc_invD [OF inv]

  show ?thesis
    unfolding lc_inv_def
  proof (intro conjI allI impI, goal_cases)
    case (1 d u s)
    then show ?case using 1 st others D(1) [of d u s] by (cases "d = c"; cases "u = t") auto
  next
    case (2 d u u')
    then show ?case using others D(2) [of d u u'] by (cases "d = c"; cases "u = t"; cases "u' = t") auto
  next
    case (3 d u)
    then show ?case using pos D(3) by simp
  next
    case (4 d u)
    then show ?case using gr D(4) [of d u] by (auto split: if_splits)
  next
    case (5 d)
    then show ?case using gr D(5) [of d] by (auto split: if_splits)
  next
    case (6 d)
    then obtain u where "queued (pcs y d u)" using D(6) [of d] by auto
    then show ?case using qu by (intro exI [of _ u]) auto
  next
    case 7
    then show ?case using D(7) by simp
  next
    case 8
    then show ?case using tok(1) token_ok_frame [of "set_pc c t p' (set_cli c e y)" y] by simp
  next
    case 9
    then show ?case using tok(2) by blast
  qed
qed

text \<open>Steps that leave all permissions alone, or use the one of the client.\<close>

lemma tokens_subset:
  assumes "toRetry (the_entry li_default e) \<longrightarrow> toRetry (the_entry li_default (cli y c))"
    and "p' \<noteq> SrvRetry" and "p' = Call True \<longrightarrow> pcs y c t = Call True"
  shows "tokens (set_pc c t p' (set_cli c e y)) \<subseteq> tokens y"
proof
  fix k assume "k \<in> tokens (set_pc c t p' (set_cli c e y))"
  then show "k \<in> tokens y" using assms by (cases k) (auto split: if_splits)
qed

lemma inv_local_quiet:
  assumes "lc_inv y"
    and "(\<forall>t'. t' \<noteq> t \<longrightarrow> busy (pcs y c t') = None) \<or> busy p' = None \<and> li_state (the_entry li_default e) = cli_state y c"
    and "\<And>s. busy p' = Some s \<Longrightarrow> li_state (the_entry li_default e) = s" and "possible p'"
    and "granted p' \<or> li_state (the_entry li_default e) = cFREE \<Longrightarrow> srv_locked y c"
    and "queued (pcs y c t) \<Longrightarrow> queued p'"
    and "toRetry (the_entry li_default e) \<longrightarrow> toRetry (the_entry li_default (cli y c))"
    and "p' \<noteq> SrvRetry" and "p' = Call True \<longrightarrow> pcs y c t = Call True"
  shows "lc_inv (set_pc c t p' (set_cli c e y))"
proof -
  note sub = tokens_subset [OF assms(7-9)]
  have 1: "\<forall>k\<in>tokens (set_pc c t p' (set_cli c e y)). token_ok y k"
    using sub lc_invD(8) [OF assms(1)] by blast
  have 2: "\<forall>k\<in>tokens (set_pc c t p' (set_cli c e y)). \<forall>k'\<in>tokens (set_pc c t p' (set_cli c e y)). k = k'"
    using sub lc_invD(9) [OF assms(1)] by blast
  show ?thesis by (rule inv_local [OF assms(1,2) _ assms(4) _ _ 1 2]) (fact assms(3,5,6))+
qed

lemma inv_local_call:
  assumes inv: "lc_inv y" and p: "busy (pcs y c t) = Some cACQUIRING"
    and e: "li_state (the_entry li_default e) = cACQUIRING" "\<not> toRetry (the_entry li_default e)" "toRetry (the_entry li_default (cli y c))"
  shows "lc_inv (set_pc c t (Call True) (set_cli c e y))"
proof -
  let ?y = "set_pc c t (Call True) (set_cli c e y)"
  have tok: "k = TokenCli c" if "k \<in> tokens y" for k using lc_invD(9) [OF inv, of "TokenCli c" k] e(3) that by simp
  have only: "k = TokenCall c t" if "k \<in> tokens ?y" for k
  proof (cases k)
    case (TokenSrv d u)
    then show ?thesis using that tok [of k] by (auto split: if_splits)
  next
    case (TokenCli d)
    then show ?thesis using that tok [of k] e(2) by (auto split: if_splits)
  next
    case (TokenCall d u)
    then show ?thesis using that tok [of k] by (auto split: if_splits)
  qed
  have "token_ok y (TokenCli c)" using lc_invD(8) [OF inv, of "TokenCli c"] e(3) by simp
  then have "token_ok y (TokenCall c t)" by (simp add: token_ok_def)
  with only show ?thesis
    using only_busy [OF inv p] e(1) by (intro inv_local [OF inv]) auto
qed

section \<open>Steps of the clients\<close>

lemmas cl_defs = cl_updateLockState_def cl_createLock_def li_default_def

lemma inv_acquire:
  assumes inv: "lc_inv y" and pc: "pcs y c t = Idle" and a: "cl_acquire lid t (cli y c) = (n, e)"
  shows "lc_inv (set_pc c t (after_acquire n) (set_cli c (Some e) y))"
proof -
  note I = idle_state [OF inv, of c]
  have s: "cli_state y c = li_state (the_entry li_default (cli y c))" by (simp add: cli_state_def)
  show ?thesis
  proof (cases n)
    case Got
    then have "cli_state y c = cFREE" "li_state e = cLOCKED" "toRetry e = toRetry (the_entry li_default (cli y c))"
      using a by (auto simp: s cl_acquire_def cl_defs split: option.splits lockState.splits if_splits)
    with Got I pc lc_invD(5) [OF inv, of c] show ?thesis by (intro inv_local_quiet [OF inv]) auto
  next
    case AcquireRemote
    then have "cli_state y c = cNONE" "li_state e = cACQUIRING" "toRetry e = toRetry (the_entry li_default (cli y c))"
      using a by (auto simp: s cl_acquire_def cl_defs split: option.splits lockState.splits if_splits)
    with AcquireRemote I pc show ?thesis by (intro inv_local_quiet [OF inv]) auto
  next
    case WaitFree
    then have "cli_state y c \<noteq> cFREE" "li_state e = cli_state y c" "toRetry e = toRetry (the_entry li_default (cli y c))"
      using a by (auto simp: s cl_acquire_def cl_defs split: option.splits lockState.splits if_splits)
    with WaitFree pc show ?thesis by (intro inv_local_quiet [OF inv]) auto
  next
    case WaitNone
    then have "cli_state y c \<noteq> cFREE" "li_state e = cli_state y c" "toRetry e = toRetry (the_entry li_default (cli y c))"
      using a by (auto simp: s cl_acquire_def cl_defs split: option.splits lockState.splits if_splits)
    with WaitNone pc show ?thesis by (intro inv_local_quiet [OF inv]) auto
  qed
qed

lemma inv_wake_free:
  assumes inv: "lc_inv y" and pc: "pcs y c t = InWaitFree" and a: "cl_wake_free t (cli y c) = (b, e)"
  shows "lc_inv (set_pc c t (if b then Hold else InWaitFree) (set_cli c (Some e) y))"
proof (cases b)
  case True
  then have "cli_state y c = cFREE" "li_state e = cLOCKED" "toRetry e = toRetry (the_entry li_default (cli y c))"
    using a by (auto simp: cli_state_def cl_wake_free_def cl_defs Let_def split: if_splits)
  with True idle_state [OF inv, of c] lc_invD(5) [OF inv, of c] pc show ?thesis by (intro inv_local_quiet [OF inv]) auto
next
  case False
  then have "cli_state y c \<noteq> cFREE" "li_state e = cli_state y c" "toRetry e = toRetry (the_entry li_default (cli y c))"
    using a by (auto simp: cli_state_def cl_wake_free_def Let_def split: if_splits)
  with False pc show ?thesis by (intro inv_local_quiet [OF inv]) auto
qed

lemma inv_wake_none:
  assumes inv: "lc_inv y" and pc: "pcs y c t = InWaitNone" and a: "cl_wake_none t (cli y c) = (b, e)"
  shows "lc_inv (set_pc c t (if b then Call False else InWaitNone) (set_cli c (Some e) y))"
proof (cases b)
  case True
  then have "cli_state y c = cNONE" "li_state e = cACQUIRING" "toRetry e = toRetry (the_entry li_default (cli y c))"
    using a by (auto simp: cli_state_def cl_wake_none_def cl_defs Let_def split: if_splits)
  with True idle_state [OF inv, of c] pc show ?thesis by (intro inv_local_quiet [OF inv]) auto
next
  case False
  then have "li_state e = cli_state y c" "toRetry e = toRetry (the_entry li_default (cli y c))"
    using a by (auto simp: cli_state_def cl_wake_none_def Let_def split: if_splits)
  with False pc lc_invD(5) [OF inv, of c] show ?thesis by (intro inv_local_quiet [OF inv]) auto
qed

lemma inv_replied:
  assumes inv: "lc_inv y" and pc: "pcs y c t = Reply k OK" and e: "e = Some (cl_updateLockState t cLOCKED (cli y c))"
  shows "lc_inv (set_pc c t Hold (set_cli c e y))"
  using only_busy [OF inv, of c t] lc_invD(4) [OF inv, of c t] pc by (intro inv_local_quiet [OF inv]) (auto simp: e cl_updateLockState_def)

lemma inv_first_reply:
  assumes inv: "lc_inv y" and pc: "pcs y c t = Reply False st" and a: "first_reply t st (cli y c) = (n, e)"
  shows "lc_inv (set_pc c t (after_maybe n) (set_cli c e y))"
proof (cases "st = OK")
  case True
  then show ?thesis using inv_replied [OF inv, of c t False e] pc a by (auto simp: first_reply_def)
next
  case False
  then have st: "st = RETRY" using lc_invD(3) [OF inv, of c t] pc by simp
  have "li_state (the_entry li_default (cli y c)) = cACQUIRING" using lc_invD(1) [OF inv, of c t] pc by (simp add: cli_state_def)
  then show ?thesis
    using st a pc only_busy [OF inv, of c t]
    by (cases "toRetry (the_entry li_default (cli y c))")
      (auto simp: first_reply_def intro!: inv_local_call [OF inv] inv_local_quiet [OF inv])
qed

lemma inv_wake_retry:
  assumes inv: "lc_inv y" and pc: "pcs y c t = InWaitRetry" and a: "wake_retry (cli y c) = (n, e)"
  shows "lc_inv (set_pc c t (after_maybe n) (set_cli c e y))"
proof -
  have "li_state (the_entry li_default (cli y c)) = cACQUIRING" using lc_invD(1) [OF inv, of c t] pc by (simp add: cli_state_def)
  then show ?thesis
    using a pc only_busy [OF inv, of c t]
    by (cases "toRetry (the_entry li_default (cli y c))")
      (auto simp: wake_retry_def Let_def intro!: inv_local_call [OF inv] inv_local_quiet [OF inv])
qed

lemma inv_second_reply:
  assumes inv: "lc_inv y" and pc: "pcs y c t = Reply True st"
  shows "lc_inv (set_pc c t Hold (set_cli c (second_reply t st (cli y c)) y))"
proof -
  have "st = OK" using lc_invD(3) [OF inv, of c t] pc by simp
  then show ?thesis using inv_replied [OF inv, of c t True] pc by (simp add: second_reply_def)
qed

lemma inv_release:
  assumes inv: "lc_inv y" and pc: "pcs y c t = Hold" and a: "cl_release t (cli y c) = ((b, w), e)"
  shows "lc_inv (set_pc c t (if b then RelCall else Idle) (set_cli c (Some e) y))"
proof -
  have "li_state e = (if b then cRELEASING else cFREE)" "toRetry e = toRetry (the_entry li_default (cli y c))"
    using a by (auto simp: cl_release_def cl_defs Let_def split: if_splits)
  then show ?thesis
    using only_busy [OF inv, of c t] lc_invD(4) [OF inv, of c t] pc by (intro inv_local_quiet [OF inv]) auto
qed

lemma inv_released:
  assumes inv: "lc_inv y" and pc: "pcs y c t = RelReply" and a: "cl_released t OK (cli y c) = (b, e)"
  shows "lc_inv (set_pc c t Idle (set_cli c e y))"
  using only_busy [OF inv, of c t] pc a by (intro inv_local_quiet [OF inv]) (auto simp: cl_released_def cl_updateLockState_def Let_def)

lemma inv_entry:
  assumes "lc_inv y" and "li_state (the_entry li_default e) = cli_state y a"
    and "toRetry (the_entry li_default e) = toRetry (the_entry li_default (cli y a))"
  shows "lc_inv (set_cli a e y)"
proof -
  have "cli_state (set_cli a e y) = cli_state y" using assms(2) by (auto simp: fun_eq_iff)
  moreover have "k \<in> tokens (set_cli a e y) \<longleftrightarrow> k \<in> tokens y" for k using assms(3) by (cases k) auto
  then have "tokens (set_cli a e y) = tokens y" by blast
  moreover have "token_ok (set_cli a e y) = token_ok y" by (rule token_ok_frame) simp
  ultimately show ?thesis using assms(1) unfolding lc_inv_def by simp
qed

lemma set_commute:
  assumes "(a, t') \<noteq> (c, t)"
  shows "set_pc c t p (set_pc a t' q (set_cli a e y)) = set_pc a t' q (set_cli a e (set_pc c t p y))"
    and "set_pc c t p (set_cli a e y) = set_cli a e (set_pc c t p y)"
  using assms by (auto simp: set_pc_def set_cli_def fun_eq_iff)

lemma inv_revoke:
  assumes inv: "lc_inv y" and pc: "pcs y c t = SrvRevoke k n" and r: "revoke_handler t' (cli y a) = (b, e)"
    and idle: "b \<longrightarrow> pcs y a t' = Idle"
  shows "lc_inv (set_pc c t (Reply k (acq_revoked n (revokeLock (Some 0)))) ((if b then set_pc a t' RelCall else id) (set_cli a (Some e) y)))"
proof -
  let ?y = "set_pc c t (Reply k (acq_revoked n (revokeLock (Some 0)))) y"
  have y: "lc_inv ?y"
    using inv_local_quiet [OF inv, where c = c and t = t and e = "cli y c" and p' = "Reply k (acq_revoked n (revokeLock (Some 0)))"]
      only_busy [OF inv, of c t] lc_invD(1,3,4) [OF inv, of c t] pc
    by (auto simp: acq_revoked_def revokeLock_def cli_state_def)
  show ?thesis
  proof (cases b)
    case True
    have e: "li_state e = cRELEASING" "cli_state y a = cFREE" "toRetry e = toRetry (the_entry li_default (cli y a))"
      using r True by (auto simp: revoke_handler_def cli_state_def cl_defs Let_def split: if_splits)
    have ne: "(a, t') \<noteq> (c, t)" using idle True pc by auto
    have "lc_inv (set_pc a t' RelCall (set_cli a (Some e) ?y))"
      using e idle True ne idle_state [OF y, of a] lc_invD(5) [OF y, of a]
      by (intro inv_local_quiet [OF y]) (auto simp del: set_simps(1) simp: set_simps(1) [of c t _ y a])
    then show ?thesis using set_commute(1) [OF ne] True by simp
  next
    case False
    then have "li_state e = cli_state y a" "toRetry e = toRetry (the_entry li_default (cli y a))"
      using r by (auto simp: revoke_handler_def cli_state_def Let_def split: if_splits)
    then have "lc_inv (set_cli a (Some e) ?y)" by (intro inv_entry [OF y]) simp_all
    moreover have "set_pc c t p (set_cli a (Some e) y) = set_cli a (Some e) (set_pc c t p y)" for p
      by (auto simp: set_pc_def set_cli_def)
    ultimately show ?thesis using False by simp
  qed
qed

lemma inv_retry:
  assumes inv: "lc_inv y" and pc: "pcs y c t = SrvRetry" and a: "a = hd (wait_list y)" and r: "retry_handler (cli y a) = (b, e)"
  shows "lc_inv (set_pc c t RelReply (set_cli a (Some e) y))"
proof -
  note D = lc_invD [OF inv]
  have e: "e = (the_entry li_default (cli y a))\<lparr>toRetry := True\<rparr>" using r by (simp add: retry_handler_def Let_def)
  have tok: "k = TokenSrv c t" if "k \<in> tokens y" for k using D(9) [of "TokenSrv c t" k] pc that by simp
  let ?y = "set_pc c t RelReply (set_cli a (Some e) y)"
  have only: "k = TokenCli a" if "k \<in> tokens ?y" for k
  proof (cases k)
    case (TokenSrv d u)
    then show ?thesis using that tok [of k] by (auto split: if_splits)
  next
    case (TokenCli d)
    then show ?thesis using that tok [of k] by (auto split: if_splits)
  next
    case (TokenCall d u)
    then show ?thesis using that tok [of k] by (auto split: if_splits)
  qed
  have "token_ok y (TokenSrv c t)" using D(8) [of "TokenSrv c t"] pc by simp
  then have ok: "token_ok y (TokenCli a)" by (simp add: token_ok_def a)
  have cs: "cli_state ?y = cli_state y" by (auto simp: fun_eq_iff e cli_state_def)
  have b: "busy (pcs ?y d u) = busy (pcs y d u)" "granted (pcs ?y d u) \<longrightarrow> granted (pcs y d u)" "queued (pcs ?y d u) = queued (pcs y d u)"
      "possible (pcs ?y d u)" for d u
    using pc D(3) [of d u] by auto
  show ?thesis
  proof (rule lc_invI, goal_cases)
    case (1 d u s)
    then show ?case unfolding b(1) cs by (rule D(1))
  next
    case (2 d u u')
    then show ?case unfolding b(1) by (rule D(2))
  next
    case (4 d u)
    then show ?case using D(4) [of d u] b(2) by simp
  next
    case (5 d)
    then show ?case using D(5) [of d] unfolding cs by simp
  next
    case (6 d)
    then show ?case using D(6) [of d] unfolding b(3) by simp
  next
    case (8 k)
    then show ?case using only [OF 8] ok token_ok_frame [of ?y y] by simp
  next
    case (9 k k')
    then show ?case using only by blast
  qed (use b(4) D(7) in simp_all)
qed

section \<open>Steps of the server\<close>

lemma srv_upd_simps [simp]:
  "pcs (y\<lparr>srv := e\<rparr>) = pcs y" "cli (y\<lparr>srv := e\<rparr>) = cli y" "cli_state (y\<lparr>srv := e\<rparr>) = cli_state y"
  "srv_locked (y\<lparr>srv := Some l\<rparr>) d \<longleftrightarrow> sl_state l = sLOCKED \<and> sl_clientId l = d"
  "wait_list (y\<lparr>srv := Some l\<rparr>) = sl_waitList l" "srv_free (y\<lparr>srv := Some l\<rparr>) \<longleftrightarrow> sl_state l = sFREE"
  by (auto simp: cli_state_def fun_eq_iff srv_locked_def wait_list_def srv_free_def)

lemma granted_busy: "granted p \<Longrightarrow> busy p \<noteq> None"
  by (cases p) auto

lemma queued_busy: "queued p \<Longrightarrow> busy p \<noteq> None"
  by (cases p) auto

lemma inv_server:
  assumes inv: "lc_inv y" and b: "busy (pcs y c t) = Some s" "busy p' = Some s" and pos: "possible p'"
    and gr: "granted p' \<Longrightarrow> sl_state l = sLOCKED \<and> sl_clientId l = c"
    and lock: "\<And>d. srv_locked y d \<Longrightarrow> d \<noteq> c \<or> granted p' \<Longrightarrow> sl_state l = sLOCKED \<and> sl_clientId l = d"
    and wait: "\<And>d. d \<in> set (sl_waitList l) \<Longrightarrow> if d = c then queued p' else d \<in> set (wait_list y)" and dist: "distinct (sl_waitList l)"
    and tok: "\<And>k. k \<in> tokens (set_pc c t p' (y\<lparr>srv := Some l\<rparr>)) \<Longrightarrow> token_ok (set_pc c t p' (y\<lparr>srv := Some l\<rparr>)) k"
      "\<And>k k'. k \<in> tokens (set_pc c t p' (y\<lparr>srv := Some l\<rparr>)) \<Longrightarrow> k' \<in> tokens (set_pc c t p' (y\<lparr>srv := Some l\<rparr>)) \<Longrightarrow> k = k'"
  shows "lc_inv (set_pc c t p' (y\<lparr>srv := Some l\<rparr>))"
proof -
  note D = lc_invD [OF inv]
  have bb: "busy (if d = c \<and> u = t then p' else pcs (y\<lparr>srv := Some l\<rparr>) d u) = busy (pcs y d u)" for d u using b by simp
  have ne: "s \<noteq> cFREE" using b(2) by (cases p') auto
  show ?thesis
  proof (rule lc_invI, goal_cases)
    case (1 d u s)
    then show ?case using D(1) [of d u s] by (simp add: bb)
  next
    case (2 d u u')
    then show ?case using D(2) [of d u u'] by (simp add: bb)
  next
    case (3 d u)
    then show ?case using pos D(3) by simp
  next
    case (4 d u)
    show ?case
    proof (cases "d = c")
      case True
      have "u = t" using 4 True D(2) [of c u t] b(1) granted_busy [of "pcs y c u"] by (cases "u = t") auto
      then show ?thesis using 4 True gr by simp
    next
      case False
      then show ?thesis using 4 D(4) [of d u] lock [of d] by simp
    qed
  next
    case (5 d)
    then have "d \<noteq> c" using D(1) [OF b(1)] ne by auto
    then show ?case using 5 D(5) [of d] lock [of d] by simp
  next
    case (6 d)
    then have d: "if d = c then queued p' else d \<in> set (wait_list y)" using wait by simp
    show ?case
    proof (cases "d = c")
      case False
      then obtain u where "queued (pcs y d u)" using d D(6) [of d] by auto
      then show ?thesis using False by (intro exI [of _ u]) simp
    qed (use d in \<open>auto intro: exI [of _ t]\<close>)
  next
    case (8 k)
    then show ?case by (rule tok(1))
  next
    case (9 k k')
    then show ?case by (rule tok(2))
  qed (simp add: dist)
qed

lemma tokens_set_pc:
  assumes "k \<in> tokens (set_pc c t p' (y\<lparr>srv := Some l\<rparr>))" and "p' \<noteq> SrvRetry" and "p' \<noteq> Call True"
  shows "k \<in> tokens y \<and> k \<noteq> TokenCall c t"
  using assms by (cases k) (auto split: if_splits)

lemmas srv_acquire_defs = srv_locked_def srv_free_def wait_list_def srv_default_def srv_acquire_def srv_createLock_def srv_updateLockState_def

text \<open>The three outcomes of \<open>acquire\<close> on the server: a free lock, the turn of a waiting client, or the wait list.\<close>

lemma srv_acquire_cases [consumes 3, case_names grant pass queue]:
  assumes a: "srv_acquire lid c (srv y) = (n, l)"
    and kt: "k \<longrightarrow> srv_free y \<and> wait_list y \<noteq> [] \<and> hd (wait_list y) = c" and mine: "c \<in> set (wait_list y) \<longrightarrow> k"
  obtains (grant) "\<not> k" "n = AcqReturn OK" "\<And>d. \<not> srv_locked y d" "sl_state l = sLOCKED" "sl_clientId l = c" "sl_waitList l = []" "wait_list y = []"
    | (pass) ws where "wait_list y = c # ws" "srv_free y" "\<And>d. \<not> srv_locked y d" "n = AcqReturn OK \<or> n = AcqRevoke c"
        "sl_state l = sLOCKED" "sl_clientId l = c" "sl_waitList l = ws"
    | (queue) "\<not> k" "n = AcqReturn RETRY \<or> n = AcqRevokeHolder" "\<And>d. srv_locked y d \<longleftrightarrow> sl_state l = sLOCKED \<and> sl_clientId l = d"
        "srv_free y \<longleftrightarrow> sl_state l = sFREE" "sl_waitList l = wait_list y @ [c]" "c \<notin> set (wait_list y)" "srv_free y \<longrightarrow> wait_list y \<noteq> []"
proof (cases "srv y")
  case None
  then have "\<not> k" using kt by (auto simp: wait_list_def srv_default_def)
  then show thesis using None a by (intro grant) (auto simp: srv_acquire_defs)
next
  case (Some l0)
  show thesis
  proof (cases "sl_state l0 = sLOCKED")
    case True
    then have "\<not> k" using kt Some by (auto simp: srv_free_def)
    then show thesis using True Some a mine by (intro queue) (auto simp: srv_acquire_defs split: if_splits)
  next
    case False
    then have F: "sl_state l0 = sFREE" by (cases "sl_state l0") simp_all
    show thesis
    proof (cases "sl_waitList l0")
      case Nil
      then have "\<not> k" using kt Some by (auto simp: wait_list_def)
      then show thesis using Nil F Some a by (intro grant) (auto simp: srv_acquire_defs)
    next
      case (Cons w ws)
      show thesis
      proof (cases "c = w")
        case True
        then show thesis using Cons F Some a by (intro pass [of ws]) (auto simp: srv_acquire_defs Let_def split: if_splits)
      next
        case False
        then have "\<not> k" using kt Cons Some by (auto simp: wait_list_def)
        then show thesis using False Cons F Some a mine by (intro queue) (auto simp: srv_acquire_defs)
      qed
    qed
  qed
qed

lemma inv_srv_acquire:
  assumes inv: "lc_inv y" and pc: "pcs y c t = Call k" and a: "srv_acquire lid c (srv y) = (n, l)"
  shows "lc_inv (set_pc c t (after_srv k n) (y\<lparr>srv := Some l\<rparr>))"
proof -
  note D = lc_invD [OF inv]
  let ?y = "set_pc c t (after_srv k n) (y\<lparr>srv := Some l\<rparr>)"
  have b: "busy (pcs y c t) = Some cACQUIRING" "busy (after_srv k n) = Some cACQUIRING" using pc by (simp, cases n, simp_all)
  have ns: "after_srv k n \<noteq> SrvRetry" "after_srv k n \<noteq> Call True" by (cases n, simp_all)+
  have tk: "k' \<in> tokens y" "k' \<noteq> TokenCall c t" if "k' \<in> tokens ?y" for k' using tokens_set_pc [OF that ns] by auto
  have tok2: "k1 = k2" if "k1 \<in> tokens ?y" "k2 \<in> tokens ?y" for k1 k2 using tk that D(9) by blast
  have kt: "k \<longrightarrow> srv_free y \<and> wait_list y \<noteq> [] \<and> hd (wait_list y) = c"
    using D(8) [of "TokenCall c t"] pc by (simp add: token_ok_def)
  have mine: "c \<in> set (wait_list y) \<longrightarrow> k"
  proof
    assume "c \<in> set (wait_list y)"
    then obtain u where u: "queued (pcs y c u)" using D(6) by blast
    then have "u = t" using D(2) [of c u t] queued_busy b(1) by fastforce
    then show k using u pc by simp
  qed
  from a kt mine show ?thesis
  proof (cases rule: srv_acquire_cases)
    case grant
    have "k' \<notin> tokens ?y" for k' using D(8) [of k'] tk(1) [of k'] grant(7) by (auto simp: token_ok_def)
    with grant b show ?thesis by (intro inv_server [OF inv b]) auto
  next
    case (pass ws)
    then have k using mine by simp
    then have "k' \<notin> tokens ?y" for k' using D(9) [of "TokenCall c t" k'] tk [of k'] pc by auto
    with \<open>k\<close> pass b D(7) show ?thesis by (intro inv_server [OF inv b]) auto
  next
    case queue
    have "token_ok ?y k'" if "k' \<in> tokens ?y" for k'
      using D(8) [OF tk(1) [OF that]] queue(4,5) by (auto simp: token_ok_def split: token.splits)
    with queue b D(7) tok2 show ?thesis by (intro inv_server [OF inv b]) auto
  qed
qed

lemma inv_srv_release:
  assumes inv: "lc_inv y" and pc: "pcs y c t = RelCall" and a: "srv_release (srv y) = (b, l)"
  shows "lc_inv (set_pc c t (if b then SrvRetry else RelReply) (y\<lparr>srv := Some l\<rparr>))"
proof -
  note D = lc_invD [OF inv]
  let ?p = "if b then SrvRetry else RelReply"
  let ?y = "set_pc c t ?p (y\<lparr>srv := Some l\<rparr>)"
  have l: "sl_state l = sFREE" "sl_waitList l = wait_list y" "b \<longleftrightarrow> wait_list y \<noteq> []"
    using a by (auto simp: srv_release_def srv_updateLockState_def wait_list_def Let_def)
  have p: "\<not> granted ?p" "busy ?p = Some cRELEASING" "possible ?p" by auto
  have lk: "srv_locked y c" using D(4) [of c t] pc by simp
  then have one: "srv_locked y d \<Longrightarrow> d = c" and nf: "\<not> srv_free y" for d by (auto simp: srv_locked_def srv_free_def)
  have none: "k \<notin> tokens y" for k using D(8) [of k] nf by (auto simp: token_ok_def)
  have tk: "k = TokenSrv c t \<and> b" if "k \<in> tokens ?y" for k
    using that none [of k] by (cases k) (auto split: if_splits)
  have "c \<notin> set (wait_list y)"
  proof
    assume "c \<in> set (wait_list y)"
    then obtain u where u: "queued (pcs y c u)" using D(6) by blast
    then have "u = t" using D(2) [of c u t] queued_busy pc by fastforce
    then show False using u pc by simp
  qed
  moreover have "token_ok ?y k" if "k \<in> tokens ?y" for k
    using tk [OF that] l by (auto simp: token_ok_def)
  moreover have "k = k'" if "k \<in> tokens ?y" "k' \<in> tokens ?y" for k k' using tk that by blast
  ultimately show ?thesis
    using pc one D(7) l(1,2) p by (intro inv_server [OF inv, where s = cRELEASING]) auto
qed

lemma lc_step_inv:
  assumes inv: "lc_inv y" and st: "lc_step False lid y y'"
  shows "lc_inv y'"
  using st
proof cases
  case (lc_acquire c t n e)
  then show ?thesis using inv_acquire [OF inv] by simp
next
  case (lc_wake_free c t b e)
  then show ?thesis using inv_wake_free [OF inv, of c t b e] by simp
next
  case (lc_wake_none c t b e)
  then show ?thesis using inv_wake_none [OF inv, of c t b e] by simp
next
  case (lc_srv_acquire c t k n l)
  then show ?thesis using inv_srv_acquire [OF inv] by simp
next
  case (lc_revoke c t k n a t' b e)
  then show ?thesis using inv_revoke [OF inv, of c t k n t' a b e] by simp
next
  case (lc_first_reply c t st n e)
  then show ?thesis using inv_first_reply [OF inv] by simp
next
  case (lc_wake_retry c t n e)
  then show ?thesis using inv_wake_retry [OF inv] by simp
next
  case (lc_second_reply c t st e)
  then show ?thesis using inv_second_reply [OF inv, of c t st] by simp
next
  case (lc_release c t b w e)
  then show ?thesis using inv_release [OF inv, of c t b w e] by simp
next
  case (lc_srv_release c t b l)
  then show ?thesis using inv_srv_release [OF inv, of c t b l] by simp
next
  case (lc_retry c t a b e)
  then show ?thesis using inv_retry [OF inv, of c t a b e] by (simp add: wait_list_def)
next
  case (lc_released c t b e)
  then show ?thesis using inv_released [OF inv, of c t b e] by simp
qed simp

interpretation lock_cache: step_invariant lc_start "lc_step False lid" lc_inv for lid
proof unfold_locales
  fix y assume y: "lc_start y"
  have "tokens y = {}"
  proof -
    have "k \<notin> tokens y" for k using y by (cases k) (simp_all add: lc_start_def li_default_def)
    then show ?thesis by blast
  qed
  then show "lc_inv y" using y by (intro lc_invI) (auto simp: lc_start_def cli_state_def li_default_def wait_list_def srv_default_def)
qed (rule lc_step_inv)

section \<open>Mutual exclusion\<close>

lemma hold_unique:
  assumes "lc_inv y" and "pcs y c t = Hold" and "pcs y d u = Hold"
  shows "c = d \<and> t = u"
proof -
  note D = lc_invD [OF assms(1)]
  have "c = d" using D(4) [of c t] D(4) [of d u] assms(2,3) by (auto simp: srv_locked_def)
  then show ?thesis using D(2) [of c t u] assms(2,3) by simp
qed

text \<open>A client that has cached the lock, or with a thread that has been granted it and has not given it back.\<close>

definition owns :: "lc_sys \<Rightarrow> string \<Rightarrow> bool" where
  "owns y c \<longleftrightarrow> cli_state y c = cFREE \<or> (\<exists>t. granted (pcs y c t))"

text \<open>
  C7. The caching lock service excludes mutually: when no call fails, whatever clients and threads acquire, release, are
  revoked, wait and retry, at most one client owns the lock at any time (so that what it caches under the lock is written back
  before another client gets it), at most one thread of all clients holds it, and the second call of \<open>acquireAndMaybeRetry\<close> is
  never refused.
\<close>

theorem lock_cache_mutex:
  assumes "reach lc_start (lc_step False lid) y"
  shows "(owns y c \<and> owns y d \<longrightarrow> c = d) \<and>
    (pcs y c t = Hold \<and> pcs y d u = Hold \<longrightarrow> c = d \<and> t = u) \<and> (pcs y c t = Reply True st \<longrightarrow> st = OK)"
proof -
  have inv: "lc_inv y" by (rule lock_cache.reach_inv [OF assms])
  note D = lc_invD [OF inv]
  have "owns y c \<Longrightarrow> srv_locked y c" for c using D(4,5) by (auto simp: owns_def)
  moreover have "srv_locked y c \<Longrightarrow> srv_locked y d \<Longrightarrow> c = d" by (auto simp: srv_locked_def)
  moreover have "pcs y c t = Hold \<Longrightarrow> pcs y d u = Hold \<Longrightarrow> c = d \<and> t = u" by (rule hold_unique [OF inv])
  moreover have "pcs y c t = Reply True st \<Longrightarrow> st = OK" using D(3) [of c t] by simp
  ultimately show ?thesis by blast
qed

text \<open>A client gets a lock that nobody has asked for, and a client whose call fails.\<close>

lemma first_get:
  assumes r: "reach init (lc_step b lid) y" and y: "pcs y c t = Idle" "cli y c = None" "srv y = None"
  shows "\<exists>y'. reach init (lc_step b lid) y' \<and> pcs y' = (pcs y)(c := (pcs y c)(t := Hold)) \<and> (\<forall>d. d \<noteq> c \<longrightarrow> cli y' d = cli y d)"
proof -
  let ?e = "cl_createLock lid t None"
  let ?l = "srv_createLock lid c None"
  have 1: "reach init (lc_step b lid) (set_pc c t (Call False) (set_cli c (Some ?e) y))" (is "reach _ _ ?y1")
    by (rule reach_step_eq [OF r lc_acquire [of y c t lid AcquireRemote ?e]]) (simp_all add: y cl_acquire_def)
  have 2: "reach init (lc_step b lid) (set_pc c t (Reply False OK) (?y1\<lparr>srv := Some ?l\<rparr>))" (is "reach _ _ ?y2")
    by (rule reach_step_eq [OF 1 lc_srv_acquire [of ?y1 c t False lid "AcqReturn OK" ?l]]) (simp_all add: y srv_acquire_def)
  have 3: "reach init (lc_step b lid) (set_pc c t Hold (set_cli c (Some (cl_updateLockState t cLOCKED (cli ?y2 c))) ?y2))" (is "reach _ _ ?y3")
    by (rule reach_step_eq [OF 2 lc_first_reply [of ?y2 c t OK Return]]) (simp_all add: first_reply_def)
  have "pcs ?y3 = (pcs y)(c := (pcs y c)(t := Hold))" "\<forall>d. d \<noteq> c \<longrightarrow> cli ?y3 d = cli y d"
    by (auto simp: set_pc_def set_cli_def fun_eq_iff)
  with 3 show ?thesis by blast
qed

lemma failed_get:
  assumes r: "reach init (lc_step True lid) y" and y: "pcs y c t = Idle" "cli y c = None"
  shows "\<exists>y'. reach init (lc_step True lid) y' \<and> pcs y' = (pcs y)(c := (pcs y c)(t := Hold))"
proof -
  let ?e = "cl_createLock lid t None"
  have 1: "reach init (lc_step True lid) (set_pc c t (Call False) (set_cli c (Some ?e) y))" (is "reach _ _ ?y1")
    by (rule reach_step_eq [OF r lc_acquire [of y c t lid AcquireRemote ?e]]) (simp_all add: y cl_acquire_def)
  have 2: "reach init (lc_step True lid) (set_pc c t (Reply False RPCERR) ?y1)" (is "reach _ _ ?y2")
    by (rule reach_step_eq [OF 1 lc_call_fails [of True ?y1 c t False RPCERR]]) simp_all
  have 3: "reach init (lc_step True lid) (set_pc c t Hold (set_cli c (cli ?y2 c) ?y2))" (is "reach _ _ ?y3")
    by (rule reach_step_eq [OF 2 lc_first_reply [of ?y2 c t RPCERR Return]]) (simp_all add: first_reply_def)
  have "pcs ?y3 = (pcs y)(c := (pcs y c)(t := Hold))" by (auto simp: set_pc_def set_cli_def fun_eq_iff)
  with 3 show ?thesis by blast
qed

lemma lc_start_reach: "reach lc_start (lc_step b lid) \<lparr>srv = None, cli = (\<lambda>_. None), pcs = (\<lambda>_ _. Idle)\<rparr>"
  by (simp add: lc_start_def reach_init)

theorem lock_cache_mutex_witness:
  "\<exists>y. reach lc_start (lc_step False 7) y \<and> pcs y ''a'' 0 = Hold \<and> owns y ''a'' \<and> \<not> owns y ''b''"
proof -
  obtain y where y: "reach lc_start (lc_step False 7) y" "pcs y = (\<lambda>_ _. Idle)(''a'' := (\<lambda>_. Idle)(0 := Hold))"
    using first_get [OF lc_start_reach, of "''a''" 0 False 7] by auto
  have "owns y ''a''" using y(2) by (auto simp: owns_def intro: exI [of _ 0])
  moreover have "\<not> owns y ''b''" using lock_cache_mutex [OF y(1), of "''a''" "''b''"] calculation by auto
  ultimately show ?thesis using y by (intro exI [of _ y]) simp
qed

text \<open>
  C20. \<open>acquire\<close> of the caching client returns \<open>OK\<close> even when its call to the server fails: two clients can hold the lock at
  the same time after one failed call.
\<close>

theorem failed_acquire_breaks_mutex:
  "\<exists>y. reach lc_start (lc_step True lid) y \<and> pcs y ''a'' 0 = Hold \<and> pcs y ''b'' 0 = Hold"
proof -
  obtain y where y: "reach lc_start (lc_step True lid) y" "pcs y = (\<lambda>_ _. Idle)(''a'' := (\<lambda>_. Idle)(0 := Hold))" "cli y ''b'' = None"
    using first_get [OF lc_start_reach, of "''a''" 0 True lid] by auto
  then obtain y' where "reach lc_start (lc_step True lid) y'" "pcs y' = (pcs y)(''b'' := (pcs y ''b'')(0 := Hold))"
    using failed_get [OF y(1), of "''b''" 0] by auto
  with y(2) show ?thesis by (intro exI [of _ y']) simp
qed

end
