(* ===== verification/Lock_Calls.thy ===== *)
theory Lock_Calls
  imports Lock_Cache
begin

text \<open>
  Whole calls of the caching lock client that no other call interrupts: \<open>acquire\<close> with the calls to the server, the revocation
  of the lock at its holder and the retry, and \<open>release\<close>. They compose the operations of \<open>Lock_Cache\<close> in the order in which the code
  calls them; \<open>seq_acquire_run\<close> and \<open>seq_release_run\<close> show that they are runs of \<open>lc_step\<close>. The results tell
  which clients call \<open>dorelease\<close>.
\<close>

section \<open>Calls\<close>

record lk =
  lk_srv :: "srv_lockInfo option"
  lk_cli :: "string \<Rightarrow> lockInfo option"

definition lk_set :: "string \<Rightarrow> lockInfo option \<Rightarrow> lk \<Rightarrow> lk" where
  "lk_set c e y = y\<lparr>lk_cli := (lk_cli y)(c := e)\<rparr>"

text \<open>The call of \<open>release\<close> after \<open>dorelease\<close>, in \<open>release\<close> and in \<open>revoke_handler\<close>.\<close>

definition seq_give_back :: "string \<Rightarrow> nat \<Rightarrow> lk \<Rightarrow> lk" where
  "seq_give_back d t y =
     (let (retry, l) = srv_release (lk_srv y);
          y = y\<lparr>lk_srv := Some l\<rparr>;
          a = hd (sl_waitList l);
          y = (if retry then lk_set a (Some (snd (retry_handler (lk_cli y a)))) y else y)
      in lk_set d (snd (cl_released t OK (lk_cli y d))) y)"

definition seq_revoke :: "string \<Rightarrow> nat \<Rightarrow> lk \<Rightarrow> string list \<times> lk" where
  "seq_revoke d t y =
     (let (b, e) = revoke_handler t (lk_cli y d); y = lk_set d (Some e) y in
      if b then ([d], seq_give_back d t y) else ([], y))"

definition seq_call :: "lockid_t \<Rightarrow> string \<Rightarrow> nat \<Rightarrow> lk \<Rightarrow> (lock_xxstatus \<times> string list) \<times> lk" where
  "seq_call lid c t y =
     (let (n, l) = srv_acquire lid c (lk_srv y); y = y\<lparr>lk_srv := Some l\<rparr> in
      case n of
        AcqReturn st \<Rightarrow> ((st, []), y)
      | _ \<Rightarrow> let (fl, y) = seq_revoke (revoked n (lk_srv y)) t y in ((acq_revoked n (revokeLock (Some 0)), fl), y))"

text \<open>\<open>None\<close>: the thread waits for another one.\<close>

definition seq_acquire :: "lockid_t \<Rightarrow> string \<Rightarrow> nat \<Rightarrow> lk \<Rightarrow> (string list \<times> lk) option" where
  "seq_acquire lid c t y =
     (case cl_acquire lid t (lk_cli y c) of
        (Got, e) \<Rightarrow> Some ([], lk_set c (Some e) y)
      | (AcquireRemote, e) \<Rightarrow>
          let ((st, fl), y) = seq_call lid c t (lk_set c (Some e) y);
              (n, e) = first_reply t st (lk_cli y c);
              y = lk_set c e y
          in (case n of
                Return \<Rightarrow> Some (fl, y)
              | CallAgain \<Rightarrow>
                  let ((st, fl'), y) = seq_call lid c t y in
                  Some (fl @ fl', lk_set c (second_reply t st (lk_cli y c)) y)
              | WaitRetry \<Rightarrow> None)
      | _ \<Rightarrow> None)"

definition seq_release :: "string \<Rightarrow> nat \<Rightarrow> lk \<Rightarrow> string list \<times> lk" where
  "seq_release c t y =
     (let ((b, w), e) = cl_release t (lk_cli y c); y = lk_set c (Some e) y in
      if b then ([c], seq_give_back c t y) else ([], y))"

section \<open>States between calls\<close>

definition quiet :: "lockInfo \<Rightarrow> bool" where
  "quiet l \<longleftrightarrow> \<not> waitingToRetry l \<and> \<not> waitingToAcq l \<and> \<not> toRetry l \<and> \<not> toRevoke l \<and> li_waitList l = {}"

definition lk_owner :: "lk \<Rightarrow> string option" where
  "lk_owner y = (case lk_srv y of None \<Rightarrow> None | Some l \<Rightarrow> if sl_state l = sLOCKED then Some (sl_clientId l) else None)"

definition lk_entry :: "lk \<Rightarrow> string \<Rightarrow> lockInfo" where
  "lk_entry y c = the_entry li_default (lk_cli y c)"

definition lk_held :: "lk \<Rightarrow> string \<Rightarrow> bool" where
  "lk_held y c \<longleftrightarrow> li_state (lk_entry y c) = cLOCKED"

text \<open>Nobody waits, and the server and the clients agree on who has the lock.\<close>

definition lk_ok :: "lk \<Rightarrow> bool" where
  "lk_ok y \<longleftrightarrow> sl_waitList (the_entry srv_default (lk_srv y)) = [] \<and>
     (\<forall>d. quiet (lk_entry y d) \<and>
          (if lk_owner y = Some d then li_state (lk_entry y d) \<in> {cFREE, cLOCKED} else li_state (lk_entry y d) = cNONE))"

definition lk_init :: lk where
  "lk_init = \<lparr>lk_srv = None, lk_cli = \<lambda>_. None\<rparr>"

lemma lk_init_ok: "lk_ok lk_init" "\<not> lk_held lk_init c" "lk_owner lk_init = None"
  by (simp_all add: lk_init_def lk_ok_def lk_held_def lk_entry_def lk_owner_def the_entry_def li_default_def srv_default_def quiet_def)

lemma lk_okD:
  assumes "lk_ok y"
  shows "sl_waitList (the_entry srv_default (lk_srv y)) = []" and "quiet (lk_entry y d)"
    and "lk_owner y = Some d \<Longrightarrow> li_state (lk_entry y d) = cFREE \<or> li_state (lk_entry y d) = cLOCKED"
    and "lk_owner y \<noteq> Some d \<Longrightarrow> li_state (lk_entry y d) = cNONE"
proof -
  have a: "quiet (lk_entry y d) \<and>
      (if lk_owner y = Some d then li_state (lk_entry y d) \<in> {cFREE, cLOCKED} else li_state (lk_entry y d) = cNONE)" for d
    using assms unfolding lk_ok_def by blast
  show "sl_waitList (the_entry srv_default (lk_srv y)) = []" using assms by (simp add: lk_ok_def)
  show "quiet (lk_entry y d)" using a by blast
  show "lk_owner y = Some d \<Longrightarrow> li_state (lk_entry y d) = cFREE \<or> li_state (lk_entry y d) = cLOCKED" using a [of d] by simp
  show "lk_owner y \<noteq> Some d \<Longrightarrow> li_state (lk_entry y d) = cNONE" using a [of d] by simp
qed

lemma lk_held_owner: "lk_ok y \<Longrightarrow> lk_held y c \<Longrightarrow> lk_owner y = Some c"
  using lk_okD(4) [of y c] by (auto simp: lk_held_def)

lemma lk_okI:
  assumes "sl_waitList (the_entry srv_default (lk_srv y)) = []" and "lk_owner y = Some c"
    and "quiet (lk_entry y c)" and "li_state (lk_entry y c) = cLOCKED \<or> li_state (lk_entry y c) = cFREE"
    and "\<And>d. d \<noteq> c \<Longrightarrow> quiet (lk_entry y d) \<and> li_state (lk_entry y d) = cNONE"
  shows "lk_ok y" and "li_state (lk_entry y c) = cLOCKED \<Longrightarrow> lk_held y d = (d = c)"
    and "li_state (lk_entry y c) = cFREE \<Longrightarrow> \<not> lk_held y d"
proof -
  show "lk_ok y" unfolding lk_ok_def
  proof (intro conjI allI)
    fix d
    show "quiet (lk_entry y d)" using assms(3,5) by (cases "d = c") auto
    show "if lk_owner y = Some d then li_state (lk_entry y d) \<in> {cFREE, cLOCKED} else li_state (lk_entry y d) = cNONE"
      using assms(2,4,5) by (cases "d = c") auto
  qed (rule assms(1))
  show "li_state (lk_entry y c) = cLOCKED \<Longrightarrow> lk_held y d = (d = c)"
    using assms(5) [of d] by (cases "d = c") (auto simp: lk_held_def)
  show "li_state (lk_entry y c) = cFREE \<Longrightarrow> \<not> lk_held y d"
    using assms(5) [of d] by (cases "d = c") (auto simp: lk_held_def)
qed

lemmas seq_defs = seq_acquire_def seq_call_def seq_revoke_def seq_give_back_def cl_acquire_def first_reply_def second_reply_def
  srv_acquire_def srv_createLock_def srv_updateLockState_def srv_release_def revoke_handler_def retry_handler_def cl_released_def
  cl_updateLockState_def cl_createLock_def acq_revoked_def revokeLock_def the_entry_def

lemma lk_entry_set: "lk_entry (lk_set c e y) d = (if d = c then the_entry li_default e else lk_entry y d)"
  by (simp add: lk_entry_def lk_set_def)

lemma lk_set_simps [simp]:
  "lk_srv (lk_set c e y) = lk_srv y" "lk_cli (lk_set c e y) = (lk_cli y)(c := e)"
  "lk_set c e (lk_set c e' y) = lk_set c e y" "lk_owner (lk_set c e y) = lk_owner y"
  by (simp_all add: lk_set_def lk_owner_def)

lemma lk_set_srv [simp]: "lk_set c e (y\<lparr>lk_srv := s\<rparr>) = (lk_set c e y)\<lparr>lk_srv := s\<rparr>"
  by (simp add: lk_set_def)

lemma seq_acquire_own:
  assumes ok: "lk_ok y" and o: "lk_owner y = Some c" and h: "\<not> lk_held y c"
  shows "\<exists>y'. seq_acquire lid c t y = Some ([], y') \<and> lk_ok y' \<and> lk_owner y' = Some c \<and> (\<forall>d. lk_held y' d = (d = c))"
proof -
  obtain e where e: "lk_cli y c = Some e" "li_state e = cFREE"
    using lk_okD(3) [OF ok o] h by (cases "lk_cli y c") (auto simp: lk_entry_def lk_held_def the_entry_def li_default_def)
  let ?y = "lk_set c (Some (e\<lparr>threadId := t, li_state := cLOCKED\<rparr>)) y"
  have q: "quiet e" using lk_okD(2) [OF ok, of c] e by (simp add: lk_entry_def the_entry_def)
  have r: "seq_acquire lid c t y = Some ([], ?y)"
    using e by (simp add: seq_acquire_def cl_acquire_def cl_updateLockState_def the_entry_def)
  have c: "lk_entry ?y c = e\<lparr>threadId := t, li_state := cLOCKED\<rparr>" by (simp add: lk_entry_set the_entry_def)
  have "sl_waitList (the_entry srv_default (lk_srv ?y)) = []" "lk_owner ?y = Some c" "quiet (lk_entry ?y c)"
      "li_state (lk_entry ?y c) = cLOCKED"
    using lk_okD(1) [OF ok] o q by (simp_all add: c quiet_def)
  moreover have "quiet (lk_entry ?y d) \<and> li_state (lk_entry ?y d) = cNONE" if "d \<noteq> c" for d
    using lk_okD(2,4) [OF ok, of d] o that by (simp add: lk_entry_set)
  ultimately show ?thesis using r lk_okI [of ?y c] by blast
qed

lemma seq_acquire_free:
  assumes ok: "lk_ok y" and o: "lk_owner y = None"
  shows "\<exists>y'. seq_acquire lid c t y = Some ([], y') \<and> lk_ok y' \<and> lk_owner y' = Some c \<and> (\<forall>d. lk_held y' d = (d = c))"
proof -
  let ?e = "(lk_entry y c)\<lparr>threadId := t, li_state := cLOCKED\<rparr>"
  let ?e' = "if lk_cli y c = None then ?e\<lparr>li_lid := lid\<rparr> else ?e"
  let ?l = "(the_entry srv_default (lk_srv y))\<lparr>sl_clientId := c, sl_state := sLOCKED\<rparr>"
  let ?l' = "if lk_srv y = None then ?l\<lparr>sl_lid := lid\<rparr> else ?l"
  let ?y = "(lk_set c (Some ?e') y)\<lparr>lk_srv := Some ?l'\<rparr>"
  have q: "quiet (lk_entry y c)" and n: "li_state (lk_entry y c) = cNONE" using lk_okD(2,4) [OF ok, of c] o by auto
  have w: "sl_waitList (the_entry srv_default (lk_srv y)) = []" by (rule lk_okD(1) [OF ok])
  have f: "sl_state l = sFREE" if "lk_srv y = Some l" for l
    using o that by (cases "sl_state l") (simp_all add: lk_owner_def)
  have r: "seq_acquire lid c t y = Some ([], ?y)"
    using q n w f
    by (cases "lk_cli y c"; cases "lk_srv y") (simp_all add: seq_defs lk_entry_def quiet_def li_default_def)
  have c: "lk_entry ?y c = ?e'" by (simp add: lk_entry_def the_entry_def)
  have "sl_waitList (the_entry srv_default (lk_srv ?y)) = []" "lk_owner ?y = Some c" "quiet (lk_entry ?y c)"
      "li_state (lk_entry ?y c) = cLOCKED"
    using w q by (simp_all add: c quiet_def the_entry_def lk_owner_def split: option.splits)
  moreover have "quiet (lk_entry ?y d) \<and> li_state (lk_entry ?y d) = cNONE" if "d \<noteq> c" for d
    using lk_okD(2,4) [OF ok, of d] o that by (simp add: lk_entry_def)
  ultimately show ?thesis using r lk_okI [of ?y c] by blast
qed

lemma seq_acquire_other:
  assumes ok: "lk_ok y" and o: "lk_owner y = Some d" and dc: "d \<noteq> c" and h: "\<not> lk_held y d"
  shows "\<exists>y'. seq_acquire lid c t y = Some ([d], y') \<and> lk_ok y' \<and> lk_owner y' = Some c \<and> (\<forall>d. lk_held y' d = (d = c))"
proof -
  obtain l where l: "lk_srv y = Some l" "sl_state l = sLOCKED" "sl_clientId l = d"
    using o by (auto simp: lk_owner_def split: option.splits if_splits)
  have w: "sl_waitList l = []" using lk_okD(1) [OF ok] l by (simp add: the_entry_def)
  obtain e where e: "lk_cli y d = Some e" "li_state e = cFREE"
    using lk_okD(3) [OF ok o] h by (cases "lk_cli y d") (auto simp: lk_entry_def lk_held_def the_entry_def li_default_def)
  have qd: "quiet e" using lk_okD(2) [OF ok, of d] e by (simp add: lk_entry_def the_entry_def)
  have qc: "quiet (lk_entry y c)" and n: "li_state (lk_entry y c) = cNONE" using lk_okD(2,4) [OF ok, of c] o dc by auto
  let ?e = "(lk_entry y c)\<lparr>toRetry := False, threadId := t, li_state := cLOCKED\<rparr>"
  let ?e' = "if lk_cli y c = None then ?e\<lparr>li_lid := lid\<rparr> else ?e"
  let ?d = "e\<lparr>toRevoke := False, threadId := t, li_state := cNONE\<rparr>"
  let ?l = "l\<lparr>sl_waitList := [], sl_clientId := c, sl_state := sLOCKED\<rparr>"
  let ?y = "y\<lparr>lk_srv := Some ?l, lk_cli := (lk_cli y)(c := Some ?e', d := Some ?d)\<rparr>"
  have r: "seq_acquire lid c t y = Some ([d], ?y)"
    using l w e qd qc n dc
    by (cases "lk_cli y c") (simp_all add: seq_defs lk_entry_def quiet_def li_default_def lk_set_def fun_upd_twist)
  have c: "lk_entry ?y c = ?e'" "lk_entry ?y d = ?d" using dc by (simp_all add: lk_entry_def the_entry_def)
  have "sl_waitList (the_entry srv_default (lk_srv ?y)) = []" "lk_owner ?y = Some c" "quiet (lk_entry ?y c)"
      "li_state (lk_entry ?y c) = cLOCKED"
    using qc by (simp_all add: c quiet_def the_entry_def lk_owner_def)
  moreover have "quiet (lk_entry ?y a) \<and> li_state (lk_entry ?y a) = cNONE" if "a \<noteq> c" for a
    using lk_okD(2,4) [OF ok, of a] o that qd c(2) by (cases "a = d") (simp_all add: lk_entry_def quiet_def)
  ultimately show ?thesis using r lk_okI [of ?y c] by blast
qed

text \<open>
  \<open>acquire\<close> never waits when no client is using the lock; afterwards its client has the lock, and the previous holder, if it is
  another client, has called \<open>dorelease\<close>.
\<close>

lemma seq_acquire_ok:
  assumes ok: "lk_ok y" and h: "\<And>d. \<not> lk_held y d"
  shows "\<exists>y'. seq_acquire lid c t y =
      Some (case lk_owner y of Some d \<Rightarrow> if d = c then [] else [d] | None \<Rightarrow> [], y') \<and>
    lk_ok y' \<and> lk_owner y' = Some c \<and> (\<forall>d. lk_held y' d = (d = c))"
proof (cases "lk_owner y")
  case None
  with seq_acquire_free [OF ok None, of lid c t] show ?thesis by simp
next
  case (Some d)
  show ?thesis
  proof (cases "d = c")
    case True
    with Some seq_acquire_own [OF ok _ h, of c lid t] show ?thesis by simp
  next
    case False
    with Some seq_acquire_other [OF ok Some False h, of lid t] show ?thesis by simp
  qed
qed

lemma seq_release_ok:
  assumes ok: "lk_ok y" and h: "lk_held y c"
  shows "\<exists>y'. seq_release c t y = ([], y') \<and> lk_ok y' \<and> lk_owner y' = Some c \<and> (\<forall>d. \<not> lk_held y' d)"
proof -
  have o: "lk_owner y = Some c" by (rule lk_held_owner [OF ok h])
  have q: "quiet (lk_entry y c)" by (rule lk_okD(2) [OF ok])
  let ?e = "(lk_entry y c)\<lparr>threadId := t, li_state := cFREE\<rparr>"
  let ?y = "lk_set c (Some ?e) y"
  have r: "seq_release c t y = ([], ?y)"
    using q by (simp add: seq_release_def cl_release_def cl_updateLockState_def quiet_def lk_entry_def)
  have c: "lk_entry ?y c = ?e" by (simp add: lk_entry_set the_entry_def)
  have "sl_waitList (the_entry srv_default (lk_srv ?y)) = []" "lk_owner ?y = Some c" "quiet (lk_entry ?y c)"
      "li_state (lk_entry ?y c) = cFREE"
    using lk_okD(1) [OF ok] o q by (simp_all add: c quiet_def)
  moreover have "quiet (lk_entry ?y d) \<and> li_state (lk_entry ?y d) = cNONE" if "d \<noteq> c" for d
    using lk_okD(2,4) [OF ok, of d] o that by (simp add: lk_entry_set)
  ultimately show ?thesis using r lk_okI [of ?y c] by blast
qed

section \<open>Calls are runs\<close>

definition sys_of :: "(string \<Rightarrow> nat \<Rightarrow> pc) \<Rightarrow> lk \<Rightarrow> lc_sys" where
  "sys_of p y = \<lparr>srv = lk_srv y, cli = lk_cli y, pcs = p\<rparr>"

definition at_pc :: "(string \<Rightarrow> nat \<Rightarrow> pc) \<Rightarrow> string \<Rightarrow> nat \<Rightarrow> pc \<Rightarrow> string \<Rightarrow> nat \<Rightarrow> pc" where
  "at_pc p c t q = p(c := (p c)(t := q))"

lemma at_pc_simps [simp]:
  "at_pc p c t q c t = q" "d \<noteq> c \<Longrightarrow> at_pc p c t q d = p d" "at_pc (at_pc p c t q) c t q' = at_pc p c t q'"
  by (simp_all add: at_pc_def)

lemma at_pc_twist: "d \<noteq> c \<Longrightarrow> at_pc (at_pc p c t q) d t' q' = at_pc (at_pc p d t' q') c t q"
  by (auto simp: at_pc_def fun_eq_iff)

lemma at_pc_id: "p c t = q \<Longrightarrow> at_pc p c t q = p"
  by (auto simp: at_pc_def)

lemma sys_of_simps [simp]:
  "srv (sys_of p y) = lk_srv y" "cli (sys_of p y) = lk_cli y" "pcs (sys_of p y) = p"
  "set_pc c t q (sys_of p y) = sys_of (at_pc p c t q) y" "set_cli c e (sys_of p y) = sys_of p (lk_set c e y)"
  "(sys_of p y)\<lparr>srv := s\<rparr> = sys_of p (y\<lparr>lk_srv := s\<rparr>)"
  by (simp_all add: sys_of_def set_pc_def set_cli_def lk_set_def at_pc_def)

abbreviation lc_run :: "lockid_t \<Rightarrow> lc_sys \<Rightarrow> lc_sys \<Rightarrow> bool" where
  "lc_run lid \<equiv> (lc_step False lid)\<^sup>*\<^sup>*"

lemma lc_run_step: "lc_run lid x y \<Longrightarrow> lc_step False lid y z' \<Longrightarrow> z' = z \<Longrightarrow> lc_run lid x z"
  by auto

lemma give_back_run:
  assumes "p d t = RelCall"
  shows "lc_run lid (sys_of p y) (sys_of (at_pc p d t Idle) (seq_give_back d t y))"
proof -
  obtain b l where r: "srv_release (lk_srv y) = (b, l)" by (metis prod.exhaust)
  let ?y1 = "y\<lparr>lk_srv := Some l\<rparr>"
  let ?y2 = "if b then lk_set (hd (sl_waitList l)) (Some (snd (retry_handler (lk_cli ?y1 (hd (sl_waitList l)))))) ?y1 else ?y1"
  have 1: "lc_run lid (sys_of p y) (sys_of (at_pc p d t (if b then SrvRetry else RelReply)) ?y1)"
    using lc_srv_release [of "sys_of p y" d t b l False lid] assms r by simp
  have 2: "lc_run lid (sys_of p y) (sys_of (at_pc p d t RelReply) ?y2)"
  proof (cases b)
    case True
    obtain b' e where h: "retry_handler (lk_cli ?y1 (hd (sl_waitList l))) = (b', e)" by (metis prod.exhaust)
    from lc_retry [of "sys_of (at_pc p d t SrvRetry) ?y1" d t "hd (sl_waitList l)" b' e False lid] True h
    show ?thesis by (intro lc_run_step [OF 1]) (simp_all add: the_entry_def)
  qed (use 1 in simp)
  obtain b' e where c: "cl_released t OK (lk_cli ?y2 d) = (b', e)" by (metis prod.exhaust)
  have "sys_of (at_pc p d t Idle) (seq_give_back d t y) = set_pc d t Idle (set_cli d e (sys_of (at_pc p d t RelReply) ?y2))"
    using r c by (simp add: seq_give_back_def Let_def)
  with lc_released [of "sys_of (at_pc p d t RelReply) ?y2" d t b' e False lid] c show ?thesis
    by (intro lc_run_step [OF 2]) simp_all
qed

lemma give_back_entry:
  assumes "c \<noteq> d"
  shows "li_state (lk_entry (seq_give_back d t y) c) = li_state (lk_entry y c)"
proof -
  obtain b l where "srv_release (lk_srv y) = (b, l)" by (metis prod.exhaust)
  then show ?thesis
    using assms by (auto simp: seq_give_back_def Let_def lk_entry_def retry_handler_def the_entry_def)
qed

lemma revoke_run:
  assumes "p c t = SrvRevoke k n" and "d = revoked n (lk_srv y)" and "d \<noteq> c \<Longrightarrow> p d t = Idle"
    and "li_state (lk_entry y c) = cACQUIRING" and "seq_revoke d t y = (fl, y')"
  shows "lc_run lid (sys_of p y) (sys_of (at_pc p c t (Reply k (acq_revoked n (revokeLock (Some 0))))) y')"
    and "li_state (lk_entry y' c) = cACQUIRING"
proof -
  let ?r = "Reply k (acq_revoked n (revokeLock (Some 0)))"
  obtain b e where h: "revoke_handler t (lk_cli y d) = (b, e)" by (metis prod.exhaust)
  have bc: "d \<noteq> c" if b
    using that h assms(4) by (auto simp: revoke_handler_def lk_entry_def Let_def split: if_splits)
  have 1: "lc_run lid (sys_of p y) (sys_of (at_pc (if b then at_pc p d t RelCall else p) c t ?r) (lk_set d (Some e) y))"
    using lc_revoke [of "sys_of p y" c t k n d t b e False lid] assms(1-3) bc h by (auto split: if_splits)
  show "lc_run lid (sys_of p y) (sys_of (at_pc p c t ?r) y')"
  proof (cases b)
    case True
    note dc = bc [OF True]
    have "lc_run lid (sys_of (at_pc (at_pc p d t RelCall) c t ?r) (lk_set d (Some e) y))
        (sys_of (at_pc (at_pc (at_pc p d t RelCall) c t ?r) d t Idle) (seq_give_back d t (lk_set d (Some e) y)))"
      using dc by (intro give_back_run) simp
    moreover have "at_pc (at_pc (at_pc p d t RelCall) c t ?r) d t Idle = at_pc p c t ?r"
      using dc assms(3) at_pc_id [of p d t Idle] by (simp add: at_pc_twist [of d c])
    moreover have "y' = seq_give_back d t (lk_set d (Some e) y)" using assms(5) h True by (simp add: seq_revoke_def)
    ultimately show ?thesis using rtranclp_trans [OF 1, of "sys_of (at_pc p c t ?r) y'"] True by simp
  qed (use 1 assms(5) h in \<open>simp add: seq_revoke_def\<close>)
  show "li_state (lk_entry y' c) = cACQUIRING"
  proof (cases b)
    case True
    with assms(4,5) h bc [OF True] give_back_entry [of c d t "lk_set d (Some e) y"] show ?thesis
      by (auto simp: seq_revoke_def lk_entry_set)
  next
    case False
    then have "li_state e = li_state (lk_entry y d)"
      using h by (auto simp: revoke_handler_def lk_entry_def Let_def split: if_splits)
    with False assms(4,5) h show ?thesis by (auto simp: seq_revoke_def lk_entry_set the_entry_def)
  qed
qed

lemma call_run:
  assumes "p c t = Call k" and idle: "\<And>d. d \<noteq> c \<Longrightarrow> p d t = Idle" and "li_state (lk_entry y c) = cACQUIRING"
    and "seq_call lid c t y = ((st, fl), y')"
  shows "lc_run lid (sys_of p y) (sys_of (at_pc p c t (Reply k st)) y')" and "li_state (lk_entry y' c) = cACQUIRING"
proof -
  obtain n l where a: "srv_acquire lid c (lk_srv y) = (n, l)" by (metis prod.exhaust)
  let ?y = "y\<lparr>lk_srv := Some l\<rparr>"
  have 1: "lc_run lid (sys_of p y) (sys_of (at_pc p c t (after_srv k n)) ?y)"
    using lc_srv_acquire [of "sys_of p y" c t k lid n l False] assms(1) a by auto
  have e: "li_state (lk_entry ?y c) = cACQUIRING" using assms(3) by (simp add: lk_entry_def)
  have "lc_run lid (sys_of p y) (sys_of (at_pc p c t (Reply k st)) y') \<and> li_state (lk_entry y' c) = cACQUIRING"
  proof (cases "\<exists>s. n = AcqReturn s")
    case True
    with 1 e a assms(4) show ?thesis by (auto simp: seq_call_def)
  next
    case False
    then have s: "after_srv k n = SrvRevoke k n" by (cases n) auto
    obtain fl' y2 where r: "seq_revoke (revoked n (lk_srv ?y)) t ?y = (fl', y2)" by (metis prod.exhaust)
    have st: "st = acq_revoked n (revokeLock (Some 0))" "y' = y2"
      using False assms(4) a r by (auto simp: seq_call_def Let_def split: acq_next.splits)
    have "lc_run lid (sys_of (at_pc p c t (SrvRevoke k n)) ?y) (sys_of (at_pc (at_pc p c t (SrvRevoke k n)) c t (Reply k st)) y2)"
      unfolding st(1) by (rule revoke_run(1) [OF _ refl _ e r]) (use idle in simp_all)
    moreover have "li_state (lk_entry y2 c) = cACQUIRING"
      by (rule revoke_run(2) [OF _ refl _ e r, of "at_pc p c t (SrvRevoke k n)" k]) (use idle in simp_all)
    ultimately show ?thesis
      using rtranclp_trans [OF 1 [unfolded s], of "sys_of (at_pc p c t (Reply k st)) y2"] st(2) by simp
  qed
  then show "lc_run lid (sys_of p y) (sys_of (at_pc p c t (Reply k st)) y')" "li_state (lk_entry y' c) = cACQUIRING" by auto
qed

lemma seq_acquire_run:
  assumes "\<And>d. p d t = Idle" and s: "seq_acquire lid c t y = Some (fl, y')"
  shows "lc_run lid (sys_of p y) (sys_of (at_pc p c t Hold) y')"
proof -
  obtain n e where a: "cl_acquire lid t (lk_cli y c) = (n, e)" by (metis prod.exhaust)
  let ?y = "lk_set c (Some e) y"
  have 1: "lc_run lid (sys_of p y) (sys_of (at_pc p c t (after_acquire n)) ?y)"
    using lc_acquire [of "sys_of p y" c t lid n e False] assms(1) a by auto
  show ?thesis
  proof (cases n)
    case Got
    with 1 s a show ?thesis by (simp add: seq_acquire_def)
  next
    case AcquireRemote
    have q: "li_state (lk_entry ?y c) = cACQUIRING"
      using a AcquireRemote
      by (auto simp: cl_acquire_def cl_createLock_def cl_updateLockState_def lk_entry_set the_entry_def
          split: option.splits lockState.splits if_splits)
    obtain st f1 y1 where c1: "seq_call lid c t ?y = ((st, f1), y1)" by (metis prod.exhaust)
    let ?p1 = "at_pc p c t (Call False)"
    have r1: "lc_run lid (sys_of ?p1 ?y) (sys_of (at_pc ?p1 c t (Reply False st)) y1)" and q1: "li_state (lk_entry y1 c) = cACQUIRING"
      using call_run [of ?p1 c t False ?y lid st f1 y1] assms(1) q c1 by simp_all
    obtain m e1 where f: "first_reply t st (lk_cli y1 c) = (m, e1)" by (metis prod.exhaust)
    let ?y2 = "lk_set c e1 y1"
    have "lc_run lid (sys_of (at_pc p c t (after_acquire n)) ?y) (sys_of (at_pc p c t (Reply False st)) y1)"
      using r1 AcquireRemote by simp
    note 11 = rtranclp_trans [OF 1 this]
    have 2: "lc_run lid (sys_of p y) (sys_of (at_pc p c t (after_maybe m)) ?y2)"
      using lc_first_reply [of "sys_of (at_pc p c t (Reply False st)) y1" c t st m e1 False lid] f
      by (intro lc_run_step [OF 11]) simp_all
    show ?thesis
    proof (cases m)
      case Return
      with 2 s a AcquireRemote c1 f show ?thesis by (simp add: seq_acquire_def Let_def)
    next
      case CallAgain
      have q2: "li_state (lk_entry ?y2 c) = cACQUIRING"
        using f CallAgain q1 by (auto simp: first_reply_def lk_entry_set lk_entry_def the_entry_def Let_def split: if_splits)
      obtain st' f2 y3 where c2: "seq_call lid c t ?y2 = ((st', f2), y3)" by (metis prod.exhaust)
      have "lc_run lid (sys_of (at_pc p c t (after_maybe m)) ?y2) (sys_of (at_pc p c t (Reply True st')) y3)"
        using call_run(1) [of "at_pc p c t (Call True)" c t True ?y2 lid st' f2 y3] assms(1) q2 c2 CallAgain by simp
      note 3 = rtranclp_trans [OF 2 this]
      show ?thesis
        using lc_second_reply [of "sys_of (at_pc p c t (Reply True st')) y3" c t st' "second_reply t st' (lk_cli y3 c)" False lid]
          s a AcquireRemote c1 f CallAgain c2
        by (intro lc_run_step [OF 3]) (simp_all add: seq_acquire_def Let_def)
    qed (use s a AcquireRemote c1 f in \<open>simp add: seq_acquire_def Let_def\<close>)
  qed (use s a in \<open>simp_all add: seq_acquire_def\<close>)
qed

lemma seq_release_run:
  assumes "p c t = Hold" and s: "seq_release c t y = (fl, y')"
  shows "lc_run lid (sys_of p y) (sys_of (at_pc p c t Idle) y')"
proof -
  obtain b w e where r: "cl_release t (lk_cli y c) = ((b, w), e)" by (metis prod.exhaust)
  let ?y = "lk_set c (Some e) y"
  have 1: "lc_run lid (sys_of p y) (sys_of (at_pc p c t (if b then RelCall else Idle)) ?y)"
    using lc_release [of "sys_of p y" c t b w e False lid] assms(1) r by auto
  show ?thesis
  proof (cases b)
    case True
    have "lc_run lid (sys_of (at_pc p c t (if b then RelCall else Idle)) ?y) (sys_of (at_pc p c t Idle) (seq_give_back c t ?y))"
      using give_back_run [of "at_pc p c t RelCall" c t lid ?y] True by simp
    from rtranclp_trans [OF 1 this] True s r show ?thesis by (simp add: seq_release_def)
  qed (use 1 s r in \<open>simp add: seq_release_def\<close>)
qed

end
