(* ===== verification/Shared_Store.thy ===== *)
theory Shared_Store
  imports Fuse_Tree Fuse_Locks Lock_Calls
begin

text \<open>
  Several file system clients with one extent server and one lock server: \<open>yfs_client\<close> over the caching lock client, with
  \<open>lock_release_user_impl\<close>, which flushes the extent of a lock that goes back. A request runs without interruption by other
  requests; the locks it needs are taken back from other clients by the calls of \<open>Lock_Calls\<close>. The theory shows that these operations
  provide the contract \<open>file_store\<close> to every client.
\<close>

section \<open>State and operations\<close>

text \<open>
  Per lock the entries at the server and at the clients; the extent clients; the extent server. \<open>sh_fault\<close> records misuse:
  a thread waits for a lock that is never released, gives back a lock that it does not hold, or accesses an extent
  without its lock.
\<close>

record shared =
  sh_lk :: "inum \<Rightarrow> lk"
  sh_ec :: "string \<Rightarrow> extent_client"
  sh_es :: extent_server
  sh_fault :: bool

definition shared_init :: "u32 \<Rightarrow> shared" where
  "shared_init now =
     \<lparr>sh_lk = \<lambda>_. lk_init, sh_ec = \<lambda>_. extent_client_init, sh_es = extent_server_init now, sh_fault = False\<rparr>"

abbreviation held :: "string \<Rightarrow> inum \<Rightarrow> shared \<Rightarrow> bool" where
  "held c l sh \<equiv> lk_held (sh_lk sh l) c"

abbreviation owner :: "shared \<Rightarrow> inum \<Rightarrow> string option" where
  "owner sh l \<equiv> lk_owner (sh_lk sh l)"

definition put_client :: "string \<Rightarrow> extent_client \<times> extent_server \<Rightarrow> shared \<Rightarrow> shared" where
  "put_client c x sh = sh\<lparr>sh_ec := (sh_ec sh)(c := fst x), sh_es := snd x\<rparr>"

definition dorelease :: "u32 \<Rightarrow> inum \<Rightarrow> string \<Rightarrow> shared \<Rightarrow> shared" where
  "dorelease now lid c sh = put_client c (ec_flush (es_rpc now) lid (sh_ec sh c, sh_es sh)) sh"

text \<open>FUSE runs one thread per client.\<close>

definition sh_acquire :: "u32 \<Rightarrow> string \<Rightarrow> inum \<Rightarrow> shared \<Rightarrow> shared" where
  "sh_acquire now c l sh =
     (case seq_acquire l c 0 (sh_lk sh l) of
        None \<Rightarrow> sh\<lparr>sh_fault := True\<rparr>
      | Some (fl, y) \<Rightarrow> fold (dorelease now l) fl (sh\<lparr>sh_lk := (sh_lk sh)(l := y)\<rparr>))"

definition sh_release :: "u32 \<Rightarrow> string \<Rightarrow> inum \<Rightarrow> shared \<Rightarrow> shared" where
  "sh_release now c l sh =
     (if \<not> held c l sh then sh\<lparr>sh_fault := True\<rparr>
      else case seq_release c 0 (sh_lk sh l) of
        (fl, y) \<Rightarrow> fold (dorelease now l) fl (sh\<lparr>sh_lk := (sh_lk sh)(l := y)\<rparr>))"

definition sh_access :: "u32 \<Rightarrow> string \<Rightarrow> inum \<Rightarrow> shared \<Rightarrow> shared" where
  "sh_access now c l sh = (if held c l sh then sh else (sh_acquire now c l sh)\<lparr>sh_fault := True\<rparr>)"

definition sh_env :: "u32 \<Rightarrow> attr \<Rightarrow> string \<Rightarrow> shared yfs_env" where
  "sh_env now a0 c =
     \<lparr>y_acquire = sh_acquire now c,
      y_release = sh_release now c,
      y_get = \<lambda>l b sh. let sh = sh_access now c l sh; (r, x) = ec_get (es_rpc now) now a0 l b (sh_ec sh c, sh_es sh)
                       in (r, put_client c x sh),
      y_put = \<lambda>l b sh. let sh = sh_access now c l sh; (r, x) = ec_put (es_rpc now) now a0 l b (sh_ec sh c, sh_es sh)
                       in (r, put_client c x sh),
      y_getattr = \<lambda>l a sh. let sh = sh_access now c l sh; (r, x) = ec_getattr (es_rpc now) l a (sh_ec sh c, sh_es sh)
                           in (r, put_client c x sh),
      y_remove = \<lambda>l sh. let sh = sh_access now c l sh; (r, x) = ec_remove l (sh_ec sh c, sh_es sh)
                        in (r, put_client c x sh)\<rparr>"

section \<open>Invariant and view\<close>

text \<open>The locks are consistent, only \<open>c\<close> uses locks, and a client caches only extents whose lock it has.\<close>

definition sh_inv :: "string \<Rightarrow> shared \<Rightarrow> bool" where
  "sh_inv c sh \<longleftrightarrow> (\<forall>l. lk_ok (sh_lk sh l)) \<and> (\<forall>l d. held d l sh \<longrightarrow> d = c) \<and>
     (\<forall>d. ext_ok (sh_ec sh d, sh_es sh)) \<and> (\<forall>l d. touched (sh_ec sh d) l \<longrightarrow> owner sh l = Some d)"

text \<open>
  The extents as \<open>c\<close> finds them. An extent whose lock another client has without having it in its cache has been removed there;
  the flush will remove it from the server.
\<close>

definition sh_view :: "string \<Rightarrow> shared \<Rightarrow> inum \<rightharpoonup> string" where
  "sh_view c sh e =
     (case owner sh e of
        None \<Rightarrow> files (sh_es sh) e
      | Some d \<Rightarrow> if d = c \<or> touched (sh_ec sh d) e then ext_view (sh_ec sh d, sh_es sh) e else None)"

lemma sh_invD:
  assumes "sh_inv c sh"
  shows "lk_ok (sh_lk sh l)" and "held d l sh \<Longrightarrow> d = c" and "ext_ok (sh_ec sh d, sh_es sh)"
    and "touched (sh_ec sh d) l \<Longrightarrow> owner sh l = Some d"
  using assms unfolding sh_inv_def by blast+

lemma sh_invI:
  assumes "\<And>l. lk_ok (sh_lk sh l)" and "\<And>l d. held d l sh \<Longrightarrow> d = c" and "\<And>d. ext_ok (sh_ec sh d, sh_es sh)"
    and "\<And>l d. touched (sh_ec sh d) l \<Longrightarrow> owner sh l = Some d"
  shows "sh_inv c sh"
  using assms unfolding sh_inv_def by blast

lemma put_client_simps [simp]:
  "sh_lk (put_client c x sh) = sh_lk sh" "sh_ec (put_client c x sh) = (sh_ec sh)(c := fst x)"
  "sh_es (put_client c x sh) = snd x" "sh_fault (put_client c x sh) = sh_fault sh"
  by (simp_all add: put_client_def)

lemma untouched_view: "\<not> touched c e \<Longrightarrow> ext_view (c, s) e = files s e"
  by (simp add: touched_def ext_view_def)

lemma cache_eq_view: "cache_eq c c' e \<Longrightarrow> files s' e = files s e \<Longrightarrow> ext_view (c', s') e = ext_view (c, s) e"
  by (cases "cacheFiles c e") (simp_all add: cache_eq_def ext_view_def)

lemma cache_eq_touched: "cache_eq c c' e \<Longrightarrow> touched c' e = touched c e"
  by (simp add: cache_eq_def touched_def)

lemma cache_eq_refl [simp]: "cache_eq c c e"
  by (simp add: cache_eq_def)

section \<open>Taking a lock from another client\<close>

lemma dorelease_flush:
  assumes ok: "\<And>d. ext_ok (sh_ec sh d, sh_es sh)" and only: "\<forall>d'. touched (sh_ec sh d') l \<longrightarrow> d' = d"
  shows "ext_ok (sh_ec (dorelease now l d sh) d', sh_es (dorelease now l d sh))"
    and "\<not> touched (sh_ec (dorelease now l d sh) d') l"
    and "e \<noteq> l \<Longrightarrow> cache_eq (sh_ec sh d') (sh_ec (dorelease now l d sh) d') e"
    and "e \<noteq> l \<Longrightarrow> files (sh_es (dorelease now l d sh)) e = files (sh_es sh) e"
    and "files (sh_es (dorelease now l d sh)) l = (if touched (sh_ec sh d) l then ext_view (sh_ec sh d, sh_es sh) l else None)"
    and "d' \<noteq> d \<Longrightarrow> sh_ec (dorelease now l d sh) d' = sh_ec sh d'"
    and "sh_lk (dorelease now l d sh) = sh_lk sh" and "sh_fault (dorelease now l d sh) = sh_fault sh"
proof -
  obtain c' s' where f: "ec_flush (es_rpc now) l (sh_ec sh d, sh_es sh) = (c', s')" by (metis prod.exhaust)
  have r: "sh_ec (dorelease now l d sh) = (sh_ec sh)(d := c')" "sh_es (dorelease now l d sh) = s'"
    by (simp_all add: dorelease_def f)
  have es: "es_ok (sh_es sh)" using ok [of d] by (simp add: ext_ok_def)
  note k = ext.flush_keeps [OF es f]
  show u: "\<not> touched (sh_ec (dorelease now l d sh) d') l" for d' using k only by (auto simp: r)
  show q: "e \<noteq> l \<Longrightarrow> cache_eq (sh_ec sh d') (sh_ec (dorelease now l d sh) d') e" for e d' using k by (simp add: r)
  show fs: "e \<noteq> l \<Longrightarrow> files (sh_es (dorelease now l d sh)) e = files (sh_es sh) e" for e using k by (simp add: r)
  show "ext_ok (sh_ec (dorelease now l d sh) d', sh_es (dorelease now l d sh))"
    using ext_okE [of "sh_es (dorelease now l d sh)" l "sh_ec sh d'" "sh_ec (dorelease now l d sh) d'" "sh_es sh"]
      q [of _ d'] fs ok [of d'] u [of d'] k by (simp add: r)
  show "files (sh_es (dorelease now l d sh)) l = (if touched (sh_ec sh d) l then ext_view (sh_ec sh d, sh_es sh) l else None)"
  proof (cases "touched (sh_ec sh d) l")
    case True
    then have "ext_view (c', s') l = ext_view (sh_ec sh d, sh_es sh) l" using release_flush [OF ok f, of l] by simp
    moreover have "ext_view (c', s') l = files s' l" using k by (intro untouched_view) simp
    ultimately show ?thesis using True by (simp add: r)
  next
    case False
    with ext.flush_untouched [OF es False f] show ?thesis by (simp add: r)
  qed
qed (simp_all add: dorelease_def)

lemma sh_acquire_held: "held c l sh \<Longrightarrow> sh_acquire now c l sh = sh\<lparr>sh_fault := True\<rparr>"
  by (cases "lk_cli (sh_lk sh l) c")
    (simp_all add: sh_acquire_def seq_acquire_def cl_acquire_def lk_held_def lk_entry_def the_entry_def li_default_def)

text \<open>What a client sees does not change when it takes a lock, which it has already, which is free, or which another client has.\<close>

lemma sh_take:
  assumes inv: "sh_inv c sh" and o: "owner sh l = None \<or> owner sh l = Some c"
    and y: "lk_ok y" "lk_owner y = Some c" "\<And>d. lk_held y d = (d = c)" and s: "sh' = sh\<lparr>sh_lk := (sh_lk sh)(l := y)\<rparr>"
  shows "sh_inv c sh' \<and> sh_view c sh' = sh_view c sh"
proof -
  note D = sh_invD [OF inv]
  have t: "d = c" if "touched (sh_ec sh d) l" for d using D(4) [OF that] o by auto
  have "sh_inv c sh'"
  proof (rule sh_invI)
    show "lk_ok (sh_lk sh' m)" for m using D(1) y(1) by (simp add: s)
    show "d = c" if "held d m sh'" for d m using that D(2) [of m d] y(3) by (auto simp: s split: if_splits)
    show "ext_ok (sh_ec sh' d, sh_es sh')" for d using D(3) by (simp add: s)
    show "owner sh' m = Some d" if "touched (sh_ec sh' d) m" for d m
      using that D(4) [of d m] t y(2) by (auto simp: s)
  qed
  moreover have "sh_view c sh' e = sh_view c sh e" for e
  proof (cases "e = l")
    case True
    have "\<not> touched (sh_ec sh c) l" if "owner sh l = None" using that D(4) [of c l] by auto
    with True o y(2) show ?thesis by (auto simp: s sh_view_def untouched_view)
  qed (simp add: s sh_view_def split: option.split)
  ultimately show ?thesis by auto
qed

lemma sh_take_from:
  assumes inv: "sh_inv c sh" and o: "owner sh l = Some d" "d \<noteq> c"
    and y: "lk_ok y" "lk_owner y = Some c" "\<And>d. lk_held y d = (d = c)"
    and s: "sh' = dorelease now l d (sh\<lparr>sh_lk := (sh_lk sh)(l := y)\<rparr>)"
  shows "sh_inv c sh' \<and> sh_view c sh' = sh_view c sh \<and> sh_lk sh' = (sh_lk sh)(l := y) \<and> sh_ec sh' c = sh_ec sh c \<and>
    sh_fault sh' = sh_fault sh"
proof -
  let ?s = "sh\<lparr>sh_lk := (sh_lk sh)(l := y)\<rparr>"
  note D = sh_invD [OF inv]
  have only: "\<forall>d'. touched (sh_ec ?s d') l \<longrightarrow> d' = d" using D(4) [of _ l] o by auto
  have ok: "ext_ok (sh_ec ?s d', sh_es ?s)" for d' using D(3) by simp
  note F = dorelease_flush [where sh = ?s and l = l and d = d and now = now, OF ok only, unfolded s [symmetric]]
  have lk: "sh_lk sh' = (sh_lk sh)(l := y)" using F(7) by simp
  have "sh_inv c sh'"
  proof (rule sh_invI)
    show "lk_ok (sh_lk sh' m)" for m using D(1) y(1) by (simp add: lk)
    show "a = c" if "held a m sh'" for a m using that D(2) [of m a] y(3) by (auto simp: lk split: if_splits)
    show "ext_ok (sh_ec sh' a, sh_es sh')" for a by (rule F(1))
    show "owner sh' m = Some a" if "touched (sh_ec sh' a) m" for a m
    proof -
      have "m \<noteq> l" using that F(2) by auto
      with F(3) [OF this, of a] that D(4) [of a m] show ?thesis by (simp add: lk cache_eq_touched)
    qed
  qed
  moreover have "sh_view c sh' e = sh_view c sh e" for e
  proof (cases "e = l")
    case True
    have "sh_view c sh' l = files (sh_es sh') l" using F(2) y(2) by (simp add: sh_view_def lk untouched_view)
    with True F(5) o show ?thesis by (simp add: sh_view_def)
  next
    case False
    have "touched (sh_ec sh' a) e = touched (sh_ec sh a) e" "ext_view (sh_ec sh' a, sh_es sh') e = ext_view (sh_ec sh a, sh_es sh) e"
      "files (sh_es sh') e = files (sh_es sh) e" for a
      using F(3,4) [OF False] cache_eq_touched cache_eq_view [of "sh_ec sh a" "sh_ec sh' a" e "sh_es sh'" "sh_es sh"] by auto
    then show ?thesis using False by (simp add: sh_view_def lk split: option.split)
  qed
  ultimately show ?thesis using F(6,8) o lk by auto
qed

lemma sh_acquire_free:
  assumes inv: "sh_inv c sh" and h: "\<not> held c l sh" and sh': "sh_acquire now c l sh = sh'"
  shows "sh_inv c sh'" and "held d m sh' \<longleftrightarrow> held d m sh \<or> d = c \<and> m = l" and "owner sh' m = (if m = l then Some c else owner sh m)"
    and "sh_ec sh' c = sh_ec sh c" and "sh_fault sh' = sh_fault sh" and "sh_view c sh' = sh_view c sh"
proof -
  have nh: "\<not> held d l sh" for d using sh_invD(2) [OF inv, of l d] h by auto
  obtain y where y: "seq_acquire l c 0 (sh_lk sh l) =
      Some (case owner sh l of Some d \<Rightarrow> if d = c then [] else [d] | None \<Rightarrow> [], y)"
    "lk_ok y" "lk_owner y = Some c" "\<And>d. lk_held y d = (d = c)"
    using seq_acquire_ok [OF sh_invD(1) [OF inv] nh] by blast
  have "sh_inv c sh' \<and> sh_view c sh' = sh_view c sh \<and> sh_lk sh' = (sh_lk sh)(l := y) \<and> sh_ec sh' c = sh_ec sh c \<and> sh_fault sh' = sh_fault sh"
  proof (cases "owner sh l = None \<or> owner sh l = Some c")
    case True
    then have s: "sh' = sh\<lparr>sh_lk := (sh_lk sh)(l := y)\<rparr>" using sh' y(1) by (auto simp: sh_acquire_def)
    from sh_take [OF inv True y(2-4) s] show ?thesis by (simp add: s)
  next
    case False
    then obtain d where o: "owner sh l = Some d" "d \<noteq> c" by auto
    then have "sh' = dorelease now l d (sh\<lparr>sh_lk := (sh_lk sh)(l := y)\<rparr>)" using sh' y(1) by (simp add: sh_acquire_def)
    from sh_take_from [OF inv o y(2-4) this] show ?thesis .
  qed
  then show "sh_inv c sh'" "held d m sh' \<longleftrightarrow> held d m sh \<or> d = c \<and> m = l" "owner sh' m = (if m = l then Some c else owner sh m)"
    "sh_ec sh' c = sh_ec sh c" "sh_fault sh' = sh_fault sh" "sh_view c sh' = sh_view c sh"
    using y(3,4) nh by auto
qed

lemma sh_release_ok:
  assumes inv: "sh_inv c sh" and sh': "sh_release now c l sh = sh'"
  shows "sh_inv c sh'" and "held d m sh' \<longleftrightarrow> held d m sh \<and> m \<noteq> l" and "owner sh' m = owner sh m"
    and "sh_ec sh' = sh_ec sh" and "sh_fault sh' \<longleftrightarrow> sh_fault sh \<or> \<not> held c l sh" and "sh_view c sh' = sh_view c sh"
proof -
  have "sh_inv c sh' \<and> (\<forall>d m. held d m sh' \<longleftrightarrow> held d m sh \<and> m \<noteq> l) \<and> (\<forall>m. owner sh' m = owner sh m) \<and> sh_ec sh' = sh_ec sh \<and>
      (sh_fault sh' \<longleftrightarrow> sh_fault sh \<or> \<not> held c l sh) \<and> sh_es sh' = sh_es sh"
  proof (cases "held c l sh")
    case False
    then have s: "sh' = sh\<lparr>sh_fault := True\<rparr>" using sh' by (simp add: sh_release_def)
    have "\<not> held d l sh" for d using False sh_invD(2) [OF inv, of l d] by auto
    with inv False show ?thesis by (auto simp: s sh_inv_def)
  next
    case True
    obtain y where y: "seq_release c 0 (sh_lk sh l) = ([], y)" "lk_ok y" "lk_owner y = Some c" "\<And>d. \<not> lk_held y d"
      using seq_release_ok [OF sh_invD(1) [OF inv] True, of 0] by blast
    then have s: "sh' = sh\<lparr>sh_lk := (sh_lk sh)(l := y)\<rparr>" using sh' True by (simp add: sh_release_def)
    have o: "owner sh l = Some c" by (rule lk_held_owner [OF sh_invD(1) [OF inv] True])
    have "sh_inv c sh'"
    proof (rule sh_invI)
      show "lk_ok (sh_lk sh' m)" for m using sh_invD(1) [OF inv] y(2) by (simp add: s)
      show "d = c" if "held d m sh'" for d m using that sh_invD(2) [OF inv, of m d] y(4) by (auto simp: s split: if_splits)
      show "ext_ok (sh_ec sh' d, sh_es sh')" for d using sh_invD(3) [OF inv] by (simp add: s)
      show "owner sh' m = Some d" if "touched (sh_ec sh' d) m" for d m
        using that sh_invD(4) [OF inv, of d m] y(3) o by (auto simp: s)
    qed
    with True y(3,4) o show ?thesis by (auto simp: s)
  qed
  then show "sh_inv c sh'" "held d m sh' \<longleftrightarrow> held d m sh \<and> m \<noteq> l" "owner sh' m = owner sh m" "sh_ec sh' = sh_ec sh"
    "sh_fault sh' \<longleftrightarrow> sh_fault sh \<or> \<not> held c l sh" "sh_view c sh' = sh_view c sh"
    by (auto simp: sh_view_def fun_eq_iff split: option.split)
qed

lemma sh_fault_upd:
  "sh_inv c (sh\<lparr>sh_fault := b\<rparr>) = sh_inv c sh" "sh_view c (sh\<lparr>sh_fault := b\<rparr>) = sh_view c sh"
  by (simp_all add: sh_inv_def sh_view_def fun_eq_iff split: option.split)

lemma sh_access_ok:
  assumes inv: "sh_inv c sh" and sh': "sh_access now c l sh = sh'"
  shows "sh_inv c sh'" and "held d m sh' \<longleftrightarrow> held d m sh \<or> d = c \<and> m = l" and "owner sh' m = (if m = l then Some c else owner sh m)"
    and "sh_ec sh' c = sh_ec sh c" and "sh_fault sh' \<longleftrightarrow> sh_fault sh \<or> \<not> held c l sh" and "sh_view c sh' = sh_view c sh"
proof -
  have "sh_inv c sh' \<and> (\<forall>d m. held d m sh' \<longleftrightarrow> held d m sh \<or> d = c \<and> m = l) \<and> (\<forall>m. owner sh' m = (if m = l then Some c else owner sh m)) \<and>
      sh_ec sh' c = sh_ec sh c \<and> (sh_fault sh' \<longleftrightarrow> sh_fault sh \<or> \<not> held c l sh) \<and> sh_view c sh' = sh_view c sh"
  proof (cases "held c l sh")
    case True
    with inv sh' lk_held_owner [OF sh_invD(1) [OF inv] True] show ?thesis by (auto simp: sh_access_def)
  next
    case False
    note F = sh_acquire_free [OF inv False refl, of now]
    have s: "sh' = (sh_acquire now c l sh)\<lparr>sh_fault := True\<rparr>" using False sh' by (simp add: sh_access_def)
    show ?thesis using F(1,4,6) F(2,3) False by (simp add: s sh_fault_upd)
  qed
  then show "sh_inv c sh'" "held d m sh' \<longleftrightarrow> held d m sh \<or> d = c \<and> m = l" "owner sh' m = (if m = l then Some c else owner sh m)"
    "sh_ec sh' c = sh_ec sh c" "sh_fault sh' \<longleftrightarrow> sh_fault sh \<or> \<not> held c l sh" "sh_view c sh' = sh_view c sh"
    by auto
qed

lemma ext_ok_files: "ext_ok (c, s) \<Longrightarrow> es_ok s' \<Longrightarrow> files s' = files s \<Longrightarrow> ext_ok (c, s')"
  by (auto simp: ext_ok_def ext_view_def split: option.splits)

text \<open>An operation of the extent client on an extent whose lock its client has.\<close>

lemma client_op:
  assumes inv: "sh_inv c sh" and o: "owner sh l = Some c" and ok: "ext_ok (c', s')"
    and q: "\<And>e. e \<noteq> l \<Longrightarrow> cache_eq (sh_ec sh c) c' e" and f: "files s' = files (sh_es sh)"
  shows "sh_inv c (put_client c (c', s') sh)"
    and "sh_view c (put_client c (c', s') sh) = (sh_view c sh)(l := ext_view (c', s') l)"
proof -
  let ?s = "put_client c (c', s') sh"
  note D = sh_invD [OF inv]
  have es: "es_ok s'" using ok by (simp add: ext_ok_def)
  show "sh_inv c ?s"
  proof (rule sh_invI)
    show "ext_ok (sh_ec ?s d, sh_es ?s)" for d using ok ext_ok_files [OF D(3) es f] by simp
    show "owner ?s m = Some d" if "touched (sh_ec ?s d) m" for d m
      using that D(4) [of d m] o cache_eq_touched [OF q, of m] by (cases "m = l") (auto split: if_splits)
  qed (use D(1,2) in simp_all)
  have "sh_view c ?s e = sh_view c sh e" if "e \<noteq> l" for e
    using cache_eq_view [OF q [OF that], of s' "sh_es sh"] cache_eq_touched [OF q [OF that]] f that
    by (auto simp: sh_view_def ext_view_def split: option.splits)
  moreover have "sh_view c ?s l = ext_view (c', s') l" using o by (simp add: sh_view_def)
  ultimately show "sh_view c ?s = (sh_view c sh)(l := ext_view (c', s') l)" by (auto simp: fun_eq_iff)
qed

section \<open>The contract for a client\<close>

text \<open>What an access does to the extents of its client, in terms of the operation on the extent client.\<close>

lemma sh_access_op:
  assumes inv: "sh_inv c sh" and a: "sh_access now c l sh = sh1"
    and ok: "ext_ok (sh_ec sh1 c, sh_es sh1) \<Longrightarrow> ext_ok (c', s')"
    and q: "es_ok (sh_es sh1) \<Longrightarrow> files s' = files (sh_es sh1) \<and> (\<forall>e. e \<noteq> l \<longrightarrow> cache_eq (sh_ec sh1 c) c' e)"
  shows "sh_inv c (put_client c (c', s') sh1)"
    and "sh_view c (put_client c (c', s') sh1) = (sh_view c sh)(l := ext_view (c', s') l)"
    and "e \<noteq> l \<Longrightarrow> touched (sh_ec sh c) e \<Longrightarrow> touched c' e"
proof -
  note A = sh_access_ok [OF inv a]
  have x: "ext_ok (sh_ec sh1 c, sh_es sh1)" by (rule sh_invD(3) [OF A(1)])
  then have q': "files s' = files (sh_es sh1)" "\<And>e. e \<noteq> l \<Longrightarrow> cache_eq (sh_ec sh1 c) c' e"
    using q by (auto simp: ext_ok_def)
  have o: "owner sh1 l = Some c" using A(3) [of l] by simp
  show "sh_inv c (put_client c (c', s') sh1)"
    by (rule client_op(1) [OF A(1) o ok [OF x] q'(2,1)])
  show "sh_view c (put_client c (c', s') sh1) = (sh_view c sh)(l := ext_view (c', s') l)"
    using client_op(2) [OF A(1) o ok [OF x] q'(2,1)] A(6) by simp
  show "e \<noteq> l \<Longrightarrow> touched (sh_ec sh c) e \<Longrightarrow> touched c' e"
    using cache_eq_touched [OF q'(2)] A(4) by simp
qed

lemma sh_access_view:
  assumes "sh_inv c sh" and "sh_access now c l sh = sh1"
  shows "ext_view (sh_ec sh1 c, sh_es sh1) l = sh_view c sh l"
proof -
  have "sh_view c sh1 l = ext_view (sh_ec sh1 c, sh_es sh1) l"
    using sh_access_ok(3) [OF assms, of l] by (simp add: sh_view_def)
  with sh_access_ok(6) [OF assms] show ?thesis by simp
qed

lemma sh_get_law:
  assumes inv: "sh_inv c sh" and v: "sh_view c sh l = Some d" and g: "y_get (sh_env now a0 c) l b sh = ((r, b'), sh')"
  shows "r = 0 \<and> b' = d \<and> sh_inv c sh' \<and> sh_view c sh' = sh_view c sh \<and> touched (sh_ec sh' c) l \<and>
    (touched (sh_ec sh c) e \<longrightarrow> touched (sh_ec sh' c) e)"
proof -
  obtain sh1 where a: "sh_access now c l sh = sh1" by simp
  obtain c' s' where o: "ec_get (es_rpc now) now a0 l b (sh_ec sh1 c, sh_es sh1) = ((r, b'), c', s')"
    and s: "sh' = put_client c (c', s') sh1"
    using g a by (auto simp: sh_env_def Let_def split: prod.splits)
  have x: "ext_ok (sh_ec sh1 c, sh_es sh1)" by (rule sh_invD(3) [OF sh_access_ok(1) [OF inv a]])
  have w: "ext_view (sh_ec sh1 c, sh_es sh1) l = Some d" using sh_access_view [OF inv a] v by simp
  have L: "r = 0 \<and> b' = d \<and> ext_ok (c', s') \<and> ext_view (c', s') = ext_view (sh_ec sh1 c, sh_es sh1) \<and> touched c' l"
    using lfs.get_law [OF x w, of _ now a0 b r b' "(c', s')" l] o by (auto simp: yfs_local_def)
  have k: "files s' = files (sh_es sh1) \<and> (\<forall>e. e \<noteq> l \<longrightarrow> cache_eq (sh_ec sh1 c) c' e)" if "es_ok (sh_es sh1)"
    using ext.get_keeps [OF that o] by simp
  note O = sh_access_op [OF inv a, of c' s']
  have "sh_inv c sh'" using O(1) L k s by simp
  moreover have "sh_view c sh' = sh_view c sh" using O(2) L k s w v by (simp add: fun_upd_idem)
  moreover have "touched (sh_ec sh c) e \<longrightarrow> touched c' e" using O(3) [of e] L k by (cases "e = l") auto
  ultimately show ?thesis using L s by simp
qed

lemma sh_put_law:
  assumes inv: "sh_inv c sh" and g: "y_put (sh_env now a0 c) l b sh = (r, sh')"
  shows "r = 0 \<and> sh_inv c sh' \<and> sh_view c sh' = (sh_view c sh)(l \<mapsto> b) \<and> touched (sh_ec sh' c) l \<and>
    (touched (sh_ec sh c) e \<longrightarrow> touched (sh_ec sh' c) e)"
proof -
  obtain sh1 where a: "sh_access now c l sh = sh1" by simp
  obtain c' s' where o: "ec_put (es_rpc now) now a0 l b (sh_ec sh1 c, sh_es sh1) = (r, c', s')"
    and s: "sh' = put_client c (c', s') sh1"
    using g a by (auto simp: sh_env_def Let_def split: prod.splits)
  have x: "ext_ok (sh_ec sh1 c, sh_es sh1)" by (rule sh_invD(3) [OF sh_access_ok(1) [OF inv a]])
  have L: "r = 0 \<and> ext_ok (c', s') \<and> ext_view (c', s') l = Some b \<and> touched c' l"
    using lfs.put_law [OF x, of _ now a0 l b r "(c', s')" l] o by (auto simp: yfs_local_def)
  have k: "files s' = files (sh_es sh1) \<and> (\<forall>e. e \<noteq> l \<longrightarrow> cache_eq (sh_ec sh1 c) c' e)" if "es_ok (sh_es sh1)"
    using ext.put_presents [OF that o] by simp
  note O = sh_access_op [OF inv a, of c' s']
  have "sh_inv c sh'" using O(1) L k s by simp
  moreover have "sh_view c sh' = (sh_view c sh)(l \<mapsto> b)" using O(2) L k s by simp
  moreover have "touched (sh_ec sh c) e \<longrightarrow> touched c' e" using O(3) [of e] L k by (cases "e = l") auto
  ultimately show ?thesis using L s by simp
qed

lemma sh_getattr_law:
  assumes inv: "sh_inv c sh" and v: "sh_view c sh l = Some d" and g: "y_getattr (sh_env now a0 c) l b sh = ((r, b'), sh')"
  shows "r = 0 \<and> at_size b' = of_nat (length d) \<and> sh_inv c sh' \<and> sh_view c sh' = sh_view c sh \<and> touched (sh_ec sh' c) l \<and>
    (touched (sh_ec sh c) e \<longrightarrow> touched (sh_ec sh' c) e)"
proof -
  obtain sh1 where a: "sh_access now c l sh = sh1" by simp
  obtain c' s' where o: "ec_getattr (es_rpc now) l b (sh_ec sh1 c, sh_es sh1) = ((r, b'), c', s')"
    and s: "sh' = put_client c (c', s') sh1"
    using g a by (auto simp: sh_env_def Let_def split: prod.splits)
  have x: "ext_ok (sh_ec sh1 c, sh_es sh1)" by (rule sh_invD(3) [OF sh_access_ok(1) [OF inv a]])
  have w: "ext_view (sh_ec sh1 c, sh_es sh1) l = Some d" using sh_access_view [OF inv a] v by simp
  have L: "r = 0 \<and> at_size b' = of_nat (length d) \<and> ext_ok (c', s') \<and> ext_view (c', s') = ext_view (sh_ec sh1 c, sh_es sh1) \<and> touched c' l"
    using lfs.getattr_law [OF x w, of _ now a0 b r b' "(c', s')" l] o by (auto simp: yfs_local_def)
  have k: "files s' = files (sh_es sh1) \<and> (\<forall>e. e \<noteq> l \<longrightarrow> cache_eq (sh_ec sh1 c) c' e)" if "es_ok (sh_es sh1)"
    using ext.getattr_keeps [OF that o] by simp
  note O = sh_access_op [OF inv a, of c' s']
  have "sh_inv c sh'" using O(1) L k s by simp
  moreover have "sh_view c sh' = sh_view c sh" using O(2) L k s w v by (simp add: fun_upd_idem)
  moreover have "touched (sh_ec sh c) e \<longrightarrow> touched c' e" using O(3) [of e] L k by (cases "e = l") auto
  ultimately show ?thesis using L s by simp
qed

lemma sh_remove_law:
  assumes inv: "sh_inv c sh" and g: "y_remove (sh_env now a0 c) l sh = (r, sh')"
  shows "r = 0 \<and> sh_inv c sh' \<and> (e \<noteq> l \<longrightarrow> sh_view c sh' e = sh_view c sh e \<and> (touched (sh_ec sh c) e \<longrightarrow> touched (sh_ec sh' c) e))"
proof -
  obtain sh1 where a: "sh_access now c l sh = sh1" by simp
  obtain c' s' where o: "ec_remove l (sh_ec sh1 c, sh_es sh1) = (r, c', s')"
    and s: "sh' = put_client c (c', s') sh1"
    using g a by (auto simp: sh_env_def Let_def split: prod.splits)
  have x: "ext_ok (sh_ec sh1 c, sh_es sh1)" by (rule sh_invD(3) [OF sh_access_ok(1) [OF inv a]])
  have L: "r = 0" "ext_ok (c', s')"
    using lfs.remove_law [OF x, of _ now a0 l r "(c', s')" l] o by (auto simp: yfs_local_def)
  have k: "files s' = files (sh_es sh1) \<and> (\<forall>e. e \<noteq> l \<longrightarrow> cache_eq (sh_ec sh1 c) c' e)"
    using o by (auto simp: ec_remove_def cache_eq_def)
  note O = sh_access_op [OF inv a, of c' s']
  show ?thesis using O L k s by simp
qed

interpretation sfs: file_store "sh_env now a0 c" "sh_view c" "\<lambda>sh. touched (sh_ec sh c)" "sh_inv c" for now a0 c
proof
  fix s s' :: shared and l e :: inum and d b b' :: string and a a' :: attr and r :: int
  assume inv: "sh_inv c s"
  show "sh_inv c (y_acquire (sh_env now a0 c) l s) \<and> sh_view c (y_acquire (sh_env now a0 c) l s) = sh_view c s \<and>
      (touched (sh_ec s c) e \<longrightarrow> touched (sh_ec (y_acquire (sh_env now a0 c) l s) c) e)"
  proof (cases "held c l s")
    case True
    with inv show ?thesis by (simp add: sh_env_def sh_acquire_held sh_fault_upd)
  next
    case False
    note F = sh_acquire_free [OF inv False refl, of now]
    show ?thesis using F(1,4,6) by (simp add: sh_env_def)
  qed
  show "sh_inv c (y_release (sh_env now a0 c) l s) \<and>
      (e \<noteq> l \<or> touched (sh_ec s c) l \<longrightarrow> sh_view c (y_release (sh_env now a0 c) l s) e = sh_view c s e) \<and>
      (e \<noteq> l \<and> touched (sh_ec s c) e \<longrightarrow> touched (sh_ec (y_release (sh_env now a0 c) l s) c) e)"
    using sh_release_ok(1,4,6) [OF inv refl, of now l] by (simp add: sh_env_def)
  show "sh_view c s l = Some d \<Longrightarrow> y_get (sh_env now a0 c) l b s = ((r, b'), s') \<Longrightarrow>
      r = 0 \<and> b' = d \<and> sh_inv c s' \<and> sh_view c s' = sh_view c s \<and> touched (sh_ec s' c) l \<and>
      (touched (sh_ec s c) e \<longrightarrow> touched (sh_ec s' c) e)"
    by (rule sh_get_law [OF inv])
  show "y_put (sh_env now a0 c) l b s = (r, s') \<Longrightarrow>
      r = 0 \<and> sh_inv c s' \<and> sh_view c s' = (sh_view c s)(l \<mapsto> b) \<and> touched (sh_ec s' c) l \<and>
      (touched (sh_ec s c) e \<longrightarrow> touched (sh_ec s' c) e)"
    by (rule sh_put_law [OF inv])
  show "sh_view c s l = Some d \<Longrightarrow> y_getattr (sh_env now a0 c) l a s = ((r, a'), s') \<Longrightarrow>
      r = 0 \<and> at_size a' = of_nat (length d) \<and> sh_inv c s' \<and> sh_view c s' = sh_view c s \<and> touched (sh_ec s' c) l \<and>
      (touched (sh_ec s c) e \<longrightarrow> touched (sh_ec s' c) e)"
    by (rule sh_getattr_law [OF inv])
  show "y_remove (sh_env now a0 c) l s = (r, s') \<Longrightarrow>
      r = 0 \<and> sh_inv c s' \<and> (e \<noteq> l \<longrightarrow> sh_view c s' e = sh_view c s e \<and> (touched (sh_ec s c) e \<longrightarrow> touched (sh_ec s' c) e))"
    by (rule sh_remove_law [OF inv])
qed

section \<open>Locks alone\<close>

text \<open>The part of the invariant on locks, which accesses to missing extents keep as well.\<close>

definition lk_inv :: "string \<Rightarrow> shared \<Rightarrow> bool" where
  "lk_inv c sh \<longleftrightarrow> (\<forall>l. lk_ok (sh_lk sh l)) \<and> (\<forall>l d. held d l sh \<longrightarrow> d = c)"

lemma fold_dorelease [simp]: "sh_lk (fold (dorelease now l) fl sh) = sh_lk sh" "sh_fault (fold (dorelease now l) fl sh) = sh_fault sh"
  by (induction fl arbitrary: sh) (simp_all add: dorelease_def)

lemma flush_cache_eq: "e \<noteq> l \<Longrightarrow> cache_eq c (fst (ec_flush R l (c, s))) e"
  by (auto simp: ec_flush_def cache_eq_def Let_def split: option.splits)

lemma fold_dorelease_cache: "e \<noteq> l \<Longrightarrow> touched (sh_ec (fold (dorelease now l) fl sh) d) e = touched (sh_ec sh d) e"
proof (induction fl arbitrary: sh)
  case (Cons a fl)
  have "cache_eq (sh_ec sh a) (fst (ec_flush (es_rpc now) l (sh_ec sh a, sh_es sh))) e"
    by (rule flush_cache_eq [OF Cons.prems])
  from cache_eq_touched [OF this] have "touched (sh_ec (dorelease now l a sh) d) e = touched (sh_ec sh d) e"
    by (simp add: dorelease_def)
  with Cons.IH [OF Cons.prems, of "dorelease now l a sh"] show ?case by simp
qed simp

lemma lk_inv_upd:
  assumes "lk_inv c sh" and "lk_ok y" and "\<forall>d. lk_held y d \<longrightarrow> d = c" and "sh_lk sh' = (sh_lk sh)(l := y)"
  shows "lk_inv c sh'"
  unfolding lk_inv_def assms(4) using assms(1-3) unfolding lk_inv_def by (metis fun_upd_apply)

lemma lk_inv_cong: "sh_lk sh' = sh_lk sh \<Longrightarrow> lk_inv c sh' = lk_inv c sh"
  unfolding lk_inv_def by (rule arg_cong2 [where f = "(\<and>)"]) simp_all

lemma lk_inv_fault: "lk_inv c (sh\<lparr>sh_fault := b\<rparr>) = lk_inv c sh"
  by (rule lk_inv_cong) simp

lemma lk_acquire:
  assumes inv: "lk_inv c sh" and sh': "sh_acquire now c l sh = sh'"
  shows "lk_inv c sh'" and "held d m sh' \<longleftrightarrow> held d m sh \<or> d = c \<and> m = l" and "m \<noteq> l \<Longrightarrow> owner sh' m = owner sh m"
    and "m \<noteq> l \<Longrightarrow> touched (sh_ec sh' c) m = touched (sh_ec sh c) m" and "sh_fault sh' \<longleftrightarrow> sh_fault sh \<or> held c l sh"
proof -
  have "lk_inv c sh' \<and> (\<forall>d m. held d m sh' \<longleftrightarrow> held d m sh \<or> d = c \<and> m = l) \<and> (\<forall>m. m \<noteq> l \<longrightarrow> owner sh' m = owner sh m) \<and>
      (\<forall>m. m \<noteq> l \<longrightarrow> touched (sh_ec sh' c) m = touched (sh_ec sh c) m) \<and> (sh_fault sh' \<longleftrightarrow> sh_fault sh \<or> held c l sh)"
  proof (cases "held c l sh")
    case True
    have s: "sh' = sh\<lparr>sh_fault := True\<rparr>" using sh' sh_acquire_held [OF True] by simp
    have "lk_inv c sh'" using inv by (simp add: s lk_inv_fault)
    moreover have "\<forall>d m. held d m sh' \<longleftrightarrow> held d m sh \<or> d = c \<and> m = l" using True by (auto simp: s)
    ultimately show ?thesis using True by (simp add: s)
  next
    case False
    have nh: "\<not> held d l sh" for d using inv False unfolding lk_inv_def by metis
    have ok: "lk_ok (sh_lk sh l)" using inv by (simp add: lk_inv_def)
    obtain fl y where y: "seq_acquire l c 0 (sh_lk sh l) = Some (fl, y)" "lk_ok y" "\<And>d. lk_held y d = (d = c)"
      using seq_acquire_ok [OF ok nh] by blast
    then have s: "sh' = fold (dorelease now l) fl (sh\<lparr>sh_lk := (sh_lk sh)(l := y)\<rparr>)" using sh' by (simp add: sh_acquire_def)
    have lk: "sh_lk sh' = (sh_lk sh)(l := y)" "sh_fault sh' = sh_fault sh" by (simp_all add: s)
    have "touched (sh_ec sh' c) m = touched (sh_ec sh c) m" if "m \<noteq> l" for m
      unfolding s fold_dorelease_cache [OF that] by simp
    moreover have "lk_inv c sh'" using lk_inv_upd [OF inv y(2) _ lk(1)] y(3) by blast
    moreover have "\<forall>d m. held d m sh' \<longleftrightarrow> held d m sh \<or> d = c \<and> m = l" using y(3) nh by (auto simp: lk)
    ultimately show ?thesis using False by (simp add: lk)
  qed
  then show "lk_inv c sh'" "held d m sh' \<longleftrightarrow> held d m sh \<or> d = c \<and> m = l" "m \<noteq> l \<Longrightarrow> owner sh' m = owner sh m"
    "m \<noteq> l \<Longrightarrow> touched (sh_ec sh' c) m = touched (sh_ec sh c) m" "sh_fault sh' \<longleftrightarrow> sh_fault sh \<or> held c l sh" by auto
qed

lemma lk_release:
  assumes inv: "lk_inv c sh" and sh': "sh_release now c l sh = sh'"
  shows "lk_inv c sh'" and "held d m sh' \<longleftrightarrow> held d m sh \<and> m \<noteq> l" and "owner sh' m = owner sh m"
    and "sh_ec sh' = sh_ec sh" and "sh_fault sh' \<longleftrightarrow> sh_fault sh \<or> \<not> held c l sh"
proof -
  have "lk_inv c sh' \<and> (\<forall>d m. held d m sh' \<longleftrightarrow> held d m sh \<and> m \<noteq> l) \<and> (\<forall>m. owner sh' m = owner sh m) \<and>
      sh_ec sh' = sh_ec sh \<and> (sh_fault sh' \<longleftrightarrow> sh_fault sh \<or> \<not> held c l sh)"
  proof (cases "held c l sh")
    case True
    have ok: "lk_ok (sh_lk sh l)" using inv by (simp add: lk_inv_def)
    obtain y where y: "seq_release c 0 (sh_lk sh l) = ([], y)" "lk_ok y" "lk_owner y = Some c" "\<And>d. \<not> lk_held y d"
      using seq_release_ok [OF ok True, of 0] by blast
    then have s: "sh' = sh\<lparr>sh_lk := (sh_lk sh)(l := y)\<rparr>" using sh' True by (simp add: sh_release_def)
    have "lk_inv c sh'" using lk_inv_upd [OF inv y(2), of sh' l] y(4) by (simp add: s)
    moreover have "\<forall>d m. held d m sh' \<longleftrightarrow> held d m sh \<and> m \<noteq> l" using y(4) by (auto simp: s)
    ultimately show ?thesis using True y(3) lk_held_owner [OF ok True] by (simp add: s)
  next
    case False
    have s: "sh' = sh\<lparr>sh_fault := True\<rparr>" using False sh' by (simp add: sh_release_def)
    have "\<not> held d l sh" for d using inv False unfolding lk_inv_def by metis
    then have "\<forall>d m. held d m sh' \<longleftrightarrow> held d m sh \<and> m \<noteq> l" by (auto simp: s)
    then show ?thesis using inv False by (simp add: s lk_inv_fault)
  qed
  then show "lk_inv c sh'" "held d m sh' \<longleftrightarrow> held d m sh \<and> m \<noteq> l" "owner sh' m = owner sh m" "sh_ec sh' = sh_ec sh"
    "sh_fault sh' \<longleftrightarrow> sh_fault sh \<or> \<not> held c l sh" by auto
qed

end
