(* ===== verification/Shared_FS.thy ===== *)
theory Shared_FS
  imports Shared_Store
begin

text \<open>
  Several FUSE servers on one extent server and one lock server. The theory combines three facts about the handlers: they simulate
  the abstract file system on any \<open>file_store\<close>, in particular on the shared one; they follow the lock discipline; and they access
  every extent whose lock they take, so that no lock goes back with an extent that was not touched.
\<close>

section \<open>Invariants of the operations are invariants of the handlers\<close>

locale env_inv =
  fixes E :: "'s yfs_env" and J :: "'s \<Rightarrow> bool"
  assumes J_acquire: "J s \<Longrightarrow> J (y_acquire E l s)" and J_release: "J s \<Longrightarrow> J (y_release E l s)"
    and J_get: "J s \<Longrightarrow> J (snd (y_get E l b s))" and J_put: "J s \<Longrightarrow> J (snd (y_put E l b s))"
    and J_getattr: "J s \<Longrightarrow> J (snd (y_getattr E l a s))" and J_remove: "J s \<Longrightarrow> J (snd (y_remove E l s))"
begin

lemmas J_env = J_acquire J_release J_get J_put J_getattr J_remove

lemma J_ops:
  assumes "J s"
  shows "J (snd (getattr E u i s))" and "J (snd (yfs_lookup E n i c so s))" and "J (snd (addDirent E p i n s))"
    and "J (snd (yfs_unlink E p i n s))" and "J (snd (readDir E old i ds s))" and "J (snd (setSize E i sz s))"
    and "J (snd (readFile E i off sz b s))" and "J (snd (writeFile E i off sz b s))" and "J (releaseLock E i s)"
  using assms
  by (simp_all add: getattr_def getfile_def getdir_def yfs_lookup_def addDirent_def yfs_unlink_def readDir_def setSize_def
      readFile_def writeFile_def releaseLock_def Let_def split_def J_env)

lemma J_createhelper:
  assumes "J s" and "fuseserver_createhelper E u rs p n s = Some (r, s')"
  shows "J s'"
  using assms by (auto simp: fuseserver_createhelper_def Let_def split_def J_ops split: if_splits option.splits)

lemma J_oper:
  assumes "J s" and "fuseserver_oper L E u rs op s = Some (rp, s')"
  shows "J s'"
proof (cases op)
  case (op_create p n)
  with assms J_createhelper [OF assms(1)] show ?thesis by (auto simp: fuseserver_create_def)
next
  case (op_mknod p n)
  with assms J_createhelper [OF assms(1)] show ?thesis by (auto simp: fuseserver_mknod_def)
next
  case (op_mkdir p n)
  with assms show ?thesis
    by (auto simp: fuseserver_mkdir_def Let_def split_def J_ops split: if_splits option.splits)
next
  case (op_unlink p n)
  with assms show ?thesis by (auto simp: fuseserver_unlink_def Let_def split_def J_ops split: if_splits)
next
  case (op_lookup p n)
  with assms show ?thesis by (auto simp: fuseserver_lookup_def Let_def split_def J_ops split: if_splits)
next
  case (op_setattr i sz ts)
  with assms show ?thesis by (auto simp: fuseserver_setattr_def Let_def split_def J_ops split: if_splits)
qed (use assms in \<open>auto simp: fuseserver_getattr_def fuseserver_statfs_def fuseserver_readdir_def fuseserver_open_def
      fuseserver_read_def fuseserver_write_def Let_def split_def J_ops split: if_splits\<close>)

end

section \<open>Locks and the record of their use\<close>

text \<open>As long as the record follows the discipline, it tells which locks the client holds, and nothing has been misused.\<close>

definition lock_trace :: "string \<Rightarrow> shared \<times> lock_ev list \<Rightarrow> bool" where
  "lock_trace c x \<longleftrightarrow> lk_inv c (fst x) \<and>
     (\<forall>h. lock_check [] (snd x) = Some h \<longrightarrow> \<not> sh_fault (fst x) \<and> (\<forall>l. held c l (fst x) \<longleftrightarrow> l \<in> set h))"

lemma lock_check_snoc:
  "lock_check [] (t @ [Acq l]) = Some h \<Longrightarrow> \<exists>h'. lock_check [] t = Some h' \<and> l \<notin> set h' \<and> h = l # h'"
  "lock_check [] (t @ [Rel l]) = Some h \<Longrightarrow> \<exists>h'. lock_check [] t = Some h' \<and> l \<in> set h' \<and> h = removeAll l h'"
  "lock_check [] (t @ [Acc l]) = Some h \<Longrightarrow> lock_check [] t = Some h \<and> l \<in> set h"
  by (auto simp: lock_check_append bind_eq_Some_conv split: if_splits)

lemma lock_trace_access:
  assumes "lock_trace c (sh, t)" and "sh_lk sh' = sh_lk (sh_access now c l sh)" and "sh_fault sh' = sh_fault (sh_access now c l sh)"
  shows "lock_trace c (sh', t @ [Acc l])"
proof -
  have inv: "lk_inv c sh" using assms(1) by (simp add: lock_trace_def)
  have "lk_inv c sh'"
  proof (cases "held c l sh")
    case True
    then have "sh_lk sh' = sh_lk sh" using assms(2) by (simp add: sh_access_def)
    then show ?thesis using inv lk_inv_cong by blast
  next
    case False
    then have "sh_lk sh' = sh_lk (sh_acquire now c l sh)" using assms(2) by (simp add: sh_access_def)
    then show ?thesis using lk_acquire(1) [OF inv refl, of now l] lk_inv_cong by blast
  qed
  moreover have "\<not> sh_fault sh' \<and> (\<forall>m. held c m sh' \<longleftrightarrow> m \<in> set h)" if "lock_check [] (t @ [Acc l]) = Some h" for h
  proof -
    have h: "lock_check [] t = Some h" "l \<in> set h" using lock_check_snoc(3) [OF that] by auto
    then have "\<not> sh_fault sh" "\<And>m. held c m sh \<longleftrightarrow> m \<in> set h" using assms(1) by (auto simp: lock_trace_def)
    then show ?thesis using h assms(2,3) by (simp add: sh_access_def)
  qed
  ultimately show ?thesis by (simp add: lock_trace_def)
qed

interpretation lt: env_inv "traced (sh_env now a0 c)" "lock_trace c" for now a0 c
proof
  fix x :: "shared \<times> lock_ev list" and l b a
  obtain sh t where x: "x = (sh, t)" by (cases x)
  assume J: "lock_trace c x"
  then have inv: "lk_inv c sh" and h: "lock_check [] t = Some h \<Longrightarrow> \<not> sh_fault sh \<and> (\<forall>l. held c l sh \<longleftrightarrow> l \<in> set h)" for h
    by (auto simp: lock_trace_def x)
  show "lock_trace c (y_acquire (traced (sh_env now a0 c)) l x)"
  proof -
    note A = lk_acquire [OF inv refl, where now = now and l = l]
    have "\<not> sh_fault (sh_acquire now c l sh) \<and> (\<forall>m. held c m (sh_acquire now c l sh) \<longleftrightarrow> m \<in> set k)"
      if "lock_check [] (t @ [Acq l]) = Some k" for k
      using lock_check_snoc(1) [OF that] h A(2) [where d = c] A(5) by auto
    then show ?thesis using A(1) by (simp add: x traced_def sh_env_def lock_trace_def)
  qed
  show "lock_trace c (y_release (traced (sh_env now a0 c)) l x)"
  proof -
    note A = lk_release [OF inv refl, where now = now and l = l]
    have "\<not> sh_fault (sh_release now c l sh) \<and> (\<forall>m. held c m (sh_release now c l sh) \<longleftrightarrow> m \<in> set k)"
      if "lock_check [] (t @ [Rel l]) = Some k" for k
      using lock_check_snoc(2) [OF that] h A(2) [where d = c] A(5) by auto
    then show ?thesis using A(1) by (simp add: x traced_def sh_env_def lock_trace_def)
  qed
  have J': "lock_trace c (sh, t)" using J by (simp add: x)
  show "lock_trace c (snd (y_get (traced (sh_env now a0 c)) l b x))"
    by (simp add: x traced_def sh_env_def Let_def split_def) (rule lock_trace_access [OF J', of _ now]; simp)
  show "lock_trace c (snd (y_put (traced (sh_env now a0 c)) l b x))"
    by (simp add: x traced_def sh_env_def Let_def split_def) (rule lock_trace_access [OF J', of _ now]; simp)
  show "lock_trace c (snd (y_getattr (traced (sh_env now a0 c)) l a x))"
    by (simp add: x traced_def sh_env_def Let_def split_def) (rule lock_trace_access [OF J', of _ now]; simp)
  show "lock_trace c (snd (y_remove (traced (sh_env now a0 c)) l x))"
    by (simp add: x traced_def sh_env_def Let_def split_def) (rule lock_trace_access [OF J', of _ now]; simp)
qed

text \<open>A request on the shared store misuses no lock and gives all locks back to its client.\<close>

lemma shared_discipline:
  assumes inv: "lk_inv c sh" and free: "\<And>l. \<not> held c l sh" and f: "\<not> sh_fault sh" and pre: "lock_pre rs op"
    and r: "fuseserver_oper L (sh_env now a0 c) u rs op sh = Some (rp, sh')"
  shows "lk_inv c sh' \<and> (\<forall>l. \<not> held c l sh') \<and> \<not> sh_fault sh'"
proof -
  have d: "disciplined (fuseserver_oper L (traced (sh_env now a0 c)) u rs op (sh, [])) (Some (rp, sh'))"
    using oper_locks [OF pre, of L "sh_env now a0 c" u sh] r by simp
  then obtain t where t: "fuseserver_oper L (traced (sh_env now a0 c)) u rs op (sh, []) = Some (rp, sh', t)"
      "lock_check [] t = Some []"
    by (auto simp: disciplined_def split: option.splits)
  have "lock_trace c (sh, [])" using inv free f by (simp add: lock_trace_def)
  from lt.J_oper [OF this t(1)] t(2) show ?thesis by (simp add: lock_trace_def)
qed

section \<open>Locks whose extent was not accessed\<close>

text \<open>The handlers that neither add nor remove names.\<close>

definition keeps_names :: "fuse_op \<Rightarrow> bool" where
  "keeps_names op =
     (case op of op_create p n \<Rightarrow> False | op_mknod p n \<Rightarrow> False | op_mkdir p n \<Rightarrow> False | op_unlink p n \<Rightarrow> False | _ \<Rightarrow> True)"

lemma fs_op_dom: "op_ok L rs fs op \<Longrightarrow> keeps_names op \<Longrightarrow> dom (snd (fs_op L r op fs)) = dom fs"
  by (cases op) (auto simp: keeps_names_def is_FileNode_def split: option.splits fs_node.splits)

text \<open>\<open>B P s\<close>: the locks that the client has without having touched their extents are among \<open>P\<close>.\<close>

locale pend_store =
  fixes E :: "'s yfs_env" and B :: "inum set \<Rightarrow> 's \<Rightarrow> bool"
  assumes B_mono: "B P s \<Longrightarrow> P \<subseteq> Q \<Longrightarrow> B Q s"
    and B_acquire: "B P s \<Longrightarrow> B (insert l P) (y_acquire E l s)"
    and B_release: "B P s \<Longrightarrow> B P (y_release E l s)"
    and B_get: "B P s \<Longrightarrow> B (P - {l}) (snd (y_get E l b s))"
    and B_put: "B P s \<Longrightarrow> B (P - {l}) (snd (y_put E l b s))"
    and B_getattr: "B P s \<Longrightarrow> B (P - {l}) (snd (y_getattr E l a s))"
    and B_remove: "B P s \<Longrightarrow> B (insert l P) (snd (y_remove E l s))"
begin

lemma B_keep:
  assumes "B P s"
  shows "B P (snd (y_get E l b s))" and "B P (snd (y_put E l b s))" and "l \<in> P \<Longrightarrow> B P (snd (y_remove E l s))"
  using B_mono [OF B_get [OF assms], of l P] B_mono [OF B_put [OF assms], of l P] B_remove [OF assms, of l]
  by (auto simp: insert_absorb)

lemma B_locked:
  assumes "B P s"
  shows "B (P - {l}) (snd (y_get E l b (y_acquire E l s)))" and "B (P - {l}) (snd (y_getattr E l a (y_acquire E l s)))"
  using B_get [OF B_acquire [OF assms], of l l] B_getattr [OF B_acquire [OF assms], of l l] by simp_all

lemma B_getattr_op: "B P s \<Longrightarrow> B (P - {i}) (snd (getattr E u i s))"
  by (simp add: getattr_def getfile_def getdir_def Let_def split_def B_release B_locked)

lemma B_lookup: "B P s \<Longrightarrow> B P (snd (yfs_lookup E n p c so s))"
  using B_mono [OF B_locked(1) [of P s p], of P]
  by (simp add: yfs_lookup_def Let_def split_def B_release Diff_subset)

lemma B_file_ops:
  assumes "B P s"
  shows "B P (snd (readDir E old i ds s))" and "B P (snd (readFile E i off sz b s))" and "B P (snd (setSize E i sz s))"
    and "B P (snd (writeFile E i off sz b s))" and "B P (releaseLock E i s)"
  using B_mono [OF B_locked(1) [OF assms, of i], of P] assms
  by (simp_all add: readDir_def readFile_def setSize_def writeFile_def releaseLock_def Let_def split_def B_release B_keep Diff_subset)

lemma B_dir_ops:
  assumes "B P s"
  shows "B (insert i P) (snd (addDirent E p i n s))" and "B (insert i P) (snd (yfs_unlink E p i n s))"
  using B_acquire [OF assms, of i]
  by (simp_all add: addDirent_def yfs_unlink_def Let_def split_def B_release B_keep)

lemma B_keeps_names:
  assumes b: "B P s" and k: "keeps_names op" and r: "fuseserver_oper L E u rs op s = Some (rp, s')"
  shows "B P s'"
proof -
  note g = B_mono [OF B_getattr_op, of P _ _ P u, OF _ Diff_subset]
  show ?thesis
  proof (cases op)
    case (op_lookup p n)
    with r B_lookup [OF b, of n p "u_inum u" True] g show ?thesis
      by (auto simp: fuseserver_lookup_def Let_def split_def split: if_splits)
  next
    case (op_setattr i sz ts)
    with r B_file_ops(3) [OF b, of i "ucast sz"] b g show ?thesis
      by (auto simp: fuseserver_setattr_def Let_def split_def split: if_splits)
  qed (use k r b g [OF b] B_file_ops [OF b] in \<open>auto simp: keeps_names_def fuseserver_getattr_def fuseserver_readdir_def
      fuseserver_read_def fuseserver_write_def fuseserver_statfs_def fuseserver_open_def Let_def split_def split: if_splits\<close>)
qed

end

locale tracked_store = file_store E view tch ok + pend_store E B
  for E :: "'s yfs_env" and view :: "'s \<Rightarrow> inum \<rightharpoonup> string" and tch :: "'s \<Rightarrow> inum \<Rightarrow> bool" and ok :: "'s \<Rightarrow> bool"
    and B :: "inum set \<Rightarrow> 's \<Rightarrow> bool"
begin

lemma add_pend:
  assumes rel: "fs_rel view ok fs s" and p: "fs p = Some (DirNode es)" and n: "map_of es n = None" "good_name n"
    and i: "fs i = None" and nd: "node_ok i nd" "nd = FileNode '''' \<or> nd = DirNode []" and b: "B P s" "P \<inter> dom fs = {}"
  obtains s' st s'' where "addDirent E p i n s = (0, s')" "getattr E u i s' = ((0, st), s'')"
    "B (P - {i}) s''" "(P - {i}) \<inter> dom (fs(p \<mapsto> DirNode (es @ [(n, i)]), i \<mapsto> nd)) = {}"
proof -
  obtain s' st s'' where a: "addDirent E p i n s = (0, s')" "getattr E u i s' = ((0, st), s'')"
    using add_sim [OF rel p n i nd, of u] by blast
  have "B (insert i P) s'" using B_dir_ops(1) [OF b(1), of i p n] a(1) by simp
  from B_getattr_op [OF this, of i u] a(2) have "B (P - {i}) s''" by simp
  moreover have "(P - {i}) \<inter> dom (fs(p \<mapsto> DirNode (es @ [(n, i)]), i \<mapsto> nd)) = {}" using b(2) p by auto
  ultimately show ?thesis using a that by blast
qed

lemma createhelper_pend:
  assumes rel: "fs_rel view ok fs s" and p: "fs p = Some (DirNode es)" and n: "good_name n" and r: "draw_ino rs = Some r"
    and i: "fs (file_ino r) = None" and b: "B P s" "P \<inter> dom fs = {}"
    and c: "fuseserver_createhelper E u rs p n s = Some (ret, s')"
  shows "\<exists>Q. B Q s' \<and> Q \<inter> dom (snd (fs_add mk p n (file_ino r) (FileNode '''') fs)) = {}"
proof -
  obtain s1 where l: "yfs_lookup E n p (u_inum u) False s =
      ((0, case map_of es n of None \<Rightarrow> (u_inum u, False) | Some i \<Rightarrow> (i, True)), s1)" "fs_rel view ok fs s1"
    using lookup_sim [OF rel p] by metis
  have b1: "B P s1" using B_lookup [OF b(1), of n p "u_inum u" False] l(1) by simp
  show ?thesis
  proof (cases "map_of es n")
    case (Some j)
    with c l(1) have "s' = releaseLock E p s1" by (simp add: fuseserver_createhelper_def Let_def)
    with B_file_ops(5) [OF b1] b(2) Some p show ?thesis by (auto simp: fs_add_def)
  next
    case None
    have nd: "node_ok (file_ino r) (FileNode '''')" by (simp add: isfile_file_ino)
    obtain s2 st s3 where a: "addDirent E p (file_ino r) n s1 = (0, s2)" "getattr E u (file_ino r) s2 = ((0, st), s3)"
        "B (P - {file_ino r}) s3"
        "(P - {file_ino r}) \<inter> dom (fs(p \<mapsto> DirNode (es @ [(n, file_ino r)]), file_ino r \<mapsto> FileNode '''')) = {}"
      using add_pend [OF l(2) p None n i nd _ b1 b(2)] by blast
    have "s' = s3" using c l(1) None r a(1,2) by (simp add: fuseserver_createhelper_def Let_def)
    moreover have "snd (fs_add mk p n (file_ino r) (FileNode '''') fs) =
        fs(p \<mapsto> DirNode (es @ [(n, file_ino r)]), file_ino r \<mapsto> FileNode '''')"
      using p None by (simp add: fs_add_def)
    ultimately show ?thesis using a(3,4) by metis
  qed
qed

lemma mkdir_pend:
  assumes rel: "fs_rel view ok fs s" and p: "fs p = Some (DirNode es)" and n: "good_name n" and r: "draw_ino rs = Some r"
    and i: "fs (dir_ino r) = None" and b: "B P s" "P \<inter> dom fs = {}" and c: "fuseserver_mkdir E u rs p n s = Some (rp, s')"
  shows "\<exists>Q. B Q s' \<and> Q \<inter> dom (snd (fs_add mk p n (dir_ino r) (DirNode []) fs)) = {}"
proof -
  obtain s1 where l: "yfs_lookup E n p (u_inum u) False s =
      ((0, case map_of es n of None \<Rightarrow> (u_inum u, False) | Some i \<Rightarrow> (i, True)), s1)" "fs_rel view ok fs s1"
    using lookup_sim [OF rel p] by metis
  have b1: "B P s1" using B_lookup [OF b(1), of n p "u_inum u" False] l(1) by simp
  show ?thesis
  proof (cases "map_of es n")
    case (Some j)
    with c l(1) have "s' = releaseLock E p s1" by (simp add: fuseserver_mkdir_def Let_def)
    with B_file_ops(5) [OF b1] b(2) Some p show ?thesis by (auto simp: fs_add_def)
  next
    case None
    have nd: "node_ok (dir_ino r) (DirNode [])" by (simp add: isdir_dir_ino)
    obtain s2 st s3 where a: "addDirent E p (dir_ino r) n s1 = (0, s2)" "getattr E u (dir_ino r) s2 = ((0, st), s3)"
        "B (P - {dir_ino r}) s3" "(P - {dir_ino r}) \<inter> dom (fs(p \<mapsto> DirNode (es @ [(n, dir_ino r)]), dir_ino r \<mapsto> DirNode [])) = {}"
      using add_pend [OF l(2) p None n i nd _ b1 b(2)] by blast
    have "s' = s3" using c l(1) None r a(1,2) by (simp add: fuseserver_mkdir_def Let_def)
    moreover have "snd (fs_add mk p n (dir_ino r) (DirNode []) fs) = fs(p \<mapsto> DirNode (es @ [(n, dir_ino r)]), dir_ino r \<mapsto> DirNode [])"
      using p None by (simp add: fs_add_def)
    ultimately show ?thesis using a(3,4) by metis
  qed
qed

lemma unlink_pend:
  assumes rel: "fs_rel view ok fs s" and p: "fs p = Some (DirNode es)" and b: "B P s" "P \<inter> dom fs = {}"
    and c: "fuseserver_unlink E u p n s = (rp, s')"
  shows "\<exists>Q. B Q s' \<and> Q \<inter> dom (snd (fs_op L r (op_unlink p n) fs)) = {}"
proof -
  obtain s1 where l: "yfs_lookup E n p (u_inum u) False s =
      ((0, case map_of es n of None \<Rightarrow> (u_inum u, False) | Some i \<Rightarrow> (i, True)), s1)" "fs_rel view ok fs s1"
    using lookup_sim [OF rel p] by metis
  have b1: "B P s1" using B_lookup [OF b(1), of n p "u_inum u" False] l(1) by simp
  note k = B_file_ops(5) [OF b1, of p]
  show ?thesis
  proof (cases "map_of es n")
    case None
    with c l(1) have "s' = releaseLock E p s1" by (simp add: fuseserver_unlink_def Let_def)
    with k b(2) None p show ?thesis by auto
  next
    case (Some i)
    obtain nd where nd: "fs i = Some nd" using fs_ok_file_entry [of fs p es n i] rel p Some by (auto simp: fs_rel_def)
    have nok: "node_ok i nd" using rel_node [OF rel nd] by simp
    show ?thesis
    proof (cases nd)
      case (DirNode es')
      with nok c l(1) Some have "s' = releaseLock E p s1" by (simp add: fuseserver_unlink_def isdir_def Let_def)
      with k b(2) Some p nd DirNode show ?thesis by auto
    next
      case (FileNode d)
      have ip: "i \<noteq> p" using nd p FileNode by auto
      obtain s2 where u: "yfs_unlink E p i n s1 = (0, s2)" using unlink_view [OF rel_dir [OF l(2) p] ip] by blast
      then have "s' = s2" using nok c l(1) Some FileNode by (simp add: fuseserver_unlink_def Let_def)
      moreover have "B (insert i P) s2" using B_dir_ops(2) [OF b1, of i p n] u by simp
      moreover have "insert i P \<inter> dom (snd (fs_op L r (op_unlink p n) fs)) = {}"
        using b(2) p Some nd FileNode ip by auto
      ultimately show ?thesis by blast
    qed
  qed
qed

lemma op_pend:
  assumes rel: "fs_rel view ok fs s" and op: "op_ok L rs fs op" and b: "B P s" "P \<inter> dom fs = {}"
    and r: "fuseserver_oper L E u rs op s = Some (rp, s')"
  shows "\<exists>Q. B Q s' \<and> Q \<inter> dom (snd (fs_op L (drawn rs) op fs)) = {}"
proof (cases "keeps_names op")
  case True
  with B_keeps_names [OF b(1) True r] fs_op_dom [OF op True] b(2) show ?thesis by blast
next
  case False
  show ?thesis
  proof (cases op)
    case (op_create p n)
    with op obtain es k where "fs p = Some (DirNode es)" "good_name n" "draw_ino rs = Some k" "fs (file_ino k) = None"
      by (auto simp: dir_node unused_iff)
    with op_create r createhelper_pend [OF rel _ _ _ _ b] show ?thesis by (auto simp: fuseserver_create_def drawn_def)
  next
    case (op_mknod p n)
    with op obtain es k where "fs p = Some (DirNode es)" "good_name n" "draw_ino rs = Some k" "fs (file_ino k) = None"
      by (auto simp: dir_node unused_iff)
    with op_mknod r createhelper_pend [OF rel _ _ _ _ b] show ?thesis by (auto simp: fuseserver_mknod_def drawn_def)
  next
    case (op_mkdir p n)
    with op obtain es k where "fs p = Some (DirNode es)" "good_name n" "draw_ino rs = Some k" "fs (dir_ino k) = None"
      by (auto simp: dir_node unused_iff)
    with op_mkdir r mkdir_pend [OF rel _ _ _ _ b] show ?thesis by (auto simp: drawn_def)
  next
    case (op_unlink p n)
    with op obtain es where p: "fs p = Some (DirNode es)" by (auto simp: dir_node)
    from op_unlink r have "fuseserver_unlink E u p n s = (rp, s')" by simp
    from unlink_pend [OF rel p b this] op_unlink show ?thesis by simp
  qed (use False in \<open>simp_all add: keeps_names_def\<close>)
qed

end

section \<open>The shared store\<close>

definition pending :: "string \<Rightarrow> inum set \<Rightarrow> shared \<Rightarrow> bool" where
  "pending c P sh \<longleftrightarrow> lk_inv c sh \<and> (\<forall>l. owner sh l = Some c \<and> \<not> touched (sh_ec sh c) l \<longrightarrow> l \<in> P)"

lemma pending_acquire: "pending c P sh \<Longrightarrow> pending c (insert l P) (sh_acquire now c l sh)"
  using lk_acquire(1,3,4) [of c sh now l, OF _ refl] by (auto simp: pending_def)

lemma pending_access:
  assumes "pending c P sh"
  shows "pending c (insert l P) (sh_access now c l sh)"
proof (cases "held c l sh")
  case False
  have "pending c (insert l P) (sh_acquire now c l sh)" by (rule pending_acquire [OF assms])
  then show ?thesis using False by (simp add: sh_access_def pending_def lk_inv_fault)
qed (use assms in \<open>auto simp: sh_access_def pending_def\<close>)

lemma pending_op:
  assumes "pending c P sh" and "\<And>e. e \<noteq> l \<Longrightarrow> cache_eq (sh_ec (sh_access now c l sh) c) (fst x) e"
  shows "pending c (insert l P) (put_client c x (sh_access now c l sh))"
    and "touched (fst x) l \<Longrightarrow> pending c (P - {l}) (put_client c x (sh_access now c l sh))"
proof -
  let ?s = "put_client c x (sh_access now c l sh)"
  have a: "pending c (insert l P) (sh_access now c l sh)" by (rule pending_access [OF assms(1)])
  then have k: "lk_inv c ?s" using lk_inv_cong [of ?s "sh_access now c l sh" c] by (simp add: pending_def)
  have m: "e \<in> P" if "owner ?s e = Some c" "\<not> touched (sh_ec ?s c) e" "e \<noteq> l" for e
    using a cache_eq_touched [OF assms(2) [OF that(3)]] that by (auto simp: pending_def)
  show "pending c (insert l P) ?s" unfolding pending_def using k m by blast
  show "pending c (P - {l}) ?s" if "touched (fst x) l"
  proof -
    have "touched (sh_ec ?s c) l" using that by simp
    then show ?thesis unfolding pending_def using k m by blast
  qed
qed

lemma client_caches:
  "e \<noteq> l \<Longrightarrow> cache_eq c (fst (snd (ec_get R now a0 l b (c, s)))) e" "touched (fst (snd (ec_get R now a0 l b (c, s)))) l"
  "e \<noteq> l \<Longrightarrow> cache_eq c (fst (snd (ec_put R now a0 l b (c, s)))) e" "touched (fst (snd (ec_put R now a0 l b (c, s)))) l"
  "e \<noteq> l \<Longrightarrow> cache_eq c (fst (snd (ec_getattr R l a (c, s)))) e" "touched (fst (snd (ec_getattr R l a (c, s)))) l"
  "e \<noteq> l \<Longrightarrow> cache_eq c (fst (snd (ec_remove l (c, s)))) e"
  by (auto simp: ec_get_def ec_put_def ec_getattr_def ec_remove_def ec_store_attr_def cache_eq_def touched_def Let_def
      split: option.splits prod.splits)

interpretation trs: tracked_store "sh_env now a0 c" "sh_view c" "\<lambda>sh. touched (sh_ec sh c)" "sh_inv c" "pending c" for now a0 c
proof unfold_locales
  fix P Q :: "inum set" and s :: shared and l :: inum and b :: string and a :: attr
  assume B: "pending c P s"
  show "P \<subseteq> Q \<Longrightarrow> pending c Q s" using B by (auto simp: pending_def)
  show "pending c (insert l P) (y_acquire (sh_env now a0 c) l s)"
    using pending_acquire [OF B] by (simp add: sh_env_def)
  show "pending c P (y_release (sh_env now a0 c) l s)"
    using B lk_release(1,3,4) [of c s now l, OF _ refl] by (simp add: sh_env_def pending_def)
  show "pending c (P - {l}) (snd (y_get (sh_env now a0 c) l b s))"
    unfolding sh_env_def by (simp add: Let_def split_def) (rule pending_op(2) [OF B]; simp add: client_caches)
  show "pending c (P - {l}) (snd (y_put (sh_env now a0 c) l b s))"
    unfolding sh_env_def by (simp add: Let_def split_def) (rule pending_op(2) [OF B]; simp add: client_caches)
  show "pending c (P - {l}) (snd (y_getattr (sh_env now a0 c) l a s))"
    unfolding sh_env_def by (simp add: Let_def split_def) (rule pending_op(2) [OF B]; simp add: client_caches)
  show "pending c (insert l P) (snd (y_remove (sh_env now a0 c) l s))"
    unfolding sh_env_def by (simp add: Let_def split_def) (rule pending_op(1) [OF B]; simp add: client_caches)
qed

section \<open>Requests of several clients\<close>

text \<open>Between requests no lock is in use, and all clients see the same file system.\<close>

definition shared_rel :: "fs \<Rightarrow> shared \<Rightarrow> bool" where
  "shared_rel fs sh \<longleftrightarrow> (\<forall>c. fs_rel (sh_view c) (sh_inv c) fs sh) \<and> (\<forall>c l. \<not> held c l sh) \<and> \<not> sh_fault sh"

lemma shared_rel_init: "shared_rel fs_empty (shared_init now)"
proof -
  have "sh_inv c (shared_init now)" for c
    using ext_ok_init by (auto simp: sh_inv_def shared_init_def lk_init_ok touched_def extent_client_init_def)
  moreover have "sh_view c (shared_init now) 1 = Some (dir_text [])" for c
    by (simp add: sh_view_def shared_init_def lk_init_ok extent_server_init_def dir_text_def)
  ultimately show ?thesis
    using fs_ok_empty by (simp add: shared_rel_def fs_rel_def represents_def fs_empty_def shared_init_def lk_init_ok)
qed

text \<open>When a client has touched all the extents it has locks of, every client sees what it sees.\<close>

lemma shared_switch:
  assumes rel: "fs_rel (sh_view c) (sh_inv c) fs sh" and free: "\<And>l. \<not> held c l sh" and p: "pending c P sh" "P \<inter> dom fs = {}"
  shows "fs_rel (sh_view d) (sh_inv d) fs sh"
proof -
  have inv: "sh_inv c sh" and ok: "fs_ok fs" and rep: "represents fs (sh_view c sh)" using rel by (auto simp: fs_rel_def)
  have "\<not> held a l sh" for a l using sh_invD(2) [OF inv, of l a] free by auto
  then have "sh_inv d sh" using sh_invD(1,3,4) [OF inv] by (intro sh_invI) auto
  moreover have "sh_view d sh e = Some (node_text nd)" if e: "fs e = Some nd" for e nd
  proof -
    have v: "sh_view c sh e = Some (node_text nd)" using rep e by (simp add: represents_def)
    have "touched (sh_ec sh c) e" if "owner sh e = Some c"
      using p e that by (auto simp: pending_def)
    with v show ?thesis by (auto simp: sh_view_def split: option.splits if_splits)
  qed
  ultimately show ?thesis using ok by (simp add: fs_rel_def represents_def)
qed

lemma shared_pending:
  assumes "shared_rel fs sh"
  shows "pending c {l. owner sh l = Some c \<and> \<not> touched (sh_ec sh c) l} sh"
    and "{l. owner sh l = Some c \<and> \<not> touched (sh_ec sh c) l} \<inter> dom fs = {}"
proof -
  have f: "fs_rel (sh_view d) (sh_inv d) fs sh" for d using assms by (simp add: shared_rel_def)
  then have "lk_inv c sh" using sh_invD(1,2) [of c sh] by (simp add: fs_rel_def lk_inv_def)
  then show "pending c {l. owner sh l = Some c \<and> \<not> touched (sh_ec sh c) l} sh" by (simp add: pending_def)
  have False if "fs e = Some nd" "owner sh e = Some c" "\<not> touched (sh_ec sh c) e" for e nd
  proof -
    have "sh_view (CHR ''x'' # c) sh e = None" using that by (simp add: sh_view_def)
    with f [of "CHR ''x'' # c"] that show False by (simp add: fs_rel_def represents_def)
  qed
  then show "{l. owner sh l = Some c \<and> \<not> touched (sh_ec sh c) l} \<inter> dom fs = {}" by auto
qed

lemma op_ok_lock_pre: "op_ok L rs fs op \<Longrightarrow> fs_ok fs \<Longrightarrow> lock_pre rs op"
proof -
  assume o: "op_ok L rs fs op" and ok: "fs_ok fs"
  have d: "isdir p" if "is_DirNode fs p" for p
    using that fs_okD(1) [OF ok, of p] by (auto simp: is_DirNode_def split: option.splits fs_node.splits)
  show ?thesis
    using o d by (cases op) (auto simp: unused_def drawn_def is_DirNode_def split: option.splits fs_node.splits)
qed

lemma shared_step:
  assumes lib: "lib_ok L" and rel: "shared_rel fs sh" and op: "op_ok L rs fs op"
  shows "\<exists>rp sh'. fuseserver_oper L (sh_env now a0 c) u rs op sh = Some (rp, sh') \<and>
    timeless rp = fst (fs_op L (drawn rs) op fs) \<and> shared_rel (snd (fs_op L (drawn rs) op fs)) sh'"
proof -
  let ?fs = "snd (fs_op L (drawn rs) op fs)"
  have r: "fs_rel (sh_view c) (sh_inv c) fs sh" and free: "\<And>l. \<not> held c l sh" and f: "\<not> sh_fault sh"
    using rel by (auto simp: shared_rel_def)
  obtain rp sh' where s: "fuseserver_oper L (sh_env now a0 c) u rs op sh = Some (rp, sh')"
      "timeless rp = fst (fs_op L (drawn rs) op fs)" and r': "fs_rel (sh_view c) (sh_inv c) ?fs sh'"
    using sfs.op_sim [OF lib r op, of now a0 u] by (auto simp: agrees_def split: option.splits)
  have lk: "lk_inv c sh" using shared_pending(1) [OF rel, of c] by (simp add: pending_def)
  have pre: "lock_pre rs op" using op_ok_lock_pre [OF op] r by (simp add: fs_rel_def)
  have d: "\<And>l. \<not> held c l sh'" "\<not> sh_fault sh'" "lk_inv c sh'"
    using shared_discipline [OF lk free f pre s(1)] by auto
  obtain Q where "pending c Q sh'" "Q \<inter> dom ?fs = {}"
    using trs.op_pend [OF r op shared_pending [OF rel] s(1)] by blast
  then have "fs_rel (sh_view d) (sh_inv d) ?fs sh'" for d by (rule shared_switch [OF r' d(1)])
  moreover have "\<not> held a l sh'" for a l using d(1,3) unfolding lk_inv_def by metis
  ultimately have "shared_rel ?fs sh'" using d(2) by (simp add: shared_rel_def)
  with s show ?thesis by blast
qed

fun sh_run :: "fuse_lib \<Rightarrow> (string \<times> fuse_call) list \<Rightarrow> shared \<Rightarrow> (reply list \<times> shared) option" where
  "sh_run L [] sh = Some ([], sh)"
| "sh_run L ((c, q) # cs) sh =
     (case fuseserver_oper L (sh_env (fc_now q) (fc_a0 q) c) (fc_u q) (fc_rs q) (fc_op q) sh of
        None \<Rightarrow> None
      | Some (rp, sh) \<Rightarrow> map_option (\<lambda>(rps, sh). (rp # rps, sh)) (sh_run L cs sh))"

lemma shared_run:
  assumes lib: "lib_ok L"
  shows "run_ok L (map snd cs) fs \<Longrightarrow> shared_rel fs sh \<Longrightarrow>
    \<exists>rps sh'. sh_run L cs sh = Some (rps, sh') \<and> map timeless rps = fst (fs_run L (map snd cs) fs) \<and>
      shared_rel (snd (fs_run L (map snd cs) fs)) sh'"
proof (induction cs arbitrary: fs sh)
  case (Cons x cs)
  obtain c q where x: "x = (c, q)" by (cases x)
  obtain rp fs' where a: "fs_op L (drawn (fc_rs q)) (fc_op q) fs = (rp, fs')" by (metis prod.exhaust)
  have o: "op_ok L (fc_rs q) fs (fc_op q)" "run_ok L (map snd cs) fs'" using Cons.prems(1) a by (simp_all add: x)
  obtain r sh1 where s: "fuseserver_oper L (sh_env (fc_now q) (fc_a0 q) c) (fc_u q) (fc_rs q) (fc_op q) sh = Some (r, sh1)"
      "timeless r = rp" "shared_rel fs' sh1"
    using shared_step [OF lib Cons.prems(2) o(1), of "fc_now q" "fc_a0 q" c "fc_u q"] a by auto
  from Cons.IH [OF o(2) s(3)] s(1,2) a show ?case by (auto simp: x split: prod.splits)
qed simp

text \<open>
  C5. Several clients share one file system: when requests come one after the other from any clients, each with its own cache of
  extents and locks, every request is answered as by a single file system of byte arrays and association lists, up to the times in
  attributes. Locks move between the clients by the calls of the caching lock service, with a flush by the previous holder; no thread
  waits for ever, none uses an extent without its lock, and in the end all clients see the same files and directories.
\<close>

theorem shared_refines:
  assumes "lib_ok L" and "run_ok L (map snd cs) fs_empty"
  shows "\<exists>rps sh. sh_run L cs (shared_init now) = Some (rps, sh) \<and> \<not> sh_fault sh \<and>
    map timeless rps = fst (fs_run L (map snd cs) fs_empty) \<and>
    (\<forall>c. represents (snd (fs_run L (map snd cs) fs_empty)) (sh_view c sh))"
proof -
  from shared_run [OF assms shared_rel_init, of now] obtain rps sh where
    "sh_run L cs (shared_init now) = Some (rps, sh)" "map timeless rps = fst (fs_run L (map snd cs) fs_empty)"
    "shared_rel (snd (fs_run L (map snd cs) fs_empty)) sh" by blast
  then show ?thesis by (auto simp: shared_rel_def fs_rel_def)
qed

theorem shared_refines_witness:
  "\<exists>rps sh. sh_run demo_lib (zip [''a'', ''b'', ''b'', ''a'', ''c'', ''a''] demo_calls) (shared_init 3) = Some (rps, sh) \<and> \<not> sh_fault sh \<and>
     map timeless rps = [reply_entry (node_entry 5 (DirNode [])), reply_create (node_entry 0x80000007 (FileNode '''')),
       reply_write 2, reply_err EEXIST, reply_buf [nul, CHR ''x'', CHR ''y''], reply_err ENOSYS] \<and>
     sh_view ''d'' sh 5 = Some (dir_text [(''f'', 0x80000007)])"
proof -
  let ?cs = "zip [''a'', ''b'', ''b'', ''a'', ''c'', ''a''] demo_calls"
  have m: "map snd ?cs = demo_calls" by (simp add: demo_calls_def)
  have f: "fst (fs_run demo_lib demo_calls fs_empty) =
      [reply_entry (node_entry 5 (DirNode [])), reply_create (node_entry 0x80000007 (FileNode '''')),
       reply_write 2, reply_err EEXIST, reply_buf [nul, CHR ''x'', CHR ''y''], reply_err ENOSYS]"
    by (simp add: demo_lib_def demo_calls_def demo_simps Let_def)
  have ok: "run_ok demo_lib (map snd ?cs) fs_empty" unfolding m by (rule demo_ok(2))
  obtain rps sh where s: "sh_run demo_lib ?cs (shared_init 3) = Some (rps, sh)" "\<not> sh_fault sh"
      "map timeless rps = fst (fs_run demo_lib demo_calls fs_empty)"
      "\<And>c. represents (snd (fs_run demo_lib demo_calls fs_empty)) (sh_view c sh)"
    using shared_refines [OF demo_ok(1) ok, of 3] unfolding m by blast
  have "sh_view ''d'' sh 5 = Some (dir_text [(''f'', 0x80000007)])" using s(4) [of "''d''"] by (simp add: represents_def demo_fs)
  with s(1-3) f show ?thesis by metis
qed

end
