(* ===== verification/Lock_Tester.thy ===== *)
theory Lock_Tester
  imports Lock_Cache
begin

text \<open>
  The tester of the lock service (\<^verbatim>\<open>lock_tester.cc\<close>): its threads as programs of calls to the caching lock client and to the two
  checks, run over the interleaved lock service of \<open>Lock_Cache\<close>, with one instance of the service per lock. The client ids of the
  \<open>lock_client_cache\<close> objects \<open>lc[n]\<close> are an argument. Messages, \<open>sleep\<close> and the alarm are left out.
\<close>

section \<open>The checks\<close>

definition nt :: nat where "nt = 6"
definition lock_a :: lockid_t where "lock_a = 1"
definition lock_b :: lockid_t where "lock_b = 2"

type_synonym counts = "u64 \<Rightarrow> i32"

definition check_grant :: "lockid_t \<Rightarrow> counts \<Rightarrow> fault + counts" where
  "check_grant lid ct = (let x = and lid 0xff in if ct x \<noteq> 0 then Inl (Exited 1) else Inr (ct(x := ct x + 1)))"

definition check_release :: "lockid_t \<Rightarrow> counts \<Rightarrow> fault + counts" where
  "check_release lid ct = (let x = and lid 0xff in if ct x \<noteq> 1 then Inl (Exited 1) else Inr (ct(x := ct x - 1)))"

section \<open>The tests\<close>

text \<open>Actions of a thread; \<open>Acquire n lid\<close> is \<open>lc[n]->acquire(lid)\<close>.\<close>

datatype tact = Acquire nat lockid_t | Release nat lockid_t | Check_grant lockid_t | Check_release lockid_t

definition test1 :: "tact list" where
  "test1 =
    [Acquire 0 lock_a, Check_grant lock_a, Release 0 lock_a, Check_release lock_a,
     Acquire 0 lock_a, Check_grant lock_a, Release 0 lock_a, Check_release lock_a,
     Acquire 0 lock_a, Check_grant lock_a,
     Acquire 0 lock_b, Check_grant lock_b,
     Release 0 lock_b, Check_release lock_b,
     Release 0 lock_a, Check_release lock_a]"

definition test2 :: "nat \<Rightarrow> tact list" where
  "test2 i = [Acquire i lock_a, Check_grant lock_a, Check_release lock_a, Release i lock_a]"

definition test3 :: "nat \<Rightarrow> tact list" where
  "test3 i = concat (replicate 10 [Acquire i lock_a, Check_grant lock_a, Check_release lock_a, Release i lock_a])"

definition test4 :: "nat \<Rightarrow> tact list" where
  "test4 i = concat (replicate 10 [Acquire 0 lock_a, Check_grant lock_a, Check_release lock_a, Release 0 lock_a])"

definition test5 :: "nat \<Rightarrow> tact list" where
  "test5 i = concat (replicate 10
     [if i < 5 then Acquire 0 lock_a else Acquire 1 lock_a, Check_grant lock_a, Check_release lock_a,
      if i < 5 then Release 0 lock_a else Release 1 lock_a])"

text \<open>The threads of a test, as \<open>main\<close> starts them; \<open>main\<close> itself, thread \<open>nt\<close>, runs the first test.\<close>

definition threads :: "nat \<Rightarrow> nat \<Rightarrow> tact list" where
  "threads k i =
     (if k = 1 \<and> i = nt then test1
      else if k = 2 \<and> i < nt then test2 i
      else if k = 3 \<and> i < nt then test3 i
      else if k = 4 \<and> i < 2 then test4 i
      else if k = 5 \<and> i < nt then test5 i
      else [])"

text \<open>The tests that \<open>main\<close> runs, in order; 0 stands for all of them.\<close>

definition tests :: "nat \<Rightarrow> nat list" where
  "tests test = [k \<leftarrow> [1, 2, 3, 4, 5]. test = 0 \<or> test = k]"

section \<open>Runs\<close>

text \<open>
  A thread in a call of the lock client has \<open>ts_busy\<close> and keeps the call at the head of its program until the call returns.
\<close>

record tester =
  ts_locks :: "lockid_t \<Rightarrow> lc_sys"
  ts_ct :: counts
  ts_prog :: "nat \<Rightarrow> tact list"
  ts_busy :: "nat \<Rightarrow> bool"
  ts_todo :: "nat list"
  ts_exit :: bool

definition tester_start :: "nat \<Rightarrow> tester \<Rightarrow> bool" where
  "tester_start test y \<longleftrightarrow>
     y = \<lparr>ts_locks = \<lambda>_. \<lparr>srv = None, cli = (\<lambda>_. None), pcs = (\<lambda>_ _. Idle)\<rparr>, ts_ct = \<lambda>_. 0, ts_prog = \<lambda>_. [],
          ts_busy = \<lambda>_. False, ts_todo = tests test, ts_exit = False\<rparr>"

text \<open>
  Steps inside the lock service: no thread calls \<open>acquire\<close> or \<open>release\<close>, and revoke handlers do not run on the threads of
  the tester.
\<close>

definition inside :: "lc_sys \<Rightarrow> lc_sys \<Rightarrow> bool" where
  "inside y y' \<longleftrightarrow> (\<forall>c t. (pcs y c t = Hold \<longrightarrow> pcs y' c t = Hold) \<and>
     (pcs y c t = Idle \<longrightarrow> pcs y' c t = Idle \<or> pcs y' c t = RelCall \<and> t > nt))"

definition checked :: "nat \<Rightarrow> tact list \<Rightarrow> fault + counts \<Rightarrow> tester \<Rightarrow> tester" where
  "checked i p r y =
     (case r of Inl e \<Rightarrow> y\<lparr>ts_exit := True\<rparr> | Inr ct \<Rightarrow> y\<lparr>ts_ct := ct, ts_prog := (ts_prog y)(i := p)\<rparr>)"

inductive tester_step :: "(nat \<Rightarrow> string) \<Rightarrow> tester \<Rightarrow> tester \<Rightarrow> bool" for cid :: "nat \<Rightarrow> string" where
  ts_next: "\<lbrakk>\<not> ts_exit y; \<forall>i. ts_prog y i = []; ts_todo y = k # ks\<rbrakk> \<Longrightarrow>
    tester_step cid y (y\<lparr>ts_prog := threads k, ts_todo := ks\<rparr>)"
| ts_inside: "\<lbrakk>\<not> ts_exit y; lc_step False l (ts_locks y l) z; inside (ts_locks y l) z\<rbrakk> \<Longrightarrow>
    tester_step cid y (y\<lparr>ts_locks := (ts_locks y)(l := z)\<rparr>)"
| ts_acquire: "\<lbrakk>\<not> ts_exit y; ts_prog y i = Acquire n l # p; \<not> ts_busy y i; pcs (ts_locks y l) (cid n) i = Idle;
      cl_acquire l i (cli (ts_locks y l) (cid n)) = (r, e)\<rbrakk> \<Longrightarrow>
    tester_step cid y (y\<lparr>ts_locks := (ts_locks y)(l := set_pc (cid n) i (after_acquire r) (set_cli (cid n) (Some e) (ts_locks y l))),
      ts_busy := (ts_busy y)(i := True)\<rparr>)"
| ts_acquired: "\<lbrakk>\<not> ts_exit y; ts_prog y i = Acquire n l # p; ts_busy y i; pcs (ts_locks y l) (cid n) i = Hold\<rbrakk> \<Longrightarrow>
    tester_step cid y (y\<lparr>ts_prog := (ts_prog y)(i := p), ts_busy := (ts_busy y)(i := False)\<rparr>)"
| ts_release: "\<lbrakk>\<not> ts_exit y; ts_prog y i = Release n l # p; \<not> ts_busy y i; pcs (ts_locks y l) (cid n) i = Hold;
      cl_release i (cli (ts_locks y l) (cid n)) = ((b, w), e)\<rbrakk> \<Longrightarrow>
    tester_step cid y (y\<lparr>ts_locks := (ts_locks y)(l := set_pc (cid n) i (if b then RelCall else Idle) (set_cli (cid n) (Some e) (ts_locks y l))),
      ts_busy := (ts_busy y)(i := True)\<rparr>)"
| ts_released: "\<lbrakk>\<not> ts_exit y; ts_prog y i = Release n l # p; ts_busy y i; pcs (ts_locks y l) (cid n) i = Idle\<rbrakk> \<Longrightarrow>
    tester_step cid y (y\<lparr>ts_prog := (ts_prog y)(i := p), ts_busy := (ts_busy y)(i := False)\<rparr>)"
| ts_check_grant: "\<lbrakk>\<not> ts_exit y; ts_prog y i = Check_grant l # p\<rbrakk> \<Longrightarrow>
    tester_step cid y (checked i p (check_grant l (ts_ct y)) y)"
| ts_check_release: "\<lbrakk>\<not> ts_exit y; ts_prog y i = Check_release l # p\<rbrakk> \<Longrightarrow>
    tester_step cid y (checked i p (check_release l (ts_ct y)) y)"

section \<open>What the programs do\<close>

text \<open>The lock is counted in \<open>ct\<close> when the next check of the program is its release.\<close>

fun counted :: "lockid_t \<Rightarrow> tact list \<Rightarrow> bool" where
  "counted l (Check_release l' # p) = (l = l' \<or> counted l p)"
| "counted l (Check_grant l' # p) = (l \<noteq> l' \<and> counted l p)"
| "counted l (x # p) = counted l p"
| "counted l [] = False"

text \<open>The client through which the thread has the lock.\<close>

fun has :: "lockid_t \<Rightarrow> tact list \<Rightarrow> nat option" where
  "has l (Acquire n l' # p) = (if l = l' then None else has l p)"
| "has l (Release n l' # p) = (if l = l' then Some n else has l p)"
| "has l (x # p) = has l p"
| "has l [] = None"

text \<open>Calls and checks alternate.\<close>

fun paired :: "tact list \<Rightarrow> bool" where
  "paired (Acquire n l # p) = (l \<in> {lock_a, lock_b} \<and> has l p = Some n \<and> paired p)"
| "paired (Release n l # p) = (l \<in> {lock_a, lock_b} \<and> has l p = None \<and> paired p)"
| "paired (Check_grant l # p) = (l \<in> {lock_a, lock_b} \<and> counted l p \<and> paired p)"
| "paired (Check_release l # p) = (l \<in> {lock_a, lock_b} \<and> \<not> counted l p \<and> paired p)"
| "paired [] = True"

text \<open>Both checks are made with the lock.\<close>

fun guarded :: "tact list \<Rightarrow> bool" where
  "guarded (x # p) = (guarded p \<and>
     (\<forall>l \<in> {lock_a, lock_b}. counted l (x # p) \<or> x = Check_grant l \<longrightarrow> has l (x # p) \<noteq> None))"
| "guarded [] = True"

lemmas test_defs = test1_def test2_def test3_def test4_def test5_def

lemma threads_paired: "paired (threads k i)"
  by (simp add: threads_def test_defs numeral_eq_Suc lock_a_def lock_b_def)

lemma threads_guarded: "k \<noteq> 1 \<Longrightarrow> guarded (threads k i)"
  by (simp add: threads_def test_defs numeral_eq_Suc lock_a_def lock_b_def)

lemma threads_fresh: "has l (threads k i) = None" "\<not> counted l (threads k i)"
  by (auto simp: threads_def test_defs numeral_eq_Suc)

section \<open>Invariant\<close>

definition releasing :: "lockid_t \<Rightarrow> tact list \<Rightarrow> bool" where
  "releasing l p \<longleftrightarrow> (\<exists>n q. p = Release n l # q)"

text \<open>The thread is between the two checks of the lock, or about to make the first one.\<close>

definition active :: "lockid_t \<Rightarrow> tact list \<Rightarrow> bool" where
  "active l p \<longleftrightarrow> counted l p \<or> (\<exists>q. p = Check_grant l # q)"

definition progs_ok :: "(nat \<Rightarrow> tact list) \<Rightarrow> bool" where
  "progs_ok P \<longleftrightarrow> (\<forall>i. paired (P i)) \<and> ((\<exists>i. \<forall>j. j \<noteq> i \<longrightarrow> P j = []) \<or> (\<forall>i. guarded (P i)))"

definition ct_ok :: "counts \<Rightarrow> (nat \<Rightarrow> tact list) \<Rightarrow> bool" where
  "ct_ok ct P \<longleftrightarrow> (\<forall>l \<in> {lock_a, lock_b}. ct (and l 0xff) = (if \<exists>i. counted l (P i) then 1 else 0))"

definition holds_ok :: "(nat \<Rightarrow> string) \<Rightarrow> tester \<Rightarrow> bool" where
  "holds_ok cid y \<longleftrightarrow> (\<forall>i l n. has l (ts_prog y i) = Some n \<longrightarrow>
     ts_busy y i \<and> releasing l (ts_prog y i) \<or> pcs (ts_locks y l) (cid n) i = Hold)"

definition tester_inv :: "(nat \<Rightarrow> string) \<Rightarrow> tester \<Rightarrow> bool" where
  "tester_inv cid y \<longleftrightarrow> \<not> ts_exit y \<and> (\<forall>l. reach lc_start (lc_step False l) (ts_locks y l)) \<and>
     progs_ok (ts_prog y) \<and> ct_ok (ts_ct y) (ts_prog y) \<and> holds_ok cid y"

lemma progs_ok_tl:
  assumes "progs_ok P" and "P i = x # p"
  shows "progs_ok (P(i := p))"
proof -
  have a: "paired p" using assms by (cases x) (auto simp: progs_ok_def dest: spec [of _ i])
  have "\<forall>i. guarded (P i) \<Longrightarrow> guarded p" using assms(2) by (metis guarded.simps(1))
  moreover have "j = i" if "\<forall>k. k \<noteq> j \<longrightarrow> P k = []" for j using that assms(2) by (metis list.distinct(1))
  ultimately show ?thesis using assms(1) a by (auto simp: progs_ok_def)
qed

lemma active_has:
  assumes "progs_ok P" and "active l (P i)" and "active l (P j)" and "i \<noteq> j"
  shows "has l (P i) \<noteq> None \<and> \<not> releasing l (P i)"
proof -
  have ne: "P i \<noteq> []" "P j \<noteq> []" using assms(2,3) by (auto simp: active_def)
  then have g: "guarded (P i)" using assms(1,4) unfolding progs_ok_def by metis
  have pr: "paired (P i)" using assms(1) by (simp add: progs_ok_def)
  have in_ab: "counted l q \<Longrightarrow> paired q \<Longrightarrow> l \<in> {lock_a, lock_b}" for q by (induction l q rule: counted.induct) auto
  obtain x p where p: "P i = x # p" using ne(1) by (cases "P i") auto
  have l: "l \<in> {lock_a, lock_b}" using assms(2) in_ab [OF _ pr] pr by (auto simp: active_def)
  have h: "has l (P i) \<noteq> None" using g l assms(2) by (auto simp: p active_def)
  moreover have False if r: "P i = Release n l # q" for n q
  proof -
    have c: "counted l q" and q: "guarded q" "has l q = None" using assms(2) g pr by (auto simp: r active_def)
    from c obtain z zs where "q = z # zs" by (cases q) auto
    then show False using c q l by auto
  qed
  ultimately show ?thesis by (auto simp: releasing_def)
qed

lemma active_unique:
  assumes inv: "tester_inv cid y" and a: "active l (ts_prog y i)" "active l (ts_prog y j)"
  shows "i = j"
proof (rule ccontr)
  assume ij: "i \<noteq> j"
  have P: "progs_ok (ts_prog y)" and H: "holds_ok cid y" using inv by (simp_all add: tester_inv_def)
  obtain n m where "has l (ts_prog y i) = Some n" "has l (ts_prog y j) = Some m"
    using active_has [OF P a ij] active_has [OF P a(2,1)] ij by auto
  then have "pcs (ts_locks y l) (cid n) i = Hold" "pcs (ts_locks y l) (cid m) j = Hold"
    using H active_has [OF P a ij] active_has [OF P a(2,1)] ij unfolding holds_ok_def by blast+
  moreover have "reach lc_start (lc_step False l) (ts_locks y l)" using inv by (simp add: tester_inv_def)
  ultimately show False using hold_unique lock_cache.reach_inv ij by blast
qed

text \<open>Calls keep what the programs have and count; only the two checks change the counts.\<close>

lemma counted_call: "counted l (Acquire n k # p) = counted l p" "counted l (Release n k # p) = counted l p"
  by simp_all

lemma ct_ok_same:
  assumes "ct_ok ct P" and "P i = x # p" and "\<And>l. counted l (x # p) = counted l p"
  shows "ct_ok ct (P(i := p))"
proof -
  have "counted l ((P(i := p)) j) = counted l (P j)" for l j using assms(2,3) by (cases "j = i") auto
  then show ?thesis using assms(1) by (simp add: ct_ok_def)
qed

lemma ab_index: "l \<in> {lock_a, lock_b} \<Longrightarrow> k \<in> {lock_a, lock_b} \<Longrightarrow> l \<noteq> k \<Longrightarrow> and l 0xff \<noteq> (and k 0xff :: u64)"
  by (auto simp: lock_a_def lock_b_def)

lemma ct_ok_check:
  assumes "ct_ok ct P" and "P i = x # p" and "k \<in> {lock_a, lock_b}" and "\<And>l. l \<noteq> k \<Longrightarrow> counted l (x # p) = counted l p"
    and "\<And>j. j \<noteq> i \<Longrightarrow> \<not> counted k (P j)" and "v = (if counted k p then 1 else 0)"
  shows "ct_ok (ct(and k 0xff := v)) (P(i := p))"
  unfolding ct_ok_def
proof (intro ballI)
  fix l assume l: "l \<in> {lock_a, lock_b}"
  show "(ct(and k 0xff := v)) (and l 0xff) = (if \<exists>j. counted l ((P(i := p)) j) then 1 else 0)"
  proof (cases "l = k")
    case True
    have "(\<exists>j. counted k ((P(i := p)) j)) = counted k p" using assms(5) by (auto split: if_splits)
    then show ?thesis using True assms(6) by simp
  next
    case False
    have "counted l ((P(i := p)) j) = counted l (P j)" for j using assms(2) assms(4) [OF False] by (cases "j = i") auto
    moreover have "ct (and l 0xff) = (if \<exists>j. counted l (P j) then 1 else 0)" using assms(1) l unfolding ct_ok_def by (rule bspec)
    ultimately show ?thesis using ab_index [OF l assms(3) False] by simp
  qed
qed

lemma holds_ok_tl:
  assumes "holds_ok cid y" and "ts_prog y i = x # p" and "\<And>l n. has l p = Some n \<Longrightarrow>
      has l (x # p) = Some n \<and> \<not> releasing l (x # p) \<or> pcs (ts_locks y l) (cid n) i = Hold"
    and "\<And>j. j \<noteq> i \<Longrightarrow> B j = ts_busy y j"
  shows "holds_ok cid (y\<lparr>ts_prog := (ts_prog y)(i := p), ts_busy := B\<rparr>)"
  unfolding holds_ok_def
proof (intro allI impI)
  fix j l n assume "has l (ts_prog (y\<lparr>ts_prog := (ts_prog y)(i := p), ts_busy := B\<rparr>) j) = Some n"
  then show "ts_busy (y\<lparr>ts_prog := (ts_prog y)(i := p), ts_busy := B\<rparr>) j \<and> releasing l (ts_prog (y\<lparr>ts_prog := (ts_prog y)(i := p), ts_busy := B\<rparr>) j) \<or>
      pcs (ts_locks (y\<lparr>ts_prog := (ts_prog y)(i := p), ts_busy := B\<rparr>) l) (cid n) j = Hold"
    using assms(1) assms(3) [of l n] assms(2) assms(4) [of j] unfolding holds_ok_def by (cases "j = i") (simp, metis, simp)
qed

lemma holds_ok_lock:
  assumes "holds_ok cid y" and "\<And>c t. pcs (ts_locks y l) c t = Hold \<Longrightarrow> pcs z c t = Hold \<or> t = i \<and> B i \<and> releasing l (ts_prog y i)"
    and "\<And>j. B j = (ts_busy y j \<or> j = i \<and> b)"
  shows "holds_ok cid (y\<lparr>ts_locks := (ts_locks y)(l := z), ts_busy := B\<rparr>)"
  using assms unfolding holds_ok_def by (simp, metis)

lemma tester_invD:
  assumes "tester_inv cid y"
  shows "\<not> ts_exit y" and "reach lc_start (lc_step False l) (ts_locks y l)" and "progs_ok (ts_prog y)"
    and "ct_ok (ts_ct y) (ts_prog y)" and "holds_ok cid y" and "paired (ts_prog y i)"
  using assms by (simp_all add: tester_inv_def progs_ok_def)

lemma ts_inv_next:
  assumes inv: "tester_inv cid y" and e: "\<forall>i. ts_prog y i = []"
  shows "tester_inv cid (y\<lparr>ts_prog := threads k, ts_todo := ks\<rparr>)"
proof -
  note D = tester_invD [OF inv]
  have "progs_ok (threads k)"
  proof (cases "k = 1")
    case True
    then have "\<forall>j. j \<noteq> nt \<longrightarrow> threads k j = []" by (simp add: threads_def)
    then show ?thesis using threads_paired by (auto simp: progs_ok_def)
  qed (simp add: progs_ok_def threads_paired threads_guarded)
  moreover have "ct_ok (ts_ct y) (threads k)" using D(4) e by (simp add: ct_ok_def threads_fresh)
  ultimately show ?thesis using D(1,2) by (simp add: tester_inv_def holds_ok_def threads_fresh)
qed

lemma ts_inv_lock:
  assumes inv: "tester_inv cid y" and s: "lc_step False l (ts_locks y l) z"
    and h: "\<And>c t. pcs (ts_locks y l) c t = Hold \<Longrightarrow> pcs z c t = Hold \<or> t = i \<and> B i \<and> releasing l (ts_prog y i)"
    and B: "\<And>j. B j = (ts_busy y j \<or> j = i \<and> b)"
  shows "tester_inv cid (y\<lparr>ts_locks := (ts_locks y)(l := z), ts_busy := B\<rparr>)"
  using tester_invD(1-4) [OF inv] holds_ok_lock [OF tester_invD(5) [OF inv] h B] reach_step [OF tester_invD(2) [OF inv] s]
  by (simp add: tester_inv_def)

lemma ts_inv_return:
  assumes inv: "tester_inv cid y" and p: "ts_prog y i = x # p"
    and x: "x = Acquire n l \<and> pcs (ts_locks y l) (cid n) i = Hold \<or> x = Release n l"
  shows "tester_inv cid (y\<lparr>ts_prog := (ts_prog y)(i := p), ts_busy := (ts_busy y)(i := False)\<rparr>)"
proof -
  note D = tester_invD [OF inv]
  have pr: "paired (x # p)" using D(6) [of i] p by simp
  have h: "has k p = Some m \<Longrightarrow> has k (x # p) = Some m \<and> \<not> releasing k (x # p) \<or> pcs (ts_locks y k) (cid m) i = Hold" for k m
    using x pr by (cases "k = l") (auto simp: releasing_def)
  have "ct_ok (ts_ct y) ((ts_prog y)(i := p))" by (rule ct_ok_same [OF D(4) p]) (use x in auto)
  then show ?thesis using D(1,2) progs_ok_tl [OF D(3) p] holds_ok_tl [OF D(5) p h, of "(ts_busy y)(i := False)"]
    by (simp add: tester_inv_def)
qed

lemma ts_inv_checked:
  assumes inv: "tester_inv cid y" and p: "ts_prog y i = x # p" and x: "x = Check_grant k \<or> x = Check_release k"
    and r: "r = (if x = Check_grant k then check_grant k (ts_ct y) else check_release k (ts_ct y))"
  shows "tester_inv cid (checked i p r y)"
proof -
  note D = tester_invD [OF inv]
  have pr: "paired (x # p)" using D(6) [of i] p by simp
  have k: "k \<in> {lock_a, lock_b}" using pr x by auto
  have act: "active k (ts_prog y i)" using x p by (auto simp: active_def)
  have others: "\<not> counted k (ts_prog y j)" if "j \<noteq> i" for j
    using active_unique [OF inv act, of j] that by (auto simp: active_def)
  have "(\<exists>j. counted k (ts_prog y j)) = counted k (x # p)" using others p by metis
  then have ct: "ts_ct y (and k 0xff) = (if counted k (x # p) then 1 else 0)" using D(4) k unfolding ct_ok_def by (metis (no_types))
  have h: "has l p = Some m \<Longrightarrow> has l (x # p) = Some m \<and> \<not> releasing l (x # p) \<or> pcs (ts_locks y l) (cid m) i = Hold" for l m
    using x by (auto simp: releasing_def)
  have r': "r = Inr ((ts_ct y)(and k 0xff := (if counted k p then 1 else 0)))"
    using ct pr x r by (auto simp: check_grant_def check_release_def)
  have "ct_ok ((ts_ct y)(and k 0xff := (if counted k p then 1 else 0))) ((ts_prog y)(i := p))"
    by (rule ct_ok_check [OF D(4) p k _ others refl]) (use x in auto)
  then show ?thesis using D(1,2) progs_ok_tl [OF D(3) p] holds_ok_tl [OF D(5) p h, of "ts_busy y"]
    by (simp add: tester_inv_def checked_def r' holds_ok_def)
qed

lemma tester_inv_step:
  assumes inv: "tester_inv cid y" and s: "tester_step cid y y'"
  shows "tester_inv cid y'"
  using s
proof cases
  case (ts_next k ks)
  then show ?thesis using ts_inv_next [OF inv] by simp
next
  case (ts_inside l z)
  have "tester_inv cid (y\<lparr>ts_locks := (ts_locks y)(l := z), ts_busy := ts_busy y\<rparr>)"
    using ts_inside(4) by (intro ts_inv_lock [OF inv ts_inside(3), where b = False]) (auto simp: inside_def)
  then show ?thesis using ts_inside(1) by simp
next
  case (ts_acquire i n l p r e)
  show ?thesis unfolding ts_acquire(1)
    using ts_acquire(5)
    by (intro ts_inv_lock [OF inv lc_acquire [OF ts_acquire(5,6)], where i = i and b = True]) (auto simp: set_pc_def set_cli_def)
next
  case (ts_acquired i n l p)
  show ?thesis unfolding ts_acquired(1) by (rule ts_inv_return [OF inv ts_acquired(3)]) (use ts_acquired(5) in blast)
next
  case (ts_release i n l p b w e)
  show ?thesis unfolding ts_release(1)
    using ts_release(3)
    by (intro ts_inv_lock [OF inv lc_release [OF ts_release(5,6)], where i = i and b = True]) (auto simp: set_pc_def set_cli_def releasing_def)
next
  case (ts_released i n l p)
  show ?thesis unfolding ts_released(1) by (rule ts_inv_return [OF inv ts_released(3)]) blast
next
  case (ts_check_grant i l p)
  show ?thesis unfolding ts_check_grant(1) by (rule ts_inv_checked [OF inv ts_check_grant(3)]) auto
next
  case (ts_check_release i l p)
  show ?thesis unfolding ts_check_release(1) by (rule ts_inv_checked [OF inv ts_check_release(3)]) auto
qed

interpretation lock_test: step_invariant "tester_start test" "tester_step cid" "tester_inv cid" for test cid
proof unfold_locales
  show "tester_start test y \<Longrightarrow> tester_inv cid y" for y
    by (simp add: tester_start_def tester_inv_def progs_ok_def ct_ok_def holds_ok_def lc_start_reach)
qed (rule tester_inv_step)


lemma reach_inside:
  assumes "reach init (tester_step cid) (y\<lparr>ts_locks := L(l := z), ts_busy := B\<rparr>)" and "\<not> ts_exit y"
    and "lc_step False l z z'" and "inside z z'"
  shows "reach init (tester_step cid) (y\<lparr>ts_locks := L(l := z'), ts_busy := B\<rparr>)"
  by (rule reach_step_eq [OF assms(1) ts_inside [where l = l and z = z']]) (simp_all add: assms)

text \<open>The first thread that asks for a lock nobody has asked for gets it.\<close>

lemma tester_first_acquire:
  assumes r: "reach init (tester_step cid) y" and y: "\<not> ts_exit y" "ts_prog y i = Acquire n l # p" "\<not> ts_busy y i"
    and l: "ts_locks y l = \<lparr>srv = None, cli = (\<lambda>_. None), pcs = (\<lambda>_ _. Idle)\<rparr>"
  shows "\<exists>y'. reach init (tester_step cid) y' \<and> \<not> ts_exit y' \<and> ts_prog y' = (ts_prog y)(i := p) \<and> ts_ct y' = ts_ct y"
proof -
  let ?c = "cid n"
  let ?e = "cl_createLock l i None"
  let ?s = "srv_createLock l ?c None"
  let ?z1 = "set_pc ?c i (Call False) (set_cli ?c (Some ?e) (ts_locks y l))"
  let ?z2 = "set_pc ?c i (Reply False OK) (?z1\<lparr>srv := Some ?s\<rparr>)"
  let ?z3 = "set_pc ?c i Hold (set_cli ?c (Some (cl_updateLockState i cLOCKED (cli ?z2 ?c))) ?z2)"
  let ?y = "\<lambda>z b. y\<lparr>ts_locks := (ts_locks y)(l := z), ts_busy := (ts_busy y)(i := b)\<rparr>"
  have 1: "reach init (tester_step cid) (?y ?z1 True)"
    by (rule reach_step_eq [OF r ts_acquire [OF y, where r = AcquireRemote and e = ?e]]) (simp_all add: l cl_acquire_def)
  have "lc_step False l ?z1 ?z2"
    using lc_srv_acquire [of ?z1 ?c i False l "AcqReturn OK" ?s] by (simp add: l srv_acquire_def set_pc_def set_cli_def)
  moreover have "inside ?z1 ?z2" by (simp add: inside_def set_pc_def set_cli_def)
  ultimately have 2: "reach init (tester_step cid) (?y ?z2 True)" by (rule reach_inside [OF 1 y(1)])
  have "lc_step False l ?z2 ?z3"
  proof -
    have a: "pcs ?z2 ?c i = Reply False OK" by (simp add: set_pc_def)
    have b: "first_reply i OK (cli ?z2 ?c) = (Return, Some (cl_updateLockState i cLOCKED (cli ?z2 ?c)))"
      unfolding first_reply_def by simp
    show ?thesis using lc_first_reply [OF a b] unfolding after_maybe.simps .
  qed
  moreover have "inside ?z2 ?z3" by (simp add: inside_def set_pc_def set_cli_def)
  ultimately have 3: "reach init (tester_step cid) (?y ?z3 True)" by (rule reach_inside [OF 2 y(1)])
  have "reach init (tester_step cid) ((?y ?z3 True)\<lparr>ts_prog := (ts_prog y)(i := p), ts_busy := (ts_busy y)(i := False)\<rparr>)"
    by (rule reach_step_eq [OF 3 ts_acquired [where i = i and n = n and l = l and p = p]]) (simp_all add: y set_pc_def)
  moreover have "\<not> ts_exit (?y ?z3 True)" "ts_ct (?y ?z3 True) = ts_ct y" using y(1) by simp_all
  ultimately show ?thesis
    by (intro exI [of _ "(?y ?z3 True)\<lparr>ts_prog := (ts_prog y)(i := p), ts_busy := (ts_busy y)(i := False)\<rparr>"]) simp
qed


end
