(* ===== verification/Paxos_Log.thy ===== *)
theory Paxos_Log
  imports Text_Streams
begin

text \<open>
  Proposal numbers, the state of an acceptor and its durable log: \<^verbatim>\<open>paxos_protocol.h\<close> (\<open>prop_t\<close>),
  \<^verbatim>\<open>paxos.h\<close> (the fields of \<open>acceptor\<close>) and \<^verbatim>\<open>log.cc\<close>. The log is the text of its file, which
  every logging operation extends by one line; \<open>logread\<close> reads it back through an input
  stream with a failure flag. \<open>log_rec\<close> is the abstract log: the lemmas show that \<open>logread\<close>
  replays the records that the logging operations wrote.
\<close>

section \<open>Proposal numbers\<close>

datatype prop_t = Prop (pn: u32) (pm: string)

definition prop_gt :: "prop_t \<Rightarrow> prop_t \<Rightarrow> bool" where
  "prop_gt a b \<longleftrightarrow> pn a > pn b \<or> (pn a = pn b \<and> pm a > pm b)"

definition prop_ge :: "prop_t \<Rightarrow> prop_t \<Rightarrow> bool" where
  "prop_ge a b \<longleftrightarrow> pn a > pn b \<or> (pn a = pn b \<and> pm a \<ge> pm b)"

text \<open>The two operators are those of a linear order.\<close>

instantiation prop_t :: linorder
begin

definition less_eq_prop_t :: "prop_t \<Rightarrow> prop_t \<Rightarrow> bool" where
  "less_eq_prop_t a b \<longleftrightarrow> prop_ge b a"

definition less_prop_t :: "prop_t \<Rightarrow> prop_t \<Rightarrow> bool" where
  "less_prop_t a b \<longleftrightarrow> prop_gt b a"

instance
  by standard (auto simp: less_eq_prop_t_def less_prop_t_def prop_gt_def prop_ge_def prop_t.expand)

end

lemma prop_gt_less [simp]: "prop_gt a b \<longleftrightarrow> b < a"
  by (simp add: less_prop_t_def)

lemma prop_ge_le [simp]: "prop_ge a b \<longleftrightarrow> b \<le> a"
  by (simp add: less_eq_prop_t_def)

lemma prop_zero_less: "pn a = 0 \<Longrightarrow> 0 < pn b \<Longrightarrow> a < b"
  by (simp add: less_prop_t_def prop_gt_def del: prop_gt_less)

section \<open>State of an acceptor\<close>

text \<open>\<open>ac_log\<close> is the content of the log file \<^verbatim>\<open>paxos-<me>.log\<close>.\<close>

record acceptor =
  ac_me :: string
  n_h :: prop_t
  n_a :: prop_t
  v_a :: string
  instance_h :: u32
  vals :: "u32 \<rightharpoonup> string"
  ac_log :: string

section \<open>Writing\<close>

definition loginstance :: "u32 \<Rightarrow> string \<Rightarrow> acceptor \<Rightarrow> acceptor" where
  "loginstance i v a =
     a\<lparr>ac_log := ac_log a @ ''done'' @ '' '' @ print_nat (unat i) @ '' '' @ v @ [newline]\<rparr>"

definition logprop :: "prop_t \<Rightarrow> acceptor \<Rightarrow> acceptor" where
  "logprop n a =
     a\<lparr>ac_log := ac_log a @ ''propseen'' @ '' '' @ print_nat (unat (pn n)) @ '' '' @ pm n @ [newline]\<rparr>"

definition logaccept :: "prop_t \<Rightarrow> string \<Rightarrow> acceptor \<Rightarrow> acceptor" where
  "logaccept n v a =
     a\<lparr>ac_log := ac_log a @ ''accepted'' @ '' '' @ print_nat (unat (pn n)) @ '' '' @ pm n @ '' '' @ v @ [newline]\<rparr>"

section \<open>Reading\<close>

text \<open>
  An input stream that has failed stays failed; a failed extraction leaves the variable
  alone, except that a missing or too large number is stored as \<open>0\<close> or the largest value.
\<close>

record istream =
  st_good :: bool
  st_rest :: string

definition st_word :: "string \<Rightarrow> istream \<Rightarrow> string \<times> istream" where
  "st_word old st =
     (if \<not> st_good st then (old, st)
      else case extract_word (st_rest st) of
        None \<Rightarrow> (old, \<lparr>st_good = False, st_rest = []\<rparr>)
      | Some (w, rest) \<Rightarrow> (w, \<lparr>st_good = True, st_rest = rest\<rparr>))"

definition st_u32 :: "u32 \<Rightarrow> istream \<Rightarrow> u32 \<times> istream" where
  "st_u32 old st =
     (if \<not> st_good st then (old, st)
      else case extract_unsigned (2 ^ 32 - 1) (st_rest st) of
        (v, good, rest) \<Rightarrow> ((case v of None \<Rightarrow> old | Some x \<Rightarrow> of_nat x), \<lparr>st_good = good, st_rest = rest\<rparr>))"

definition st_get :: "istream \<Rightarrow> istream" where
  "st_get st = (if st_good st \<and> st_rest st \<noteq> [] then st\<lparr>st_rest := get_char (st_rest st)\<rparr>
                else st\<lparr>st_good := False\<rparr>)"

definition st_getline :: "string \<Rightarrow> istream \<Rightarrow> string \<times> istream" where
  "st_getline old st =
     (if \<not> st_good st then (old, st)
      else case getline (st_rest st) of
        None \<Rightarrow> ([], \<lparr>st_good = False, st_rest = []\<rparr>)
      | Some (v, rest) \<Rightarrow> (v, \<lparr>st_good = True, st_rest = rest\<rparr>))"

text \<open>
  One round of the loop: \<open>None\<close> when no further word can be read. \<open>i\<close> is the local
  variable \<open>instance\<close>.
\<close>

definition logread_record :: "u32 \<Rightarrow> istream \<Rightarrow> acceptor \<Rightarrow> (fault + (u32 \<times> istream \<times> acceptor)) option" where
  "logread_record i st a =
     (let (ty, st) = st_word [] st in
      if \<not> st_good st then None
      else if ty = ''done'' then
        let (i, st) = st_u32 i st; st = st_get st; (v, st) = st_getline [] st
        in Some (Inr (i, st, a\<lparr>vals := (vals a)(i \<mapsto> v), instance_h := i, v_a := [],
                             n_h := Prop 0 (pm (n_h a)), n_a := Prop 0 (pm (n_a a))\<rparr>))
      else if ty = ''propseen'' then
        let (n, st) = st_u32 (pn (n_h a)) st; (m, st) = st_word (pm (n_h a)) st
        in Some (Inr (i, st, a\<lparr>n_h := Prop n m\<rparr>))
      else if ty = ''accepted'' then
        let (n, st) = st_u32 (pn (n_a a)) st; (m, st) = st_word (pm (n_a a)) st;
            st = st_get st; (v, st) = st_getline [] st
        in Some (Inr (i, st, a\<lparr>n_a := Prop n m, v_a := v\<rparr>))
      else Some (Inl VerifyFailed))"

lemma dropWhile_length: "length (dropWhile P xs) \<le> length xs"
  by (rule length_dropWhile_le)

lemma scan_digits_length: "length (snd (scan_digits acc s)) \<le> length s"
  by (induction acc s rule: scan_digits.induct) auto

lemma st_u32_length: "length (st_rest (snd (st_u32 old st))) \<le> length (st_rest st)"
proof -
  have "length (snd (snd (extract_unsigned mx s))) \<le> length s" for mx s
  proof -
    have "length (skipws s) \<le> length s" by (simp add: skipws_def length_dropWhile_le)
    then show ?thesis
      using scan_digits_length [of 0 "tl (skipws s)"] scan_digits_length [of 0 "skipws s"]
      by (auto simp: extract_unsigned_def Let_def split: prod.splits)
  qed
  then show ?thesis by (simp add: st_u32_def split: prod.splits) (metis snd_conv)
qed

lemma st_word_length: "length (st_rest (snd (st_word old st))) \<le> length (st_rest st)"
  by (auto simp: st_word_def split: option.splits dest: extract_word_shorter less_imp_le_nat)

lemma st_word_shorter:
  "st_good (snd (st_word old st)) \<Longrightarrow> length (st_rest (snd (st_word old st))) < length (st_rest st)"
  by (auto simp: st_word_def split: option.splits if_splits dest: extract_word_shorter)

lemma st_get_length: "length (st_rest (st_get st)) \<le> length (st_rest st)"
  by (simp add: st_get_def get_char_def)

lemma st_getline_length: "length (st_rest (snd (st_getline old st))) \<le> length (st_rest st)"
  using length_dropWhile_le [of "\<lambda>c. c \<noteq> newline" "st_rest st"]
  by (auto simp: st_getline_def getline_def split: option.splits)

lemma logread_record_shorter:
  assumes "logread_record i st a = Some (Inr (i', st', a'))"
  shows "length (st_rest st') < length (st_rest st)"
proof -
  let ?w = "st_word [] st"
  from assms have g: "st_good (snd ?w)" by (auto simp: logread_record_def Let_def split: prod.splits if_splits)
  note w = st_word_shorter [OF g]
  have 1: "length (st_rest (snd (st_getline [] (st_get (snd (st_u32 x (snd ?w))))))) \<le> length (st_rest (snd ?w))" for x
    by (rule order.trans [OF st_getline_length order.trans [OF st_get_length st_u32_length]])
  have 2: "length (st_rest (snd (st_word m (snd (st_u32 x (snd ?w)))))) \<le> length (st_rest (snd ?w))" for x m
    by (rule order.trans [OF st_word_length st_u32_length])
  have 3: "length (st_rest (snd (st_getline [] (st_get (snd (st_word m (snd (st_u32 x (snd ?w)))))))))
      \<le> length (st_rest (snd ?w))" for x m
    by (rule order.trans [OF st_getline_length order.trans [OF st_get_length order.trans [OF st_word_length st_u32_length]]])
  from assms have "length (st_rest st') \<le> length (st_rest (snd ?w))"
    using 1 2 3 by (auto simp: logread_record_def Let_def case_prod_unfold split: if_splits)
  with w show ?thesis by simp
qed

function logread_loop :: "u32 \<Rightarrow> istream \<Rightarrow> acceptor \<Rightarrow> fault + acceptor" where
  "logread_loop i st a =
     (case logread_record i st a of
        None \<Rightarrow> Inr a
      | Some (Inl e) \<Rightarrow> Inl e
      | Some (Inr (i, st, a)) \<Rightarrow> logread_loop i st a)"
  by pat_completeness auto
termination
  by (relation "measure (\<lambda>(i, st, a). length (st_rest st))") (auto dest: logread_record_shorter)

declare logread_loop.simps [simp del]

text \<open>\<open>i0\<close> is the content of the uninitialised variable \<open>instance\<close>.\<close>

definition logread :: "u32 \<Rightarrow> acceptor \<Rightarrow> fault + acceptor" where
  "logread i0 a = logread_loop i0 \<lparr>st_good = True, st_rest = ac_log a\<rparr> a"

section \<open>Transfer\<close>

function dump_lines :: "string \<Rightarrow> string \<Rightarrow> string" where
  "dump_lines s res = (case getline s of None \<Rightarrow> res | Some (v, rest) \<Rightarrow> dump_lines rest (res @ v @ [newline]))"
  by pat_completeness auto
termination
proof (relation "measure (\<lambda>(s, res). length s)", goal_cases)
  case (2 s res p v rest)
  then show ?case
    using length_dropWhile_le [of "\<lambda>c. c \<noteq> newline" s] by (cases s) (auto simp: getline_def split: if_splits)
qed simp

declare dump_lines.simps [simp del]

definition log_dump :: "acceptor \<Rightarrow> string" where
  "log_dump a = dump_lines (ac_log a) []"

definition log_restore :: "string \<Rightarrow> acceptor \<Rightarrow> acceptor" where
  "log_restore s a = a\<lparr>ac_log := s\<rparr>"

section \<open>The abstract log\<close>

datatype log_rec = Done u32 string | Propseen prop_t | Accepted prop_t string

fun rec_text :: "log_rec \<Rightarrow> string" where
  "rec_text (Done i v) = ''done'' @ '' '' @ print_nat (unat i) @ '' '' @ v @ [newline]"
| "rec_text (Propseen n) = ''propseen'' @ '' '' @ print_nat (unat (pn n)) @ '' '' @ pm n @ [newline]"
| "rec_text (Accepted n v) =
     ''accepted'' @ '' '' @ print_nat (unat (pn n)) @ '' '' @ pm n @ '' '' @ v @ [newline]"

fun replay :: "log_rec \<Rightarrow> acceptor \<Rightarrow> acceptor" where
  "replay (Done i v) a = a\<lparr>vals := (vals a)(i \<mapsto> v), instance_h := i, v_a := [],
     n_h := Prop 0 (pm (n_h a)), n_a := Prop 0 (pm (n_a a))\<rparr>"
| "replay (Propseen n) a = a\<lparr>n_h := n\<rparr>"
| "replay (Accepted n v) a = a\<lparr>n_a := n, v_a := v\<rparr>"

text \<open>What a line can hold: no newline in values, no white space in names.\<close>

fun rec_ok :: "log_rec \<Rightarrow> bool" where
  "rec_ok (Done i v) \<longleftrightarrow> newline \<notin> set v"
| "rec_ok (Propseen n) \<longleftrightarrow> is_word (pm n)"
| "rec_ok (Accepted n v) \<longleftrightarrow> is_word (pm n) \<and> newline \<notin> set v"

lemma st_word_literal:
  assumes "is_word w"
  shows "st_word old \<lparr>st_good = True, st_rest = w @ CHR '' '' # rest\<rparr> =
           (w, \<lparr>st_good = True, st_rest = CHR '' '' # rest\<rparr>)"
    and "st_word old \<lparr>st_good = True, st_rest = CHR '' '' # w @ CHR '' '' # rest\<rparr> =
           (w, \<lparr>st_good = True, st_rest = CHR '' '' # rest\<rparr>)"
    and "st_word old \<lparr>st_good = True, st_rest = CHR '' '' # w @ newline # rest\<rparr> =
           (w, \<lparr>st_good = True, st_rest = newline # rest\<rparr>)"
  using extract_word_append [OF assms, of "CHR '' '' # rest"] extract_word_append [OF assms, of "newline # rest"]
  by (simp_all add: st_word_def)

lemma st_u32_print:
  "st_u32 old \<lparr>st_good = True, st_rest = CHR '' '' # print_nat (unat n) @ CHR '' '' # rest\<rparr> =
     (n, \<lparr>st_good = True, st_rest = CHR '' '' # rest\<rparr>)"
proof -
  have "unat n < 2 ^ 32" using unsigned_less [of n, where ?'a = nat] by simp
  then have "extract_unsigned (2 ^ 32 - 1) (print_nat (unat n) @ CHR '' '' # rest) = (Some (unat n), True, CHR '' '' # rest)"
    by (intro extract_print_nat) (auto simp: isdigit_def)
  then show ?thesis by (simp add: st_u32_def)
qed

lemma st_getline_value:
  "newline \<notin> set v \<Longrightarrow>
   st_getline old (st_get \<lparr>st_good = True, st_rest = CHR '' '' # v @ newline # rest\<rparr>) =
     (v, \<lparr>st_good = True, st_rest = rest\<rparr>)"
  by (simp add: st_getline_def st_get_def get_char_def getline_append)

lemma is_word_types: "is_word ''done''" "is_word ''propseen''" "is_word ''accepted''"
  by (simp_all add: is_word_def isspace_def)

lemma logread_record_done:
  assumes "newline \<notin> set v"
  shows "logread_record i \<lparr>st_good = True, st_rest = rec_text (Done j v) @ rest\<rparr> a =
     Some (Inr (j, \<lparr>st_good = True, st_rest = rest\<rparr>, replay (Done j v) a))"
  using st_word_literal(1) [OF is_word_types(1), of "[]" "print_nat (unat j) @ CHR '' '' # v @ newline # rest"]
    st_getline_value [OF assms, of "[]" rest]
  by (simp add: logread_record_def st_u32_print)

lemma logread_record_propseen:
  assumes "is_word (pm n)"
  shows "logread_record i \<lparr>st_good = True, st_rest = rec_text (Propseen n) @ rest\<rparr> a =
     Some (Inr (i, \<lparr>st_good = True, st_rest = newline # rest\<rparr>, replay (Propseen n) a))"
  using st_word_literal(1) [OF is_word_types(2), of "[]" "print_nat (unat (pn n)) @ CHR '' '' # pm n @ newline # rest"]
    st_word_literal(3) [OF assms, of _ rest]
  by (simp add: logread_record_def st_u32_print)

lemma logread_record_accepted:
  assumes "is_word (pm n)" "newline \<notin> set v"
  shows "logread_record i \<lparr>st_good = True, st_rest = rec_text (Accepted n v) @ rest\<rparr> a =
     Some (Inr (i, \<lparr>st_good = True, st_rest = rest\<rparr>, replay (Accepted n v) a))"
  using st_word_literal(1) [OF is_word_types(3), of "[]" "print_nat (unat (pn n)) @ CHR '' '' # pm n @ CHR '' '' # v @ newline # rest"]
    st_word_literal(2) [OF assms(1), of _ "v @ newline # rest"] st_getline_value [OF assms(2), of "[]" rest]
  by (simp add: logread_record_def st_u32_print)

lemma logread_newline:
  "logread_loop i \<lparr>st_good = True, st_rest = newline # s\<rparr> a = logread_loop i \<lparr>st_good = True, st_rest = s\<rparr> a"
proof -
  have "logread_record i \<lparr>st_good = True, st_rest = newline # s\<rparr> a = logread_record i \<lparr>st_good = True, st_rest = s\<rparr> a"
    by (simp add: logread_record_def st_word_def)
  then show ?thesis by (simp add: logread_loop.simps)
qed

lemma logread_replays:
  "list_all rec_ok rs \<Longrightarrow>
   logread_loop i \<lparr>st_good = True, st_rest = concat (map rec_text rs)\<rparr> a = Inr (fold replay rs a)"
proof (induction rs arbitrary: i a)
  case Nil
  show ?case
    by (simp add: logread_loop.simps logread_record_def st_word_def extract_word_def skipws_def)
next
  case (Cons r rs)
  let ?rest = "concat (map rec_text rs)"
  have IH: "logread_loop j \<lparr>st_good = True, st_rest = ?rest\<rparr> b = Inr (fold replay rs b)" for j b
    using Cons by simp
  show ?case
  proof (cases r)
    case (Done j v)
    with Cons.prems logread_record_done [of v i j ?rest a] IH show ?thesis
      by (simp add: logread_loop.simps [of i] del: rec_text.simps replay.simps)
  next
    case (Propseen n)
    with Cons.prems logread_record_propseen [of n i ?rest a] IH logread_newline show ?thesis
      by (simp add: logread_loop.simps [of i] del: rec_text.simps replay.simps)
  next
    case (Accepted n v)
    with Cons.prems logread_record_accepted [of n v i ?rest a] IH show ?thesis
      by (simp add: logread_loop.simps [of i] del: rec_text.simps replay.simps)
  qed
qed

lemma rec_text_line:
  assumes "rec_ok r"
  obtains l where "rec_text r = l @ [newline]" "newline \<notin> set l"
proof -
  have d: "newline \<notin> set (print_nat k)" for k
    using print_nat_digits isdigit_not_newline by blast
  have w: "newline \<notin> set m" if "is_word m" for m
    using that by (auto simp: is_word_def list_all_iff)
  show ?thesis
    using assms d w that [of "butlast (rec_text r)"]
    by (cases r) (auto simp: newline_def butlast_append)
qed

lemma dump_lines_records:
  "list_all rec_ok rs \<Longrightarrow> dump_lines (concat (map rec_text rs)) res = res @ concat (map rec_text rs)"
proof (induction rs arbitrary: res)
  case Nil
  show ?case by (simp add: dump_lines.simps getline_def)
next
  case (Cons r rs)
  then obtain l where l: "rec_text r = l @ [newline]" "newline \<notin> set l" using rec_text_line by auto
  from getline_append [OF l(2), of "concat (map rec_text rs)"] Cons l(1) show ?case
    by (simp add: dump_lines.simps [of "l @ newline # _"])
qed

definition log_records :: "log_rec list \<Rightarrow> acceptor \<Rightarrow> bool" where
  "log_records rs a \<longleftrightarrow> list_all rec_ok rs \<and> ac_log a = concat (map rec_text rs)"

lemma log_records_snoc:
  "log_records rs a \<Longrightarrow> newline \<notin> set v \<Longrightarrow> log_records (rs @ [Done i v]) (loginstance i v a)"
  "log_records rs a \<Longrightarrow> is_word (pm n) \<Longrightarrow> log_records (rs @ [Propseen n]) (logprop n a)"
  "log_records rs a \<Longrightarrow> is_word (pm n) \<Longrightarrow> newline \<notin> set v \<Longrightarrow> log_records (rs @ [Accepted n v]) (logaccept n v a)"
  by (simp_all add: log_records_def loginstance_def logprop_def logaccept_def)

lemma log_dump_records: "log_records rs a \<Longrightarrow> log_dump a = ac_log a"
  by (simp add: log_records_def log_dump_def dump_lines_records)

lemma logread_records:
  "log_records rs a \<Longrightarrow> ac_log b = ac_log a \<Longrightarrow> logread i0 b = Inr (fold replay rs b)"
  by (simp add: log_records_def logread_def logread_replays)

end
