(* ===== verification/Paxos.thy ===== *)
theory Paxos
  imports Paxos_Log
begin

text \<open>
  Proposer and acceptor of \<^verbatim>\<open>paxos.cc\<close>. A remote call of the proposer is modelled by its outcome:
  \<open>None\<close> when the node cannot be bound or the call does not answer \<open>OK\<close>. The body of \<open>run\<close>
  is split at its calls into \<open>run_begin\<close>, \<open>run_prepared\<close> and \<open>run_accepted\<close>. The upcall
  \<open>paxos_commit\<close> of \<open>commit_wo\<close> is part of its result.
\<close>

section \<open>Messages\<close>

record preparearg =
  pa_instance :: u32
  pa_n :: prop_t

record prepareres =
  pr_oldinstance :: bool
  pr_accept :: bool
  pr_n_a :: prop_t
  pr_v_a :: string

record acceptarg =
  aa_instance :: u32
  aa_n :: prop_t
  aa_v :: string

record decidearg =
  da_instance :: u32
  da_v :: string

datatype paxos_xxstatus = px_OK | px_ERR

fun paxos_status :: "paxos_xxstatus \<Rightarrow> int" where
  "paxos_status px_OK = 0"
| "paxos_status px_ERR = 1"

section \<open>Members\<close>

fun print_members :: "string list \<Rightarrow> string" where
  "print_members [] = []"
| "print_members (x # xs) = x @ (if xs \<noteq> [] then '','' else []) @ print_members xs"

fun isamember :: "string \<Rightarrow> string list \<Rightarrow> bool" where
  "isamember m [] = False"
| "isamember m (x # xs) = (if x = m then True else isamember m xs)"

definition majority :: "string list \<Rightarrow> string list \<Rightarrow> bool" where
  "majority l1 l2 \<longleftrightarrow> length (filter (\<lambda>m. isamember m l2) l1) \<ge> length l1 div 2 + 1"

lemma isamember_iff [simp]: "isamember m xs \<longleftrightarrow> m \<in> set xs"
  by (induction xs) auto

text \<open>Two majorities of the same members have a member in common.\<close>

lemma majority_intersect:
  assumes "distinct nodes" and "majority nodes q1" and "majority nodes q2"
  shows "\<exists>m\<in>set nodes. m \<in> set q1 \<and> m \<in> set q2"
proof (rule ccontr)
  assume none: "\<not> ?thesis"
  let ?s = "\<lambda>q. set (filter (\<lambda>m. isamember m q) nodes)"
  have len: "length (filter (\<lambda>m. isamember m q) nodes) = card (?s q)" for q
    using assms(1) by (metis distinct_card distinct_filter)
  have "?s q1 \<inter> ?s q2 = {}" using none by auto
  then have "card (?s q1) + card (?s q2) = card (?s q1 \<union> ?s q2)" by (simp add: card_Un_disjoint)
  also have "\<dots> \<le> card (set nodes)" by (rule card_mono) auto
  also have "\<dots> \<le> length nodes" by (rule card_length)
  finally show False using assms(2,3) len [of q1] len [of q2] by (simp add: majority_def)
qed

lemma majority_not_Nil: "majority nodes q \<Longrightarrow> set q \<inter> set nodes \<noteq> {}"
  by (cases "filter (\<lambda>m. m \<in> set q) nodes") (auto simp: majority_def filter_empty_conv dest: filter_eq_ConsD)

section \<open>Acceptor\<close>

definition acceptor_fresh :: "string \<Rightarrow> string \<Rightarrow> acceptor" where
  "acceptor_fresh me file = \<lparr>ac_me = me, n_h = Prop 0 me, n_a = Prop 0 me, v_a = [], instance_h = 0,
     vals = Map.empty, ac_log = file\<rparr>"

text \<open>\<open>file\<close> is the content of the log file when the process starts.\<close>

definition acceptor_init :: "u32 \<Rightarrow> bool \<Rightarrow> string \<Rightarrow> string \<Rightarrow> string \<Rightarrow> fault + acceptor" where
  "acceptor_init i0 first me val file =
     bind_f (logread i0 (acceptor_fresh me file)) (\<lambda>a.
       Inr (if instance_h a = 0 \<and> first
            then (loginstance 1 val (a\<lparr>vals := (vals a)(1 \<mapsto> val)\<rparr>))\<lparr>instance_h := 1\<rparr>
            else a))"

text \<open>\<open>value\<close> reads \<open>values[instance]\<close>, which creates a missing entry.\<close>

definition ac_value :: "u32 \<Rightarrow> acceptor \<Rightarrow> string \<times> acceptor" where
  "ac_value i a = (map_at [] (vals a) i, a\<lparr>vals := map_upd [] i (\<lambda>v. v) (vals a)\<rparr>)"

definition preparereq :: "preparearg \<Rightarrow> prepareres \<Rightarrow> acceptor \<Rightarrow> (int \<times> prepareres) \<times> acceptor" where
  "preparereq a r ac =
     (if pa_instance a \<le> instance_h ac then
        let (v, ac) = ac_value (pa_instance a) ac in
        ((paxos_status px_OK, r\<lparr>pr_accept := False, pr_oldinstance := True, pr_v_a := v\<rparr>), ac)
      else if prop_gt (pa_n a) (n_h ac) then
        let ac = (logprop (pa_n a) ac)\<lparr>n_h := pa_n a\<rparr> in
        ((paxos_status px_OK,
          r\<lparr>pr_accept := True, pr_oldinstance := False, pr_n_a := n_a ac, pr_v_a := v_a ac\<rparr>), ac)
      else ((paxos_status px_OK, r\<lparr>pr_accept := False, pr_oldinstance := False\<rparr>), ac))"

definition acceptreq :: "acceptarg \<Rightarrow> acceptor \<Rightarrow> (int \<times> bool) \<times> acceptor" where
  "acceptreq a ac =
     (if prop_ge (aa_n a) (n_h ac) then
        ((paxos_status px_OK, True), (logaccept (aa_n a) (aa_v a) ac)\<lparr>n_a := aa_n a, v_a := aa_v a\<rparr>)
      else ((paxos_status px_OK, False), ac))"

text \<open>The result has the arguments of the upcall, made when \<open>cfg\<close> is set.\<close>

definition commit_wo :: "bool \<Rightarrow> u32 \<Rightarrow> string \<Rightarrow> acceptor \<Rightarrow> acceptor \<times> (u32 \<times> string) option" where
  "commit_wo cfg i v ac =
     (if i > instance_h ac then
        let ac = loginstance i v (ac\<lparr>vals := (vals ac)(i \<mapsto> v)\<rparr>);
            ac = ac\<lparr>instance_h := i, n_h := Prop 0 (ac_me ac), n_a := Prop 0 (ac_me ac), v_a := []\<rparr>
        in (ac, if cfg then Some (i, v) else None)
      else (ac, None))"

definition ac_commit :: "bool \<Rightarrow> u32 \<Rightarrow> string \<Rightarrow> acceptor \<Rightarrow> acceptor \<times> (u32 \<times> string) option" where
  "ac_commit cfg i v ac = commit_wo cfg i v ac"

definition decidereq ::
  "bool \<Rightarrow> decidearg \<Rightarrow> acceptor \<Rightarrow> fault + (int \<times> acceptor \<times> (u32 \<times> string) option)" where
  "decidereq cfg a ac =
     (if da_instance a = instance_h ac + 1 then
        bind_f (VERIFY (v_a ac = da_v a)) (\<lambda>_.
          Inr (paxos_status px_OK, commit_wo cfg (da_instance a) (v_a ac) ac))
      else if da_instance a \<le> instance_h ac then Inr (paxos_status px_OK, ac, None)
      else Inl VerifyFailed)"

definition ac_dump :: "acceptor \<Rightarrow> string" where
  "ac_dump ac = log_dump ac"

definition ac_restore :: "u32 \<Rightarrow> string \<Rightarrow> acceptor \<Rightarrow> fault + acceptor" where
  "ac_restore i0 s ac = logread i0 (log_restore s ac)"

section \<open>Proposer\<close>

record proposer =
  pr_me :: string
  break1 :: bool
  break2 :: bool
  stable :: bool
  my_n :: prop_t

definition proposer_init :: "string \<Rightarrow> proposer" where
  "proposer_init me = \<lparr>pr_me = me, break1 = False, break2 = False, stable = True, my_n = Prop 0 me\<rparr>"

definition isrunning :: "proposer \<Rightarrow> bool" where
  "isrunning p \<longleftrightarrow> \<not> stable p"

text \<open>\<open>nh\<close> is the result of \<open>acc->get_n_h()\<close>.\<close>

definition setn :: "prop_t \<Rightarrow> proposer \<Rightarrow> proposer" where
  "setn nh p = p\<lparr>my_n := Prop (if pn nh + 1 > pn (my_n p) + 1 then pn nh + 1 else pn (my_n p) + 1) (pm (my_n p))\<rparr>"

definition breakpoint :: "int \<Rightarrow> proposer \<Rightarrow> proposer" where
  "breakpoint b p = (if b = 3 then p\<lparr>break1 := True\<rparr> else if b = 4 then p\<lparr>break2 := True\<rparr> else p)"

definition breakpoint1 :: "proposer \<Rightarrow> fault + unit" where
  "breakpoint1 p = (if break1 p then Inl (Exited 1) else Inr ())"

definition breakpoint2 :: "proposer \<Rightarrow> fault + unit" where
  "breakpoint2 p = (if break2 p then Inl (Exited 1) else Inr ())"

text \<open>Up to the call of \<open>prepare\<close>; \<open>None\<close> when a run is already in progress.\<close>

definition run_begin :: "prop_t \<Rightarrow> proposer \<Rightarrow> proposer option" where
  "run_begin nh p = (if \<not> stable p then None else Some (setn nh (p\<lparr>stable := False\<rparr>)))"

text \<open>
  The loop of \<open>prepare\<close> over the nodes with the outcome of each call. \<open>hi\<close> is \<open>highest\<close>, with
  \<open>None\<close> while \<open>inited\<close> is false. \<open>Inl v\<close>: an \<open>oldinstance\<close> reply with the value \<open>v\<close>, which is
  committed.
\<close>

fun prepare_loop ::
  "(string \<times> prepareres option) list \<Rightarrow> prop_t option \<Rightarrow> string list \<Rightarrow> string \<Rightarrow> string + (string list \<times> string)" where
  "prepare_loop [] hi accepts v = Inr (accepts, v)"
| "prepare_loop ((m, None) # calls) hi accepts v = prepare_loop calls hi accepts v"
| "prepare_loop ((m, Some r) # calls) hi accepts v =
     (if pr_oldinstance r then Inl (pr_v_a r)
      else if pr_accept r then
        if hi = None \<or> prop_gt (pr_n_a r) (the hi)
        then prepare_loop calls (Some (pr_n_a r)) (accepts @ [m]) (pr_v_a r)
        else prepare_loop calls hi (accepts @ [m]) v
      else prepare_loop calls hi accepts v)"

definition prepare :: "(string \<times> prepareres option) list \<Rightarrow> string + (string list \<times> string)" where
  "prepare calls = prepare_loop calls None [] []"

text \<open>The loop of \<open>accept\<close>: the nodes that answered \<open>true\<close>.\<close>

fun accept_loop :: "(string \<times> bool option) list \<Rightarrow> string list" where
  "accept_loop [] = []"
| "accept_loop ((m, r) # calls) = (if r = Some True then [m] else []) @ accept_loop calls"

text \<open>What follows a phase of \<open>run\<close>.\<close>

datatype run_next =
    CommitOld string             \<comment> \<open>\<open>acc->commit(instance, v)\<close>, then \<open>run\<close> returns false\<close>
  | GiveUp                       \<comment> \<open>\<open>run\<close> returns false\<close>
  | SendAccept "string list" string   \<comment> \<open>\<open>accept\<close> is called on these nodes with this value\<close>
  | SendDecide "string list" string   \<comment> \<open>\<open>decide\<close> is called, then \<open>run\<close> returns true\<close>

text \<open>From the return of \<open>prepare\<close> to the call of \<open>accept\<close>.\<close>

definition run_prepared ::
  "string list \<Rightarrow> string \<Rightarrow> string + (string list \<times> string) \<Rightarrow> proposer \<Rightarrow> fault + (run_next \<times> proposer)" where
  "run_prepared cur_nodes newv res p =
     (case res of
        Inl v \<Rightarrow> Inr (CommitOld v, p\<lparr>stable := True\<rparr>)
      | Inr (accepts, v) \<Rightarrow>
          if majority cur_nodes accepts then
            bind_f (breakpoint1 p) (\<lambda>_. Inr (SendAccept accepts (if length v = 0 then newv else v), p))
          else Inr (GiveUp, p\<lparr>stable := True\<rparr>))"

text \<open>From the return of \<open>accept\<close> to the end.\<close>

definition run_accepted ::
  "string list \<Rightarrow> string \<Rightarrow> string list \<Rightarrow> proposer \<Rightarrow> fault + (run_next \<times> proposer)" where
  "run_accepted cur_nodes v accepts p =
     (if majority cur_nodes accepts then
        bind_f (breakpoint2 p) (\<lambda>_. Inr (SendDecide accepts v, p\<lparr>stable := True\<rparr>))
      else Inr (GiveUp, p\<lparr>stable := True\<rparr>))"

text \<open>The requests of \<open>decide\<close>; a node that cannot be bound or does not answer is skipped.\<close>

definition decide :: "u32 \<Rightarrow> string list \<Rightarrow> string \<Rightarrow> (string \<times> decidearg) list" where
  "decide i accepts v = map (\<lambda>m. (m, \<lparr>da_instance = i, da_v = v\<rparr>)) accepts"

lemma decide_iff: "(m, d) \<in> set (decide i accepts v) \<longleftrightarrow> m \<in> set accepts \<and> d = \<lparr>da_instance = i, da_v = v\<rparr>"
  by (auto simp: decide_def)

section \<open>Durability\<close>

text \<open>
  Equality up to what the log does not keep: the name in a proposal number whose counter is \<open>0\<close>, and
  empty entries of \<open>values\<close>.
\<close>

definition prop_eqv :: "prop_t \<Rightarrow> prop_t \<Rightarrow> bool" where
  "prop_eqv p q \<longleftrightarrow> p = q \<or> (pn p = 0 \<and> pn q = 0)"

definition acc_eqv :: "acceptor \<Rightarrow> acceptor \<Rightarrow> bool" where
  "acc_eqv a b \<longleftrightarrow> ac_me a = ac_me b \<and> prop_eqv (n_h a) (n_h b) \<and> prop_eqv (n_a a) (n_a b) \<and>
     v_a a = v_a b \<and> instance_h a = instance_h b \<and> (\<forall>i. map_at [] (vals a) i = map_at [] (vals b) i) \<and>
     ac_log a = ac_log b"

definition recovers :: "acceptor \<Rightarrow> bool" where
  "recovers a \<longleftrightarrow>
     (\<exists>rs. log_records rs a \<and> acc_eqv (fold replay rs (acceptor_fresh (ac_me a) (ac_log a))) a)"

definition restart :: "acceptor \<Rightarrow> fault + acceptor" where
  "restart a = acceptor_init 0 False (ac_me a) [] (ac_log a)"

lemma replay_log: "fold replay rs (a\<lparr>ac_log := l\<rparr>) = (fold replay rs a)\<lparr>ac_log := l\<rparr>"
proof (induction rs arbitrary: a)
  case (Cons r rs)
  have "replay r (a\<lparr>ac_log := l\<rparr>) = (replay r a)\<lparr>ac_log := l\<rparr>" by (cases r) simp_all
  with Cons show ?case by simp
qed simp

lemma replay_me [simp]: "ac_me (fold replay rs a) = ac_me a" "ac_log (fold replay rs a) = ac_log a"
proof -
  have "ac_me (replay r a) = ac_me a \<and> ac_log (replay r a) = ac_log a" for r a by (cases r) simp_all
  then show "ac_me (fold replay rs a) = ac_me a" "ac_log (fold replay rs a) = ac_log a"
    by (induction rs arbitrary: a) simp_all
qed

lemma recovers_extend:
  assumes "recovers a" and "\<And>rs. log_records rs a \<Longrightarrow> log_records (rs @ [r]) b" and "ac_me b = ac_me a"
    and "\<And>c. acc_eqv c a \<Longrightarrow> acc_eqv ((replay r c)\<lparr>ac_log := ac_log b\<rparr>) b"
  shows "recovers b"
proof -
  obtain rs where rs: "log_records rs a" "acc_eqv (fold replay rs (acceptor_fresh (ac_me a) (ac_log a))) a"
    using assms(1) by (auto simp: recovers_def)
  let ?c = "fold replay rs (acceptor_fresh (ac_me a) (ac_log a))"
  have "acceptor_fresh (ac_me b) (ac_log b) = (acceptor_fresh (ac_me a) (ac_log a))\<lparr>ac_log := ac_log b\<rparr>"
    using assms(3) by (simp add: acceptor_fresh_def)
  then have "fold replay (rs @ [r]) (acceptor_fresh (ac_me b) (ac_log b)) = (replay r ?c)\<lparr>ac_log := ac_log b\<rparr>"
    using replay_log [of "rs @ [r]"] by simp
  with assms(2) [OF rs(1)] assms(4) [OF rs(2)] show ?thesis by (auto simp: recovers_def)
qed

lemma recovers_same_log:
  assumes "recovers a" and "ac_log b = ac_log a" and "ac_me b = ac_me a" and "\<And>c. acc_eqv c a \<Longrightarrow> acc_eqv c b"
  shows "recovers b"
  using assms by (auto simp: recovers_def log_records_def)

lemma recovers_fresh: "recovers (acceptor_fresh me [])"
  by (auto simp: recovers_def log_records_def acc_eqv_def acceptor_fresh_def prop_eqv_def intro: exI [of _ "[]"])

lemma recovers_restart:
  assumes "recovers a"
  obtains b where "restart a = Inr b" "acc_eqv b a" "recovers b"
proof -
  obtain rs where rs: "log_records rs a" "acc_eqv (fold replay rs (acceptor_fresh (ac_me a) (ac_log a))) a"
    using assms by (auto simp: recovers_def)
  let ?b = "fold replay rs (acceptor_fresh (ac_me a) (ac_log a))"
  have "ac_log (acceptor_fresh (ac_me a) (ac_log a)) = ac_log a" by (simp add: acceptor_fresh_def)
  from logread_records [OF rs(1) this] have 1: "restart a = Inr ?b"
    by (simp add: restart_def acceptor_init_def)
  have "ac_me ?b = ac_me a" "ac_log ?b = ac_log a" by (simp_all add: acceptor_fresh_def)
  then have "recovers ?b"
    using rs(1) by (auto simp: recovers_def log_records_def acc_eqv_def prop_eqv_def)
  with 1 rs(2) show ?thesis by (rule that)
qed

lemma preparereq_recovers:
  assumes "recovers ac" and "is_word (pm (pa_n a))" and "preparereq a r ac = (res, ac')"
  shows "recovers ac'"
proof -
  consider "ac' = snd (ac_value (pa_instance a) ac)" | "ac' = (logprop (pa_n a) ac)\<lparr>n_h := pa_n a\<rparr>" | "ac' = ac"
    using assms(3) by (auto simp: preparereq_def Let_def split: if_splits prod.splits)
  then show ?thesis
  proof cases
    case 1
    show ?thesis
      by (rule recovers_same_log [OF assms(1)])
        (simp_all add: 1 ac_value_def acc_eqv_def)
  next
    case 2
    show ?thesis
    proof (rule recovers_extend [OF assms(1), of "Propseen (pa_n a)"])
      show "log_records (rs @ [Propseen (pa_n a)]) ac'" if "log_records rs ac" for rs
        using log_records_snoc(2) [OF that assms(2)] by (simp add: 2 log_records_def)
    qed (auto simp: 2 logprop_def acc_eqv_def prop_eqv_def)
  qed (simp add: assms(1))
qed

lemma acceptreq_recovers:
  assumes "recovers ac" and "is_word (pm (aa_n a))" and "newline \<notin> set (aa_v a)" and "acceptreq a ac = (res, ac')"
  shows "recovers ac'"
proof (cases "prop_ge (aa_n a) (n_h ac)")
  case True
  with assms(4) have b: "ac' = (logaccept (aa_n a) (aa_v a) ac)\<lparr>n_a := aa_n a, v_a := aa_v a\<rparr>"
    by (auto simp: acceptreq_def)
  show ?thesis
  proof (rule recovers_extend [OF assms(1), of "Accepted (aa_n a) (aa_v a)"])
    show "log_records (rs @ [Accepted (aa_n a) (aa_v a)]) ac'" if "log_records rs ac" for rs
      using log_records_snoc(3) [OF that assms(2,3)] by (simp add: b log_records_def)
  qed (auto simp: b logaccept_def acc_eqv_def prop_eqv_def)
next
  case False
  with assms show ?thesis by (auto simp: acceptreq_def)
qed

lemma commit_wo_recovers:
  assumes "recovers ac" and "newline \<notin> set v"
  shows "recovers (fst (commit_wo cfg i v ac))"
proof (cases "i > instance_h ac")
  case True
  let ?b = "fst (commit_wo cfg i v ac)"
  show ?thesis
  proof (rule recovers_extend [OF assms(1), of "Done i v"])
    show "log_records (rs @ [Done i v]) ?b" if "log_records rs ac" for rs
      using log_records_snoc(1) [OF that assms(2), of i] True
      by (simp add: commit_wo_def log_records_def loginstance_def)
  qed (use True in \<open>auto simp: commit_wo_def loginstance_def acc_eqv_def prop_eqv_def map_at_def\<close>)
qed (use assms in \<open>simp add: commit_wo_def\<close>)

text \<open>All that an acceptor does in its life, with names and values that fit the log format.\<close>

inductive acc_step :: "acceptor \<Rightarrow> acceptor \<Rightarrow> bool" where
  acc_prepare: "\<lbrakk>is_word (pm (pa_n a)); preparereq a r ac = (res, ac')\<rbrakk> \<Longrightarrow> acc_step ac ac'"
| acc_accept: "\<lbrakk>is_word (pm (aa_n a)); newline \<notin> set (aa_v a); acceptreq a ac = (res, ac')\<rbrakk> \<Longrightarrow> acc_step ac ac'"
| acc_commit: "newline \<notin> set v \<Longrightarrow> acc_step ac (fst (ac_commit cfg i v ac))"
| acc_decide: "\<lbrakk>newline \<notin> set (da_v a); decidereq cfg a ac = Inr (res, ac', up)\<rbrakk> \<Longrightarrow> acc_step ac ac'"
| acc_restart: "restart ac = Inr ac' \<Longrightarrow> acc_step ac ac'"

definition acc_start :: "acceptor \<Rightarrow> bool" where
  "acc_start ac \<longleftrightarrow> (\<exists>i0 first me v. newline \<notin> set v \<and> acceptor_init i0 first me v [] = Inr ac)"

lemma acceptor_init_empty:
  "acceptor_init i0 first me v [] =
     Inr (if first then (loginstance 1 v ((acceptor_fresh me [])\<lparr>vals := [1 \<mapsto> v]\<rparr>))\<lparr>instance_h := 1\<rparr>
          else acceptor_fresh me [])"
  using logread_records [of "[]" "acceptor_fresh me []" "acceptor_fresh me []" i0]
  by (simp add: acceptor_init_def log_records_def acceptor_fresh_def)

interpretation durable: step_invariant acc_start acc_step recovers
proof
  fix ac assume "acc_start ac"
  then obtain i0 first me v where v: "newline \<notin> set v" and "acceptor_init i0 first me v [] = Inr ac"
    by (auto simp: acc_start_def)
  then have ac: "ac = (if first then (loginstance 1 v ((acceptor_fresh me [])\<lparr>vals := [1 \<mapsto> v]\<rparr>))\<lparr>instance_h := 1\<rparr>
          else acceptor_fresh me [])" by (simp add: acceptor_init_empty)
  show "recovers ac"
  proof (cases first)
    case True
    show ?thesis
    proof (rule recovers_extend [OF recovers_fresh [of me], of "Done 1 v"])
      show "log_records (rs @ [Done 1 v]) ac" if "log_records rs (acceptor_fresh me [])" for rs
        using log_records_snoc(1) [OF that v, of 1] True
        by (simp add: ac log_records_def loginstance_def)
    qed (use True in \<open>auto simp: ac loginstance_def acc_eqv_def prop_eqv_def acceptor_fresh_def map_at_def\<close>)
  qed (simp add: ac recovers_fresh)
next
  fix ac ac' assume r: "recovers ac" and "acc_step ac ac'"
  from this(2) show "recovers ac'"
  proof cases
    case (acc_prepare a r res)
    with preparereq_recovers [OF r] show ?thesis by blast
  next
    case (acc_accept a res)
    with acceptreq_recovers [OF r] show ?thesis by blast
  next
    case (acc_commit v cfg i)
    with commit_wo_recovers [OF r] show ?thesis by (simp add: ac_commit_def)
  next
    case (acc_decide a cfg res up)
    then have "ac' = ac \<or> ac' = fst (commit_wo cfg (da_instance a) (v_a ac) ac) \<and> v_a ac = da_v a"
      by (auto simp: decidereq_def bind_f_eq_Inr split: if_splits)
    with commit_wo_recovers [OF r, of "v_a ac"] acc_decide(1) r show ?thesis by auto
  next
    case acc_restart
    with recovers_restart [OF r] show ?thesis by auto
  qed
qed

text \<open>
  C11. Crash recovery of an acceptor: whatever requests it has handled, restarting it from its log file succeeds and
  restores the highest promise, the highest accepted proposal with its value, the highest decided instance and
  the value of every instance. Only the name in a promise or proposal number with counter \<open>0\<close>, which stands for
  none, is not restored.
\<close>

theorem acceptor_recovers:
  assumes "reach acc_start acc_step ac"
  shows "\<exists>b. restart ac = Inr b \<and> acc_eqv b ac"
  using recovers_restart [OF durable.reach_inv [OF assms]] by metis

definition used_acceptor :: acceptor where
  "used_acceptor = snd (acceptreq \<lparr>aa_instance = 1, aa_n = Prop 3 ''p'', aa_v = ''v''\<rparr> (acceptor_fresh ''me'' []))"

theorem acceptor_recovers_witness:
  "\<exists>b. restart used_acceptor = Inr b \<and> v_a b = ''v''"
proof -
  have "reach acc_start acc_step (acceptor_fresh ''me'' [])"
    by (rule reach_init, unfold acc_start_def, rule exI [of _ 0], rule exI [of _ False],
        rule exI [of _ "''me''"], rule exI [of _ "[]"]) (simp add: acceptor_init_empty)
  moreover have "acc_step (acceptor_fresh ''me'' []) used_acceptor"
    by (rule acc_accept [of "\<lparr>aa_instance = 1, aa_n = Prop 3 ''p'', aa_v = ''v''\<rparr>"])
      (simp_all add: is_word_def isspace_def newline_def used_acceptor_def acceptreq_def acceptor_fresh_def
        less_eq_prop_t_def prop_ge_def del: prop_ge_le)
  ultimately have "reach acc_start acc_step used_acceptor" by (rule reach_step)
  from acceptor_recovers [OF this] obtain b where "restart used_acceptor = Inr b" "acc_eqv b used_acceptor" by auto
  moreover have "v_a used_acceptor = ''v''"
    by (simp add: used_acceptor_def acceptreq_def acceptor_fresh_def less_eq_prop_t_def prop_ge_def del: prop_ge_le)
  ultimately show ?thesis by (auto simp: acc_eqv_def)
qed

end
