(* ===== verification/Paxos_Agreement.thy ===== *)
theory Paxos_Agreement
  imports Paxos
begin

text \<open>
  Any number of proposers and acceptors running one instance of Paxos. Requests that have been sent can be
  handled at any later time, also after the proposer has given up or has crashed, and more than once; replies
  may be lost. Processes may crash and restart from their log at any time. \<open>late\<close> says whether an acceptor that has
  already decided the instance can still receive an accept request for it: \<open>acceptreq\<close> does not look at the
  instance of a request. Without such requests the protocol is safe; with them it is not.
\<close>

section \<open>The system\<close>

text \<open>
  A run of a proposer: \<open>rn_acc\<close> are the nodes and the value of its accept requests, \<open>rn_dec\<close> the nodes of its
  decide requests.
\<close>

record px_run =
  rn_n :: prop_t
  rn_newv :: string
  rn_acc :: "(string list \<times> string) option"
  rn_dec :: "string list option"

record px_sys =
  pacc :: "string \<Rightarrow> acceptor"
  props :: "string \<Rightarrow> proposer"
  active :: "string \<Rightarrow> nat option"
  prun :: "nat \<rightharpoonup> px_run"
  preps :: "(nat \<times> string \<times> prepareres) set"
  accks :: "(nat \<times> string) set"
  stopped :: bool

inductive px_step :: "bool \<Rightarrow> u32 \<Rightarrow> string list \<Rightarrow> px_sys \<Rightarrow> px_sys \<Rightarrow> bool"
  for late :: bool and inst :: u32 and nodes :: "string list" where
  px_begin: "\<lbrakk>run_begin (n_h (pacc y p)) (props y p) = Some p'; prun y rid = None; 0 < pn (my_n p');
      is_word (pm (my_n p')); newv \<noteq> []; newline \<notin> set newv\<rbrakk> \<Longrightarrow>
    px_step late inst nodes y
      (y\<lparr>props := (props y)(p := p'), active := (active y)(p := Some rid),
         prun := (prun y)(rid \<mapsto> \<lparr>rn_n = my_n p', rn_newv = newv, rn_acc = None, rn_dec = None\<rparr>)\<rparr>)"
| px_prepare: "\<lbrakk>prun y rid = Some r; a \<in> set nodes;
      preparereq \<lparr>pa_instance = inst, pa_n = rn_n r\<rparr> r0 (pacc y a) = ((st, res), ac')\<rbrakk> \<Longrightarrow>
    px_step late inst nodes y
      (y\<lparr>pacc := (pacc y)(a := ac'), preps := insert (rid, a, res) (preps y)\<rparr>)"
| px_commit_old: "\<lbrakk>active y p = Some rid; prun y rid = Some r; rn_acc r = None; map fst calls = nodes;
      \<And>m res. (m, Some res) \<in> set calls \<Longrightarrow> (rid, m, res) \<in> preps y;
      run_prepared nodes (rn_newv r) (prepare calls) (props y p) = Inr (CommitOld v, p')\<rbrakk> \<Longrightarrow>
    px_step late inst nodes y
      (y\<lparr>pacc := (pacc y)(p := fst (ac_commit True inst v (pacc y p))),
         props := (props y)(p := p'), active := (active y)(p := None)\<rparr>)"
| px_prepared: "\<lbrakk>active y p = Some rid; prun y rid = Some r; rn_acc r = None; map fst calls = nodes;
      \<And>m res. (m, Some res) \<in> set calls \<Longrightarrow> (rid, m, res) \<in> preps y;
      run_prepared nodes (rn_newv r) (prepare calls) (props y p) = Inr (SendAccept ns v, p')\<rbrakk> \<Longrightarrow>
    px_step late inst nodes y
      (y\<lparr>props := (props y)(p := p'), prun := (prun y)(rid \<mapsto> r\<lparr>rn_acc := Some (ns, v)\<rparr>)\<rparr>)"
| px_accept: "\<lbrakk>prun y rid = Some r; rn_acc r = Some (ns, v); a \<in> set ns; late \<or> instance_h (pacc y a) < inst;
      acceptreq \<lparr>aa_instance = inst, aa_n = rn_n r, aa_v = v\<rparr> (pacc y a) = ((st, b), ac')\<rbrakk> \<Longrightarrow>
    px_step late inst nodes y
      (y\<lparr>pacc := (pacc y)(a := ac'), accks := (if b then insert (rid, a) (accks y) else accks y)\<rparr>)"
| px_accepted: "\<lbrakk>active y p = Some rid; prun y rid = Some r; rn_acc r = Some (ns, v); rn_dec r = None; map fst calls = ns;
      \<And>m. (m, Some True) \<in> set calls \<Longrightarrow> (rid, m) \<in> accks y;
      run_accepted nodes v (accept_loop calls) (props y p) = Inr (SendDecide ms w, p')\<rbrakk> \<Longrightarrow>
    px_step late inst nodes y
      (y\<lparr>props := (props y)(p := p'), active := (active y)(p := None),
         prun := (prun y)(rid \<mapsto> r\<lparr>rn_dec := Some ms\<rparr>)\<rparr>)"
| px_give_up: "\<lbrakk>active y p = Some rid; p' = (props y p)\<lparr>stable := True\<rparr>\<rbrakk> \<Longrightarrow>
    px_step late inst nodes y (y\<lparr>props := (props y)(p := p'), active := (active y)(p := None)\<rparr>)"
| px_decide: "\<lbrakk>prun y rid = Some r; rn_acc r = Some (ns, v); rn_dec r = Some ms; (a, d) \<in> set (decide inst ms v);
      decidereq True d (pacc y a) = Inr (st, ac', up)\<rbrakk> \<Longrightarrow>
    px_step late inst nodes y (y\<lparr>pacc := (pacc y)(a := ac')\<rparr>)"
| px_decide_fails: "\<lbrakk>prun y rid = Some r; rn_acc r = Some (ns, v); rn_dec r = Some ms; (a, d) \<in> set (decide inst ms v);
      decidereq True d (pacc y a) = Inl e\<rbrakk> \<Longrightarrow>
    px_step late inst nodes y (y\<lparr>stopped := True\<rparr>)"
| px_crash: "restart (pacc y p) = Inr ac' \<Longrightarrow>
    px_step late inst nodes y
      (y\<lparr>pacc := (pacc y)(p := ac'), props := (props y)(p := proposer_init p), active := (active y)(p := None)\<rparr>)"

text \<open>All acceptors have decided the instances before \<open>inst\<close> and seen nothing of it.\<close>

definition px_start :: "u32 \<Rightarrow> px_sys \<Rightarrow> bool" where
  "px_start inst y \<longleftrightarrow>
     (\<forall>a. recovers (pacc y a) \<and> instance_h (pacc y a) + 1 = inst \<and> pn (n_h (pacc y a)) = 0 \<and>
          pn (n_a (pacc y a)) = 0 \<and> v_a (pacc y a) = []) \<and>
     props y = proposer_init \<and> active y = (\<lambda>_. None) \<and>
     prun y = Map.empty \<and> preps y = {} \<and> accks y = {} \<and> \<not> stopped y"

definition decided :: "u32 \<Rightarrow> acceptor \<Rightarrow> string \<Rightarrow> bool" where
  "decided inst a v \<longleftrightarrow> inst \<le> instance_h a \<and> map_at [] (vals a) inst = v"

section \<open>Phase one\<close>

lemma prepare_loop_old:
  "prepare_loop calls hi acs v0 = Inl v \<Longrightarrow> \<exists>c\<in>set calls. \<exists>r. snd c = Some r \<and> pr_oldinstance r \<and> v = pr_v_a r"
proof (induction calls hi acs v0 rule: prepare_loop.induct)
  case (3 m r calls hi accepts v0)
  then show ?case
    by (cases "pr_oldinstance r"; cases "pr_accept r"; cases "hi = None \<or> prop_gt (pr_n_a r) (the hi)") auto
qed auto

abbreviation promise :: "string \<times> prepareres option \<Rightarrow> bool" where
  "promise c \<equiv> case snd c of None \<Rightarrow> False | Some r \<Rightarrow> pr_accept r \<and> \<not> pr_oldinstance r"

lemma prepare_loop_accepts:
  "prepare_loop calls hi acs v0 = Inr (ns, v) \<Longrightarrow> ns = acs @ map fst (filter promise calls)"
proof (induction calls hi acs v0 rule: prepare_loop.induct)
  case (3 m r calls hi accepts v0)
  then show ?case
    by (cases "pr_oldinstance r"; cases "pr_accept r"; cases "hi = None \<or> prop_gt (pr_n_a r) (the hi)") auto
qed auto

text \<open>The value is that of a highest proposal among the earlier one and the promises.\<close>

lemma prepare_loop_highest:
  assumes "prepare_loop calls hi acs v0 = Inr (ns, v)"
  shows "(hi = None \<and> (\<forall>c\<in>set calls. \<not> promise c) \<and> v = v0) \<or>
         (\<exists>h. (hi = Some h \<and> v = v0 \<or> (\<exists>m r. (m, Some r) \<in> set calls \<and> promise (m, Some r) \<and> h = pr_n_a r \<and> v = pr_v_a r)) \<and>
              (\<forall>h'. hi = Some h' \<longrightarrow> h' \<le> h) \<and>
              (\<forall>m r. (m, Some r) \<in> set calls \<longrightarrow> promise (m, Some r) \<longrightarrow> pr_n_a r \<le> h))"
  using assms
proof (induction calls hi acs v0 rule: prepare_loop.induct)
  case (1 hi accepts v)
  then show ?case by (cases hi) auto
next
  case (2 m calls hi accepts v)
  then show ?case by auto
next
  case (3 m r calls hi accepts v0)
  show ?case
  proof (cases "pr_accept r")
    case False
    with 3 show ?thesis by (cases "pr_oldinstance r") auto
  next
    case acc: True
    with 3(4) have old: "\<not> pr_oldinstance r" by auto
    show ?thesis
    proof (cases "hi = None \<or> prop_gt (pr_n_a r) (the hi)")
      case True
      with acc old 3(4) have "prepare_loop calls (Some (pr_n_a r)) (accepts @ [m]) (pr_v_a r) = Inr (ns, v)" by simp
      from 3(1) [OF old acc True this] obtain h where
        h: "h = pr_n_a r \<and> v = pr_v_a r \<or> (\<exists>m r. (m, Some r) \<in> set calls \<and> promise (m, Some r) \<and> h = pr_n_a r \<and> v = pr_v_a r)"
        "pr_n_a r \<le> h" "\<forall>m r. (m, Some r) \<in> set calls \<longrightarrow> promise (m, Some r) \<longrightarrow> pr_n_a r \<le> h" by auto
      have "\<forall>h'. hi = Some h' \<longrightarrow> h' \<le> h" using True h(2) by auto
      with h acc old show ?thesis by (intro disjI2 exI [of _ h]) auto
    next
      case False
      then obtain h0 where h0: "hi = Some h0" "pr_n_a r \<le> h0" by auto
      from False acc old 3(4) have "prepare_loop calls hi (accepts @ [m]) v0 = Inr (ns, v)" by auto
      from 3(2) [OF old acc False this] h0 obtain h where
        h: "h = h0 \<and> v = v0 \<or> (\<exists>m r. (m, Some r) \<in> set calls \<and> promise (m, Some r) \<and> h = pr_n_a r \<and> v = pr_v_a r)"
        "h0 \<le> h" "\<forall>m r. (m, Some r) \<in> set calls \<longrightarrow> promise (m, Some r) \<longrightarrow> pr_n_a r \<le> h" by auto
      with h0 show ?thesis by (intro disjI2 exI [of _ h]) auto
    qed
  qed
qed

lemma accept_loop_set: "m \<in> set (accept_loop calls) \<Longrightarrow> (m, Some True) \<in> set calls"
  by (induction calls rule: accept_loop.induct) (auto split: if_splits)

section \<open>The invariant\<close>

text \<open>A run that has sent accept requests; the votes of an acceptor; the values with a majority of votes.\<close>

definition accrun :: "px_sys \<Rightarrow> nat \<Rightarrow> prop_t \<Rightarrow> string list \<Rightarrow> string \<Rightarrow> bool" where
  "accrun y rid n ns v \<longleftrightarrow> (\<exists>r. prun y rid = Some r \<and> rn_n r = n \<and> rn_acc r = Some (ns, v))"

definition votes :: "px_sys \<Rightarrow> string \<Rightarrow> (prop_t \<times> string) set" where
  "votes y a = {(n, v). \<exists>rid ns. (rid, a) \<in> accks y \<and> accrun y rid n ns v}"

definition chosen :: "px_sys \<Rightarrow> string set" where
  "chosen y = {v. \<exists>rid r ns ms. prun y rid = Some r \<and> rn_acc r = Some (ns, v) \<and> rn_dec r = Some ms}"

text \<open>An acceptor has decided a chosen value, or reports its highest vote.\<close>

definition acc_ok :: "u32 \<Rightarrow> acceptor \<Rightarrow> (prop_t \<times> string) set \<Rightarrow> string set \<Rightarrow> bool" where
  "acc_ok inst A V C \<longleftrightarrow> recovers A \<and>
     (instance_h A = inst \<and> map_at [] (vals A) inst \<in> C \<or>
      instance_h A + 1 = inst \<and> (\<forall>(n, v)\<in>V. n \<le> n_a A) \<and>
        (pn (n_a A) = 0 \<and> v_a A = [] \<or> (n_a A, v_a A) \<in> V))"

text \<open>A promise binds the acceptor, and its reply has the highest vote below.\<close>

definition prom_ok :: "u32 \<Rightarrow> acceptor \<Rightarrow> (prop_t \<times> string) set \<Rightarrow> prop_t \<Rightarrow> prepareres \<Rightarrow> bool" where
  "prom_ok inst A V n res \<longleftrightarrow>
     (instance_h A = inst \<or> n \<le> n_h A) \<and> (\<forall>(n', v')\<in>V. n' < n \<longrightarrow> n' \<le> pr_n_a res) \<and>
     (pn (pr_n_a res) = 0 \<and> pr_v_a res = [] \<or> (pr_n_a res, pr_v_a res) \<in> V \<and> pr_n_a res < n)"

text \<open>The value \<open>v\<close> is safe at \<open>n\<close> by the quorum \<open>Q\<close>.\<close>

definition safe_at :: "(string \<Rightarrow> (prop_t \<times> string) set) \<Rightarrow> prop_t \<Rightarrow> string set \<Rightarrow> string \<Rightarrow> bool" where
  "safe_at V n Q v \<longleftrightarrow>
     (\<forall>a\<in>Q. \<forall>(n', v')\<in>V a. \<not> n' < n) \<or>
     (\<exists>a0\<in>Q. \<exists>n0. (n0, v) \<in> V a0 \<and> n0 < n \<and> (\<forall>a\<in>Q. \<forall>(n', v')\<in>V a. n' < n \<longrightarrow> n' \<le> n0))"

definition run_ok :: "string list \<Rightarrow> px_sys \<Rightarrow> nat \<Rightarrow> px_run \<Rightarrow> bool" where
  "run_ok nodes y rid r \<longleftrightarrow>
     0 < pn (rn_n r) \<and> is_word (pm (rn_n r)) \<and> rn_newv r \<noteq> [] \<and> newline \<notin> set (rn_newv r) \<and>
     (\<forall>ns v. rn_acc r = Some (ns, v) \<longrightarrow>
        majority nodes ns \<and> v \<noteq> [] \<and> newline \<notin> set v \<and>
        (\<forall>a\<in>set ns. \<exists>res. (rid, a, res) \<in> preps y \<and> pr_accept res) \<and> safe_at (votes y) (rn_n r) (set ns) v) \<and>
     (\<forall>ms. rn_dec r = Some ms \<longrightarrow> rn_acc r \<noteq> None \<and> majority nodes ms \<and> (\<forall>a\<in>set ms. (rid, a) \<in> accks y))"

definition uniq :: "px_sys \<Rightarrow> bool" where
  "uniq y \<longleftrightarrow> (\<forall>a rid1 rid2 r1 r2 res1 res2.
     (rid1, a, res1) \<in> preps y \<longrightarrow> (rid2, a, res2) \<in> preps y \<longrightarrow> pr_accept res1 \<longrightarrow> pr_accept res2 \<longrightarrow>
     prun y rid1 = Some r1 \<longrightarrow> prun y rid2 = Some r2 \<longrightarrow> rn_n r1 = rn_n r2 \<longrightarrow> rid1 = rid2)"

definition px_inv :: "u32 \<Rightarrow> string list \<Rightarrow> px_sys \<Rightarrow> bool" where
  "px_inv inst nodes y \<longleftrightarrow>
     finite (dom (prun y)) \<and>
     (\<forall>rid r. prun y rid = Some r \<longrightarrow> run_ok nodes y rid r) \<and>
     (\<forall>rid a. (rid, a) \<in> accks y \<longrightarrow> (\<exists>n ns v. accrun y rid n ns v \<and> a \<in> set ns)) \<and>
     (\<forall>rid a res. (rid, a, res) \<in> preps y \<longrightarrow>
        (\<exists>r. prun y rid = Some r \<and> (pr_oldinstance res \<longrightarrow> pr_v_a res \<in> chosen y) \<and>
             (pr_accept res \<longrightarrow> prom_ok inst (pacc y a) (votes y a) (rn_n r) res))) \<and>
     uniq y \<and> (\<forall>a. acc_ok inst (pacc y a) (votes y a) (chosen y)) \<and> \<not> stopped y"

lemma px_invD:
  assumes "px_inv inst nodes y"
  shows "finite (dom (prun y))"
    and "\<And>rid r. prun y rid = Some r \<Longrightarrow> run_ok nodes y rid r"
    and "\<And>rid a. (rid, a) \<in> accks y \<Longrightarrow> \<exists>n ns v. accrun y rid n ns v \<and> a \<in> set ns"
    and "\<And>rid a res. (rid, a, res) \<in> preps y \<Longrightarrow>
        \<exists>r. prun y rid = Some r \<and> (pr_oldinstance res \<longrightarrow> pr_v_a res \<in> chosen y) \<and>
             (pr_accept res \<longrightarrow> prom_ok inst (pacc y a) (votes y a) (rn_n r) res)"
    and "uniq y" and "\<And>a. acc_ok inst (pacc y a) (votes y a) (chosen y)" and "\<not> stopped y"
  using assms by (simp_all add: px_inv_def)

lemma votes_ok:
  assumes "px_inv inst nodes y" and "(n, v) \<in> votes y a"
  shows "0 < pn n \<and> v \<noteq> [] \<and> newline \<notin> set v"
proof -
  from assms(2) obtain rid ns r where "prun y rid = Some r" "rn_n r = n" "rn_acc r = Some (ns, v)"
    by (auto simp: votes_def accrun_def)
  with px_invD(2) [OF assms(1)] show ?thesis by (auto simp: run_ok_def)
qed

lemma chosen_ok: "px_inv inst nodes y \<Longrightarrow> v \<in> chosen y \<Longrightarrow> v \<noteq> [] \<and> newline \<notin> set v"
  using px_invD(2) [of inst nodes y] by (auto simp: chosen_def run_ok_def)

section \<open>Agreement in a state\<close>

lemma accrun_unique:
  assumes "px_inv inst nodes y" and "distinct nodes" and "accrun y rid1 n ns1 v1" and "accrun y rid2 n ns2 v2"
  shows "rid1 = rid2 \<and> v1 = v2"
proof -
  obtain r1 r2 where r: "prun y rid1 = Some r1" "rn_n r1 = n" "rn_acc r1 = Some (ns1, v1)"
    "prun y rid2 = Some r2" "rn_n r2 = n" "rn_acc r2 = Some (ns2, v2)"
    using assms(3,4) by (auto simp: accrun_def)
  from px_invD(2) [OF assms(1) r(1)] px_invD(2) [OF assms(1) r(4)] r
  have ok: "majority nodes ns1" "majority nodes ns2"
    "\<And>a. a \<in> set ns1 \<Longrightarrow> \<exists>res. (rid1, a, res) \<in> preps y \<and> pr_accept res"
    "\<And>a. a \<in> set ns2 \<Longrightarrow> \<exists>res. (rid2, a, res) \<in> preps y \<and> pr_accept res"
    by (auto simp: run_ok_def)
  from majority_intersect [OF assms(2) ok(1,2)] obtain a where a: "a \<in> set ns1" "a \<in> set ns2" by auto
  with ok(3,4) obtain res1 res2 where
    "(rid1, a, res1) \<in> preps y" "pr_accept res1" "(rid2, a, res2) \<in> preps y" "pr_accept res2" by blast
  with px_invD(5) [OF assms(1)] r have "rid1 = rid2" unfolding uniq_def by metis
  with r show ?thesis by auto
qed

lemma chosen_later:
  assumes inv: "px_inv inst nodes y" and dist: "distinct nodes"
    and ms: "majority nodes ms" "\<And>a. a \<in> set ms \<Longrightarrow> (rid, a) \<in> accks y"
    and run: "accrun y rid n ns v" and later: "accrun y rid' n' ns' v'" "n < n'"
  shows "v' = v"
proof (rule ccontr)
  assume "v' \<noteq> v"
  let ?B = "{n'. \<exists>rid' ns' v'. accrun y rid' n' ns' v' \<and> n < n' \<and> v' \<noteq> v}"
  have "?B \<subseteq> (\<lambda>rid. rn_n (the (prun y rid))) ` dom (prun y)" by (force simp: accrun_def)
  with px_invD(1) [OF inv] have fin: "finite ?B" by (meson finite_imageI finite_subset)
  have "n' \<in> ?B" using later \<open>v' \<noteq> v\<close> by blast
  with fin have "Min ?B \<in> ?B" by (intro Min_in) auto
  then obtain rid1 ns1 v1 where b: "accrun y rid1 (Min ?B) ns1 v1" "n < Min ?B" "v1 \<noteq> v" by blast
  obtain r1 where r1: "prun y rid1 = Some r1" "rn_n r1 = Min ?B" "rn_acc r1 = Some (ns1, v1)"
    using b(1) by (auto simp: accrun_def)
  from px_invD(2) [OF inv r1(1)] r1 have s: "majority nodes ns1" "safe_at (votes y) (Min ?B) (set ns1) v1"
    by (auto simp: run_ok_def)
  from majority_intersect [OF dist ms(1) s(1)] obtain a where a: "a \<in> set ms" "a \<in> set ns1" by auto
  have va: "(n, v) \<in> votes y a" using ms(2) [OF a(1)] run by (auto simp: votes_def)
  with s(2) a(2) b(2) obtain a0 n0 where v0: "(n0, v1) \<in> votes y a0" "n0 < Min ?B"
    "\<forall>a\<in>set ns1. \<forall>(n', v')\<in>votes y a. n' < Min ?B \<longrightarrow> n' \<le> n0"
    unfolding safe_at_def by blast
  from v0(3) va a(2) b(2) have "n \<le> n0" by fastforce
  from v0(1) obtain rid0 ns0 where r0: "accrun y rid0 n0 ns0 v1" by (auto simp: votes_def)
  show False
  proof (cases "n = n0")
    case True
    with accrun_unique [OF inv dist run, of rid0 ns0 v1] r0 b(3) show False by simp
  next
    case False
    with \<open>n \<le> n0\<close> have "n < n0" by simp
    with r0 b(3) have "n0 \<in> ?B" by blast
    from leD [OF Min_le [OF fin this]] v0(2) show False by (rule notE)
  qed
qed

lemma chosen_run:
  assumes "px_inv inst nodes y" and "v \<in> chosen y"
  obtains rid n ns ms where "accrun y rid n ns v" "majority nodes ms" "\<And>a. a \<in> set ms \<Longrightarrow> (rid, a) \<in> accks y"
proof -
  obtain rid r ns ms where r: "prun y rid = Some r" "rn_acc r = Some (ns, v)" "rn_dec r = Some ms"
    using assms(2) by (auto simp: chosen_def)
  from px_invD(2) [OF assms(1) r(1)] r that [of rid "rn_n r" ns ms] show ?thesis
    by (auto simp: run_ok_def accrun_def)
qed

lemma chosen_agree:
  assumes "px_inv inst nodes y" and "distinct nodes" and "v \<in> chosen y" and "w \<in> chosen y"
  shows "v = w"
proof -
  obtain rid n ns ms where 1: "accrun y rid n ns v" "majority nodes ms" "\<And>a. a \<in> set ms \<Longrightarrow> (rid, a) \<in> accks y"
    using chosen_run [OF assms(1,3)] by blast
  obtain rid' n' ns' ms' where 2: "accrun y rid' n' ns' w" "majority nodes ms'" "\<And>a. a \<in> set ms' \<Longrightarrow> (rid', a) \<in> accks y"
    using chosen_run [OF assms(1,4)] by blast
  consider "n = n'" | "n < n'" | "n' < n" by force
  then show ?thesis
  proof cases
    case 1
    with accrun_unique [OF assms(1,2)] \<open>accrun y rid n ns v\<close> 2(1) show ?thesis by blast
  next
    case c: 2
    from chosen_later [OF assms(1,2) 1(2,3,1) 2(1) c] show ?thesis by simp
  next
    case c: 3
    from chosen_later [OF assms(1,2) 2(2,3,1) 1(1) c] show ?thesis by simp
  qed
qed

text \<open>An undecided acceptor that a decide request reaches has accepted the value.\<close>

lemma decide_matches:
  assumes inv: "px_inv inst nodes y" and dist: "distinct nodes" and r: "prun y rid = Some r"
    and acc: "rn_acc r = Some (ns, v)" and dec: "rn_dec r = Some ms" and a: "a \<in> set ms"
    and und: "instance_h (pacc y a) \<noteq> inst"
  shows "v_a (pacc y a) = v"
proof -
  let ?A = "pacc y a"
  from px_invD(2) [OF inv r] acc dec have ms: "majority nodes ms" "\<And>a. a \<in> set ms \<Longrightarrow> (rid, a) \<in> accks y"
    by (auto simp: run_ok_def)
  have run: "accrun y rid (rn_n r) ns v" using r acc by (auto simp: accrun_def)
  have vote: "(rn_n r, v) \<in> votes y a" using ms(2) [OF a] run by (auto simp: votes_def)
  from px_invD(6) [OF inv, of a] und have A: "\<forall>(n, v)\<in>votes y a. n \<le> n_a ?A"
    "pn (n_a ?A) = 0 \<and> v_a ?A = [] \<or> (n_a ?A, v_a ?A) \<in> votes y a" by (auto simp: acc_ok_def)
  from A(1) vote have le: "rn_n r \<le> n_a ?A" by blast
  have "pn (n_a ?A) \<noteq> 0"
    using votes_ok [OF inv vote] le prop_zero_less [of "n_a ?A" "rn_n r"] by auto
  with A(2) obtain rid0 ns0 where r0: "accrun y rid0 (n_a ?A) ns0 (v_a ?A)" by (auto simp: votes_def)
  show ?thesis
  proof (cases "rn_n r = n_a ?A")
    case True
    with accrun_unique [OF inv dist run, of rid0 ns0 "v_a ?A"] r0 show ?thesis by simp
  next
    case False
    with le have "rn_n r < n_a ?A" by simp
    from chosen_later [OF inv dist ms run r0 this] show ?thesis .
  qed
qed

section \<open>Preservation\<close>

text \<open>Steps of an acceptor alone: it keeps its promises or has decided.\<close>

lemma inv_pacc:
  assumes inv: "px_inv inst nodes y" and "acc_ok inst ac' (votes y a) (chosen y)"
    and "\<And>n. 0 < pn n \<Longrightarrow> instance_h (pacc y a) = inst \<or> n \<le> n_h (pacc y a) \<Longrightarrow> instance_h ac' = inst \<or> n \<le> n_h ac'"
  shows "px_inv inst nodes (y\<lparr>pacc := (pacc y)(a := ac'), props := P, active := Q\<rparr>)" (is "px_inv _ _ ?z")
proof -
  have same: "accrun ?z = accrun y" "votes ?z = votes y" "chosen ?z = chosen y" "uniq ?z = uniq y"
    by (auto simp: accrun_def votes_def chosen_def uniq_def fun_eq_iff)
  have "prom_ok inst (pacc ?z b) (votes y b) (rn_n r) res"
    if "prun y rid = Some r" "prom_ok inst (pacc y b) (votes y b) (rn_n r) res" for rid b r res
    using that px_invD(2) [OF inv that(1)] assms(3) [of "rn_n r"] by (auto simp: prom_ok_def run_ok_def)
  then have "\<exists>r. prun y rid = Some r \<and> (pr_oldinstance res \<longrightarrow> pr_v_a res \<in> chosen y) \<and>
      (pr_accept res \<longrightarrow> prom_ok inst (pacc ?z b) (votes y b) (rn_n r) res)" if "(rid, b, res) \<in> preps y" for rid b res
    using px_invD(4) [OF inv that] by blast
  with px_invD [OF inv] assms(2) show ?thesis
    unfolding px_inv_def same by (simp add: run_ok_def same)
qed

lemma inv_quiet:
  assumes "px_inv inst nodes y"
  shows "px_inv inst nodes (y\<lparr>props := P, active := Q\<rparr>)"
  using inv_pacc [OF assms, of "pacc y a" a for a, where P = P and Q = Q] px_invD(6) [OF assms] by simp

lemma acc_ok_commit:
  assumes "acc_ok inst A V C" and "v \<in> C" and "newline \<notin> set v" and "inst \<noteq> 0"
  shows "acc_ok inst (fst (commit_wo cfg inst v A)) V C \<and> instance_h (fst (commit_wo cfg inst v A)) = inst"
proof (cases "instance_h A = inst")
  case True
  with assms show ?thesis by (simp add: commit_wo_def)
next
  case False
  with assms(1) have "instance_h A + 1 = inst" by (auto simp: acc_ok_def)
  then have "instance_h A < inst" using assms(4) word_less_succ [of "instance_h A"] by auto
  moreover have "recovers (fst (commit_wo cfg inst v A))"
    using assms(1,3) by (intro commit_wo_recovers) (auto simp: acc_ok_def)
  ultimately show ?thesis using assms(2)
    by (auto simp: acc_ok_def commit_wo_def loginstance_def)
qed

lemma inv_commit:
  assumes "px_inv inst nodes y" and "v \<in> chosen y" and "inst \<noteq> 0"
  shows "px_inv inst nodes (y\<lparr>pacc := (pacc y)(a := fst (commit_wo cfg inst v (pacc y a))), props := P, active := Q\<rparr>)"
  using acc_ok_commit [OF px_invD(6) [OF assms(1)] assms(2) _ assms(3)] chosen_ok [OF assms(1,2)]
  by (intro inv_pacc [OF assms(1)]) auto

lemma inv_decide:
  assumes inv: "px_inv inst nodes y" and dist: "distinct nodes" and inst: "inst \<noteq> 0" and r: "prun y rid = Some r"
    and acc: "rn_acc r = Some (ns, v)" and dec: "rn_dec r = Some ms" and a: "a \<in> set ms"
  shows "\<exists>st ac' up. decidereq True \<lparr>da_instance = inst, da_v = v\<rparr> (pacc y a) = Inr (st, ac', up) \<and>
           px_inv inst nodes (y\<lparr>pacc := (pacc y)(a := ac')\<rparr>)"
proof (cases "instance_h (pacc y a) = inst")
  case True
  moreover have "inst \<noteq> inst + 1" by simp
  ultimately show ?thesis using inv by (simp add: decidereq_def)
next
  case False
  with px_invD(6) [OF inv, of a] have i: "instance_h (pacc y a) + 1 = inst" by (auto simp: acc_ok_def)
  note v = decide_matches [OF inv dist r acc dec a False]
  have "v \<in> chosen y" using r acc dec by (auto simp: chosen_def)
  from inv_commit [OF inv this inst, where a = a and cfg = True and P = "props y" and Q = "active y"] i v show ?thesis
    by (cases "commit_wo True inst v (pacc y a)") (simp add: decidereq_def)
qed

lemma acc_eqv_ok:
  assumes "acc_eqv b A" and "recovers b" and "acc_ok inst A V C" and "\<And>n v. (n, v) \<in> V \<Longrightarrow> 0 < pn n"
  shows "acc_ok inst b V C"
proof -
  have "n \<le> n_a b" if "n \<le> n_a A" "0 < pn n" for n
    using that assms(1) prop_zero_less [of "n_a A" n] by (auto simp: acc_eqv_def prop_eqv_def)
  moreover have "(n_a b, v_a b) \<in> V" if "(n_a A, v_a A) \<in> V"
    using that assms(1) assms(4) [OF that] by (auto simp: acc_eqv_def prop_eqv_def)
  moreover have "pn (n_a b) = 0 \<and> v_a b = []" if "pn (n_a A) = 0 \<and> v_a A = []"
    using that assms(1) by (auto simp: acc_eqv_def prop_eqv_def)
  moreover have "instance_h b = instance_h A" "map_at [] (vals b) inst = map_at [] (vals A) inst"
    using assms(1) by (auto simp: acc_eqv_def)
  ultimately show ?thesis using assms(2-4) unfolding acc_ok_def by (auto; blast)
qed

lemma inv_crash:
  assumes "px_inv inst nodes y" and "restart (pacc y p) = Inr ac'"
  shows "px_inv inst nodes (y\<lparr>pacc := (pacc y)(p := ac'), props := P, active := Q\<rparr>)"
proof (rule inv_pacc [OF assms(1)])
  note ok = px_invD(6) [OF assms(1), of p]
  then have "recovers (pacc y p)" by (simp add: acc_ok_def)
  then obtain b where "restart (pacc y p) = Inr b" and b: "acc_eqv b (pacc y p)" "recovers b"
    by (rule recovers_restart)
  with assms(2) have ac': "ac' = b" by simp
  from acc_eqv_ok [OF b ok] votes_ok [OF assms(1)] show "acc_ok inst ac' (votes y p) (chosen y)" by (simp add: ac')
  show "instance_h ac' = inst \<or> n \<le> n_h ac'" if "0 < pn n" "instance_h (pacc y p) = inst \<or> n \<le> n_h (pacc y p)" for n
    using that b(1) prop_zero_less [of "n_h (pacc y p)" n] by (auto simp: ac' acc_eqv_def prop_eqv_def)
qed

lemma inv_begin:
  assumes inv: "px_inv inst nodes y" and new: "prun y rid = None" and n: "0 < pn n" "is_word (pm n)" "newv \<noteq> []" "newline \<notin> set newv"
  shows "px_inv inst nodes (y\<lparr>props := P, active := Q,
      prun := (prun y)(rid \<mapsto> \<lparr>rn_n = n, rn_newv = newv, rn_acc = None, rn_dec = None\<rparr>)\<rparr>)" (is "px_inv _ _ ?z")
proof -
  have acc: "accrun ?z = accrun y" using new by (auto simp: accrun_def fun_eq_iff)
  then have vs: "votes ?z = votes y" by (simp add: votes_def fun_eq_iff)
  have ch: "chosen ?z = chosen y" using new by (auto simp: chosen_def) (metis option.discI)
  have p: "prun ?z rid' = prun y rid'" if "(rid', a, res) \<in> preps y" for rid' a res
    using px_invD(4) [OF inv that] new by auto
  have "uniq ?z" using px_invD(5) [OF inv] p by (auto simp: uniq_def)
  moreover have "run_ok nodes ?z rid' r" if "prun ?z rid' = Some r" for rid' r
    using that px_invD(2) [OF inv, of rid' r] n by (auto simp: run_ok_def vs split: if_splits)
  moreover have "\<exists>r. prun ?z rid' = Some r \<and> (pr_oldinstance res \<longrightarrow> pr_v_a res \<in> chosen ?z) \<and>
      (pr_accept res \<longrightarrow> prom_ok inst (pacc ?z a) (votes ?z a) (rn_n r) res)" if "(rid', a, res) \<in> preps y" for rid' a res
    using px_invD(4) [OF inv that] p [OF that] by (simp add: vs ch)
  ultimately show ?thesis
    using px_invD(1,3,6,7) [OF inv] unfolding px_inv_def acc vs ch by simp
qed

lemma vote_below:
  assumes inv: "px_inv inst nodes y" and "instance_h (pacc y a) \<noteq> inst" and "(n, v) \<in> votes y a"
  shows "n \<le> n_h (pacc y a)"
proof -
  obtain rid ns r where r: "prun y rid = Some r" "rn_n r = n" "rn_acc r = Some (ns, v)" and k: "(rid, a) \<in> accks y"
    using assms(3) by (auto simp: votes_def accrun_def)
  from px_invD(3) [OF inv k] r have "a \<in> set ns" by (auto simp: accrun_def)
  with px_invD(2) [OF inv r(1)] r obtain res where res: "(rid, a, res) \<in> preps y" "pr_accept res"
    by (auto simp: run_ok_def)
  from px_invD(4) [OF inv res(1)] res(2) r assms(2) show ?thesis by (auto simp: prom_ok_def)
qed

lemma promise_below:
  assumes inv: "px_inv inst nodes y" and "instance_h (pacc y a) \<noteq> inst" and "(rid, a, res) \<in> preps y" "pr_accept res"
    and "prun y rid = Some r"
  shows "rn_n r \<le> n_h (pacc y a)"
  using px_invD(4) [OF inv assms(3)] assms(2,4,5) by (auto simp: prom_ok_def)

lemma run_ok_mono:
  assumes "run_ok nodes y rid r" and "preps y \<subseteq> preps z" and "accks y \<subseteq> accks z"
    and "\<And>n ns v. safe_at (votes y) n ns v \<Longrightarrow> rn_n r = n \<Longrightarrow> rn_acc r \<noteq> None \<Longrightarrow> set (fst (the (rn_acc r))) = ns \<Longrightarrow>
      safe_at (votes z) n ns v"
  shows "run_ok nodes z rid r"
proof -
  have 1: "\<exists>res. (rid, a, res) \<in> preps z \<and> pr_accept res" if "\<exists>res. (rid, a, res) \<in> preps y \<and> pr_accept res" for a
    using that assms(2) by blast
  have 2: "(rid, a) \<in> accks z" if "(rid, a) \<in> accks y" for a using that assms(3) by blast
  show ?thesis using assms(1,4) 1 2 by (auto simp: run_ok_def)
qed

lemma uniqD:
  assumes "uniq y" "(rid1, a, res1) \<in> preps y" "(rid2, a, res2) \<in> preps y" "pr_accept res1" "pr_accept res2"
    "prun y rid1 = Some r1" "prun y rid2 = Some r2" "rn_n r1 = rn_n r2"
  shows "rid1 = rid2"
  using assms unfolding uniq_def by blast

lemma inv_reply:
  assumes inv: "px_inv inst nodes y" and r: "prun y rid = Some r"
    and old: "pr_oldinstance res \<Longrightarrow> pr_v_a res \<in> chosen y"
    and acc: "pr_accept res \<Longrightarrow> prom_ok inst (pacc y a) (votes y a) (rn_n r) res"
    and uni: "\<And>rid2 r2 res2. \<lbrakk>pr_accept res; (rid2, a, res2) \<in> preps y; pr_accept res2; prun y rid2 = Some r2;
      rn_n r2 = rn_n r\<rbrakk> \<Longrightarrow> rid2 = rid"
  shows "px_inv inst nodes (y\<lparr>preps := insert (rid, a, res) (preps y)\<rparr>)" (is "px_inv _ _ ?z")
proof -
  have same: "accrun ?z = accrun y" "votes ?z = votes y" "chosen ?z = chosen y"
    by (auto simp: accrun_def votes_def chosen_def fun_eq_iff)
  have "uniq ?z"
    unfolding uniq_def
  proof (intro allI impI)
    fix b rid1 rid2 r1 r2 res1 res2
    assume h: "(rid1, b, res1) \<in> preps ?z" "(rid2, b, res2) \<in> preps ?z" "pr_accept res1" "pr_accept res2"
      "prun ?z rid1 = Some r1" "prun ?z rid2 = Some r2" "rn_n r1 = rn_n r2"
    from h(5,6) have p: "prun y rid1 = Some r1" "prun y rid2 = Some r2" by simp_all
    consider "(rid1, b, res1) \<in> preps y" "(rid2, b, res2) \<in> preps y" | "rid1 = rid" "rid2 = rid"
      | "(rid1, b, res1) \<in> preps y" "rid2 = rid" "b = a" "res2 = res" | "(rid2, b, res2) \<in> preps y" "rid1 = rid" "b = a" "res1 = res"
      using h(1,2) by auto
    then show "rid1 = rid2"
    proof cases
      case 1
      from uniqD [OF px_invD(5) [OF inv] 1 h(3,4) p h(7)] show ?thesis .
    next
      case 3
      from p(2) r 3(2) have "r2 = r" by simp
      with uni [OF _ _ h(3) p(1)] 3 h(4,7) show ?thesis by blast
    next
      case 4
      from p(1) r 4(2) have "r1 = r" by simp
      with uni [OF _ _ h(4) p(2)] 4 h(3,7) show ?thesis by metis
    qed simp
  qed
  moreover have "run_ok nodes ?z rid' r'" if "prun y rid' = Some r'" for rid' r'
    by (rule run_ok_mono [OF px_invD(2) [OF inv that]]) (auto simp: same)
  moreover have "\<exists>r. prun y rid' = Some r \<and> (pr_oldinstance res' \<longrightarrow> pr_v_a res' \<in> chosen y) \<and>
      (pr_accept res' \<longrightarrow> prom_ok inst (pacc y b) (votes y b) (rn_n r) res')" if "(rid', b, res') \<in> preps ?z" for rid' b res'
    using that px_invD(4) [OF inv, of rid' b res'] r old acc by auto
  ultimately show ?thesis
    using px_invD(1,3,6,7) [OF inv] unfolding px_inv_def same by simp
qed

lemma inv_acceptor:
  assumes "px_inv inst nodes y" and "acc_ok inst ac' (votes y a) (chosen y)"
    and "\<And>n. 0 < pn n \<Longrightarrow> instance_h (pacc y a) = inst \<or> n \<le> n_h (pacc y a) \<Longrightarrow> instance_h ac' = inst \<or> n \<le> n_h ac'"
  shows "px_inv inst nodes (y\<lparr>pacc := (pacc y)(a := ac')\<rparr>)"
  using inv_pacc [OF assms, where P = "props y" and Q = "active y"] by simp

lemma pacc_same [simp]:
  "accrun (y\<lparr>pacc := A\<rparr>) = accrun y" "votes (y\<lparr>pacc := A\<rparr>) = votes y" "chosen (y\<lparr>pacc := A\<rparr>) = chosen y"
  by (auto simp: accrun_def votes_def chosen_def fun_eq_iff)

lemma inv_promise:
  assumes inv: "px_inv inst nodes y" and r: "prun y rid = Some r" and und: "instance_h (pacc y a) \<noteq> inst"
    and n: "n_h (pacc y a) < rn_n r"
    and ac': "ac' = (logprop (rn_n r) (pacc y a))\<lparr>n_h := rn_n r\<rparr>" and rec: "recovers ac'"
    and res: "pr_accept res" "\<not> pr_oldinstance res" "pr_n_a res = n_a (pacc y a)" "pr_v_a res = v_a (pacc y a)"
  shows "px_inv inst nodes (y\<lparr>pacc := (pacc y)(a := ac'), preps := insert (rid, a, res) (preps y)\<rparr>)"
proof -
  let ?z = "y\<lparr>pacc := (pacc y)(a := ac')\<rparr>"
  from px_invD(6) [OF inv, of a] und have A: "\<forall>(n, v)\<in>votes y a. n \<le> n_a (pacc y a)"
    "pn (n_a (pacc y a)) = 0 \<and> v_a (pacc y a) = [] \<or> (n_a (pacc y a), v_a (pacc y a)) \<in> votes y a"
    "instance_h (pacc y a) + 1 = inst" by (auto simp: acc_ok_def)
  have z: "px_inv inst nodes ?z"
  proof (rule inv_acceptor [OF inv])
    show "acc_ok inst ac' (votes y a) (chosen y)"
      using A rec by (simp add: acc_ok_def ac' logprop_def)
    show "instance_h ac' = inst \<or> k \<le> n_h ac'" if "instance_h (pacc y a) = inst \<or> k \<le> n_h (pacc y a)" for k
      using that und n by (auto simp: ac' logprop_def)
  qed
  have below: "n_a (pacc y a) < rn_n r" if "(n_a (pacc y a), v_a (pacc y a)) \<in> votes y a"
    using vote_below [OF inv und that] n by simp
  have "px_inv inst nodes (?z\<lparr>preps := insert (rid, a, res) (preps ?z)\<rparr>)"
  proof (rule inv_reply [OF z])
    show "prun ?z rid = Some r" using r by simp
    show "prom_ok inst (pacc ?z a) (votes ?z a) (rn_n r) res"
      using A(1,2) below res by (auto simp: prom_ok_def ac' logprop_def)
    show "rid2 = rid" if "(rid2, a, res2) \<in> preps ?z" "pr_accept res2" "prun ?z rid2 = Some r2" "rn_n r2 = rn_n r" for rid2 r2 res2
      using promise_below [OF inv und, of rid2 res2 r2] that n by auto
  qed (use res(2) in simp)
  then show ?thesis by simp
qed

lemma inv_prepare:
  assumes inv: "px_inv inst nodes y" and r: "prun y rid = Some r" and inst: "inst \<noteq> 0"
    and p: "preparereq \<lparr>pa_instance = inst, pa_n = rn_n r\<rparr> r0 (pacc y a) = ((st, res), ac')"
  shows "px_inv inst nodes (y\<lparr>pacc := (pacc y)(a := ac'), preps := insert (rid, a, res) (preps y)\<rparr>)"
proof -
  have word: "is_word (pm (rn_n r))" using px_invD(2) [OF inv r] by (simp add: run_ok_def)
  have rec: "recovers ac'"
    using preparereq_recovers [OF _ _ p] px_invD(6) [OF inv, of a] word by (simp add: acc_ok_def)
  show ?thesis
  proof (cases "instance_h (pacc y a) = inst")
    case True
    with px_invD(6) [OF inv, of a] inst have v: "map_at [] (vals (pacc y a)) inst \<in> chosen y"
      by (auto simp: acc_ok_def)
    from True p have ac': "ac' = snd (ac_value inst (pacc y a))"
      and res: "pr_oldinstance res" "\<not> pr_accept res" "pr_v_a res = map_at [] (vals (pacc y a)) inst"
      by (auto simp: preparereq_def ac_value_def)
    have "px_inv inst nodes (y\<lparr>pacc := (pacc y)(a := ac')\<rparr>)" (is "px_inv _ _ ?z")
    proof (rule inv_acceptor [OF inv])
      show "acc_ok inst ac' (votes y a) (chosen y)"
        using rec True v by (simp add: acc_ok_def ac' ac_value_def)
    qed (simp add: ac' ac_value_def)
    from inv_reply [OF this, of rid r res a] r v res show ?thesis by simp
  next
    case False
    with px_invD(6) [OF inv, of a] have "instance_h (pacc y a) + 1 = inst" by (auto simp: acc_ok_def)
    then have i: "\<not> inst \<le> instance_h (pacc y a)" using inst word_less_succ [of "instance_h (pacc y a)"] by auto
    show ?thesis
    proof (cases "n_h (pacc y a) < rn_n r")
      case True
      with i p have ac': "ac' = (logprop (rn_n r) (pacc y a))\<lparr>n_h := rn_n r\<rparr>"
        and res: "pr_accept res" "\<not> pr_oldinstance res" "pr_n_a res = n_a (pacc y a)" "pr_v_a res = v_a (pacc y a)"
        by (auto simp: preparereq_def Let_def logprop_def)
      show ?thesis by (rule inv_promise [OF inv r False True ac' rec res])
    next
      case no: False
      with i p have "ac' = pacc y a" "\<not> pr_accept res" "\<not> pr_oldinstance res"
        by (auto simp: preparereq_def)
      with inv_reply [OF inv r, of res a] show ?thesis by simp
    qed
  qed
qed

lemma prepare_value:
  assumes inv: "px_inv inst nodes y" and dist: "distinct nodes" and r: "prun y rid = Some r"
    and calls: "map fst calls = nodes" "\<And>m res. (m, Some res) \<in> set calls \<Longrightarrow> (rid, m, res) \<in> preps y"
    and p: "prepare calls = Inr (ns, v0)" "majority nodes ns"
  shows "(\<forall>a\<in>set ns. \<exists>res. (rid, a, res) \<in> preps y \<and> pr_accept res) \<and> newline \<notin> set v0 \<and>
         safe_at (votes y) (rn_n r) (set ns) (if length v0 = 0 then rn_newv r else v0)"
proof -
  from p(1) have ns: "ns = map fst (filter promise calls)"
    using prepare_loop_accepts [of calls None "[]" "[]" ns v0] by (simp add: prepare_def)
  have prom: "\<exists>res. (a, Some res) \<in> set calls \<and> promise (a, Some res)" if "a \<in> set ns" for a
    using that by (auto simp: ns split: option.splits)
  have ok: "prom_ok inst (pacc y a) (votes y a) (rn_n r) res" if "(a, Some res) \<in> set calls" "promise (a, Some res)" for a res
    using px_invD(4) [OF inv calls(2) [OF that(1)]] that(2) r by auto
  have "ns \<noteq> []" using majority_not_Nil [OF p(2)] by auto
  then obtain a1 res1 where "(a1, Some res1) \<in> set calls" "promise (a1, Some res1)" using prom by (metis last_in_set)
  with prepare_loop_highest [OF p(1) [unfolded prepare_def]] obtain m rm where
    m: "(m, Some rm) \<in> set calls" "promise (m, Some rm)" "v0 = pr_v_a rm"
    and hi: "\<And>a res. (a, Some res) \<in> set calls \<Longrightarrow> promise (a, Some res) \<Longrightarrow> pr_n_a res \<le> pr_n_a rm" by auto
  have low: "n' \<le> pr_n_a rm" if "a \<in> set ns" "(n', v') \<in> votes y a" "n' < rn_n r" for a n' v'
  proof -
    from prom [OF that(1)] obtain res where res: "(a, Some res) \<in> set calls" "promise (a, Some res)" by auto
    from ok [OF res] that(2,3) have "n' \<le> pr_n_a res" by (auto simp: prom_ok_def)
    with hi [OF res] show ?thesis by simp
  qed
  have "m \<in> set ns" using m(1,2) by (force simp: ns)
  from ok [OF m(1,2)] consider "pn (pr_n_a rm) = 0" "v0 = []" | "(pr_n_a rm, v0) \<in> votes y m" "pr_n_a rm < rn_n r"
    by (auto simp: prom_ok_def m(3))
  then have "newline \<notin> set v0 \<and> safe_at (votes y) (rn_n r) (set ns) (if length v0 = 0 then rn_newv r else v0)"
  proof cases
    case 1
    have "\<not> n' < rn_n r" if "a \<in> set ns" "(n', v') \<in> votes y a" for a n' v'
      using low [OF that] votes_ok [OF inv that(2)] prop_zero_less [OF 1(1), of n'] by auto
    with 1(2) show ?thesis by (auto simp: safe_at_def)
  next
    case 2
    have "safe_at (votes y) (rn_n r) (set ns) v0"
      unfolding safe_at_def using low 2 \<open>m \<in> set ns\<close> by (intro disjI2 bexI [of _ m] exI [of _ "pr_n_a rm"]) auto
    with votes_ok [OF inv 2(1)] show ?thesis by auto
  qed
  moreover have "\<exists>res. (rid, a, res) \<in> preps y \<and> pr_accept res" if "a \<in> set ns" for a
    using prom [OF that] calls(2) by auto
  ultimately show ?thesis by blast
qed

lemma run_prepared_SendAccept:
  assumes "run_prepared nodes newv res p = Inr (SendAccept ns v, p')"
  obtains v0 where "res = Inr (ns, v0)" "majority nodes ns" "v = (if length v0 = 0 then newv else v0)"
  using assms by (auto simp: run_prepared_def bind_f_eq_Inr split: sum.splits prod.splits if_splits)

text \<open>A run gets a new field that neither votes nor choices depend on yet.\<close>

lemma inv_run_update:
  assumes inv: "px_inv inst nodes y" and r: "prun y rid = Some r" and n: "rn_n r' = rn_n r"
    and acc: "accrun (y\<lparr>prun := (prun y)(rid \<mapsto> r')\<rparr>) = accrun y \<or> rn_acc r = None"
    and ok: "run_ok nodes (y\<lparr>prun := (prun y)(rid \<mapsto> r')\<rparr>) rid r'"
    and ch: "rn_dec r \<noteq> None \<Longrightarrow> rn_acc r' = rn_acc r \<and> rn_dec r' \<noteq> None"
    and vs: "votes (y\<lparr>prun := (prun y)(rid \<mapsto> r')\<rparr>) = votes y"
  shows "px_inv inst nodes (y\<lparr>props := P, active := Q, prun := (prun y)(rid \<mapsto> r')\<rparr>)" (is "px_inv _ _ ?z")
proof -
  have vz: "votes ?z = votes y" using vs by (simp add: votes_def accrun_def fun_eq_iff)
  have cz: "chosen y \<subseteq> chosen ?z" using r ch by (auto simp: chosen_def) (metis option.discI option.inject not_None_eq)
  have pz: "\<exists>q. prun ?z rid' = Some q \<and> rn_n q = rn_n q'" if "prun y rid' = Some q'" for rid' q'
    using that r n by (cases "rid' = rid") auto
  have "uniq ?z"
    unfolding uniq_def
  proof (intro allI impI)
    fix a rid1 rid2 r1 r2 res1 res2
    assume h: "(rid1, a, res1) \<in> preps ?z" "(rid2, a, res2) \<in> preps ?z" "pr_accept res1" "pr_accept res2"
      "prun ?z rid1 = Some r1" "prun ?z rid2 = Some r2" "rn_n r1 = rn_n r2"
    from h(5) r n obtain q1 where q1: "prun y rid1 = Some q1" "rn_n q1 = rn_n r1" by (auto split: if_splits)
    from h(6) r n obtain q2 where q2: "prun y rid2 = Some q2" "rn_n q2 = rn_n r2" by (auto split: if_splits)
    from h(1,2) have "(rid1, a, res1) \<in> preps y" "(rid2, a, res2) \<in> preps y" by simp_all
    from uniqD [OF px_invD(5) [OF inv] this h(3,4) q1(1) q2(1)] q1 q2 h(7) show "rid1 = rid2" by simp
  qed
  moreover have "run_ok nodes ?z rid' q" if "prun ?z rid' = Some q" for rid' q
  proof (cases "rid' = rid")
    case True
    with that have "q = r'" by simp
    show ?thesis unfolding True \<open>q = r'\<close> by (rule run_ok_mono [OF ok]) (simp_all add: vz vs)
  next
    case False
    with that have "prun y rid' = Some q" by simp
    from px_invD(2) [OF inv this] show ?thesis by (rule run_ok_mono) (simp_all add: vz)
  qed
  moreover have "\<exists>n ns v. accrun ?z rid' n ns v \<and> a \<in> set ns" if k: "(rid', a) \<in> accks y" for rid' a
  proof -
    obtain n1 ns1 v1 where a1: "accrun y rid' n1 ns1 v1" "a \<in> set ns1" using px_invD(3) [OF inv k] by blast
    have eq: "accrun ?z rid' n1 ns1 v1 = accrun (y\<lparr>prun := (prun y)(rid \<mapsto> r')\<rparr>) rid' n1 ns1 v1"
      by (simp add: accrun_def)
    have "accrun ?z rid' n1 ns1 v1"
      using acc
    proof
      assume "rn_acc r = None"
      with a1(1) r have "rid' \<noteq> rid" by (auto simp: accrun_def)
      with a1(1) show ?thesis by (simp add: accrun_def)
    qed (simp add: eq a1(1))
    with a1(2) show ?thesis by blast
  qed
  moreover have "\<exists>q. prun ?z rid' = Some q \<and> (pr_oldinstance res \<longrightarrow> pr_v_a res \<in> chosen ?z) \<and>
      (pr_accept res \<longrightarrow> prom_ok inst (pacc y a) (votes y a) (rn_n q) res)" if k: "(rid', a, res) \<in> preps y" for rid' a res
  proof -
    obtain q' where q': "prun y rid' = Some q'" "pr_oldinstance res \<longrightarrow> pr_v_a res \<in> chosen y"
      "pr_accept res \<longrightarrow> prom_ok inst (pacc y a) (votes y a) (rn_n q') res" using px_invD(4) [OF inv k] by blast
    obtain q where q: "prun ?z rid' = Some q" "rn_n q = rn_n q'" using pz [OF q'(1)] by blast
    have "pr_oldinstance res \<longrightarrow> pr_v_a res \<in> chosen ?z" using q'(2) subsetD [OF cz] by iprover
    with q q'(3) show ?thesis by simp
  qed
  moreover have "acc_ok inst (pacc y a) (votes y a) (chosen ?z)" for a
    using px_invD(6) [OF inv, of a] cz by (auto simp: acc_ok_def)
  ultimately show ?thesis
    using px_invD(1,7) [OF inv] unfolding px_inv_def vz by simp
qed

lemma inv_prepared:
  assumes inv: "px_inv inst nodes y" and dist: "distinct nodes" and r: "prun y rid = Some r" "rn_acc r = None"
    and calls: "map fst calls = nodes" "\<And>m res. (m, Some res) \<in> set calls \<Longrightarrow> (rid, m, res) \<in> preps y"
    and p: "run_prepared nodes (rn_newv r) (prepare calls) pr = Inr (SendAccept ns v, p')"
  shows "px_inv inst nodes (y\<lparr>props := P, prun := (prun y)(rid \<mapsto> r\<lparr>rn_acc := Some (ns, v)\<rparr>)\<rparr>)"
proof -
  obtain v0 where v0: "prepare calls = Inr (ns, v0)" "majority nodes ns" "v = (if length v0 = 0 then rn_newv r else v0)"
    using run_prepared_SendAccept [OF p] .
  note pv = prepare_value [OF inv dist r(1) calls v0(1,2)]
  note ro = px_invD(2) [OF inv r(1)]
  have "(rid, a) \<notin> accks y" for a using px_invD(3) [OF inv, of rid a] r by (auto simp: accrun_def)
  then have vs: "votes (y\<lparr>prun := (prun y)(rid \<mapsto> r\<lparr>rn_acc := Some (ns, v)\<rparr>)\<rparr>) = votes y"
    by (auto simp: votes_def accrun_def fun_eq_iff split: if_splits) metis
  have nodec: "rn_dec r = None" using ro r(2) by (auto simp: run_ok_def)
  have ok: "run_ok nodes (y\<lparr>prun := (prun y)(rid \<mapsto> r\<lparr>rn_acc := Some (ns, v)\<rparr>)\<rparr>) rid (r\<lparr>rn_acc := Some (ns, v)\<rparr>)"
    unfolding run_ok_def vs using pv ro nodec v0 by (auto simp: run_ok_def)
  from inv_run_update [OF inv r(1), of "r\<lparr>rn_acc := Some (ns, v)\<rparr>", where P = P and Q = "active y"] vs ok nodec r(2)
  show ?thesis by simp
qed

lemma inv_accepted:
  assumes inv: "px_inv inst nodes y" and r: "prun y rid = Some r" "rn_acc r = Some (ns, v)" "rn_dec r = None"
    and calls: "\<And>m. (m, Some True) \<in> set calls \<Longrightarrow> (rid, m) \<in> accks y"
    and p: "run_accepted nodes v (accept_loop calls) pr = Inr (SendDecide ms w, p')"
  shows "px_inv inst nodes (y\<lparr>props := P, active := Q, prun := (prun y)(rid \<mapsto> r\<lparr>rn_dec := Some ms\<rparr>)\<rparr>)"
proof -
  from p have ms: "ms = accept_loop calls" "majority nodes ms"
    by (auto simp: run_accepted_def bind_f_eq_Inr split: if_splits)
  have acc: "accrun (y\<lparr>prun := (prun y)(rid \<mapsto> r\<lparr>rn_dec := Some ms\<rparr>)\<rparr>) = accrun y"
    using r by (auto simp: accrun_def fun_eq_iff)
  then have vs: "votes (y\<lparr>prun := (prun y)(rid \<mapsto> r\<lparr>rn_dec := Some ms\<rparr>)\<rparr>) = votes y"
    by (intro ext) (simp add: votes_def)
  have "(rid, a) \<in> accks y" if "a \<in> set ms" for a
    using accept_loop_set [of a calls] calls that ms(1) by blast
  then have "run_ok nodes (y\<lparr>prun := (prun y)(rid \<mapsto> r\<lparr>rn_dec := Some ms\<rparr>)\<rparr>) rid (r\<lparr>rn_dec := Some ms\<rparr>)"
    using px_invD(2) [OF inv r(1)] r ms(2) by (auto simp: run_ok_def vs)
  with inv_run_update [OF inv r(1), of "r\<lparr>rn_dec := Some ms\<rparr>", where P = P and Q = Q] acc vs r show ?thesis by simp
qed

lemma safe_at_insert:
  assumes "safe_at V n' Q v'" and "a \<in> Q \<Longrightarrow> \<not> n < n'"
  shows "safe_at (V(a := insert (n, v) (V a))) n' Q v'"
proof -
  have new: "n1 < n' \<Longrightarrow> b \<in> Q \<Longrightarrow> (n1, v1) \<in> (V(a := insert (n, v) (V a))) b \<Longrightarrow> (n1, v1) \<in> V b" for n1 v1 b
    using assms(2) by (auto split: if_splits)
  from assms(1) show ?thesis
    unfolding safe_at_def
  proof (elim disjE, goal_cases)
    case 1
    with new show ?case by blast
  next
    case 2
    then obtain a0 n0 where a0: "a0 \<in> Q" "(n0, v') \<in> V a0" "n0 < n'"
      "\<forall>a\<in>Q. \<forall>(n1, v1)\<in>V a. n1 < n' \<longrightarrow> n1 \<le> n0" by blast
    have "(n0, v') \<in> (V(a := insert (n, v) (V a))) a0" using a0(2) by auto
    with a0 new show ?case by (intro disjI2 bexI [of _ a0] exI [of _ n0]) blast+
  qed
qed

lemma inv_accept:
  assumes inv: "px_inv inst nodes y" and r: "prun y rid = Some r" "rn_acc r = Some (ns, v)" and a: "a \<in> set ns"
    and und: "instance_h (pacc y a) < inst"
    and p: "acceptreq \<lparr>aa_instance = inst, aa_n = rn_n r, aa_v = v\<rparr> (pacc y a) = ((st, b), ac')"
  shows "px_inv inst nodes (y\<lparr>pacc := (pacc y)(a := ac'), accks := (if b then insert (rid, a) (accks y) else accks y)\<rparr>)"
proof (cases b)
  case False
  with p have "ac' = pacc y a" by (auto simp: acceptreq_def split: if_splits)
  with False inv show ?thesis by simp
next
  case True
  let ?A = "pacc y a" and ?n = "rn_n r"
  let ?z = "y\<lparr>pacc := (pacc y)(a := ac'), accks := insert (rid, a) (accks y)\<rparr>"
  note ro = px_invD(2) [OF inv r(1)]
  have und': "instance_h ?A \<noteq> inst" using und by auto
  with px_invD(6) [OF inv, of a] have i: "instance_h ?A + 1 = inst" and rec: "recovers ?A" by (auto simp: acc_ok_def)
  from True p have n: "n_h ?A \<le> ?n" and ac': "ac' = (logaccept ?n v ?A)\<lparr>n_a := ?n, v_a := v\<rparr>"
    by (auto simp: acceptreq_def split: if_splits)
  from ro r a obtain res where "(rid, a, res) \<in> preps y" "pr_accept res" by (auto simp: run_ok_def)
  from promise_below [OF inv und' this r(1)] n have nh: "n_h ?A = ?n" by simp
  have rec': "recovers ac'"
    by (rule acceptreq_recovers [OF rec _ _ p]) (use ro r in \<open>auto simp: run_ok_def\<close>)
  have acc: "accrun ?z = accrun y" "chosen ?z = chosen y" "uniq ?z = uniq y"
    by (auto simp: accrun_def chosen_def uniq_def fun_eq_iff)
  have one: "accrun y rid n' ns' v' \<longleftrightarrow> n' = ?n \<and> ns' = ns \<and> v' = v" for n' ns' v'
    using r by (auto simp: accrun_def)
  have mem: "(n', v') \<in> votes ?z c \<longleftrightarrow> c = a \<and> n' = ?n \<and> v' = v \<or> (n', v') \<in> votes y c" for n' v' c
  proof -
    have "(n', v') \<in> votes ?z c \<longleftrightarrow> (\<exists>rid' ns'. ((rid', c) = (rid, a) \<or> (rid', c) \<in> accks y) \<and> accrun y rid' n' ns' v')"
      unfolding votes_def acc by simp
    also have "\<dots> \<longleftrightarrow> c = a \<and> (\<exists>ns'. accrun y rid n' ns' v') \<or> (n', v') \<in> votes y c"
      unfolding votes_def by auto
    finally show ?thesis by (simp add: one)
  qed
  then have vs: "votes ?z = (votes y)(a := insert (?n, v) (votes y a))"
    by (intro ext set_eqI) (auto simp: mem)
  have A': "instance_h ac' = instance_h ?A" "n_h ac' = n_h ?A" "n_a ac' = ?n" "v_a ac' = v"
    by (simp_all add: ac' logaccept_def)
  have "acc_ok inst ac' (insert (?n, v) (votes y a)) (chosen y)"
    using vote_below [OF inv und'] rec' i nh by (auto simp: acc_ok_def A')
  then have "acc_ok inst (pacc ?z c) (votes ?z c) (chosen ?z)" for c
    unfolding vs acc using px_invD(6) [OF inv, of c] by simp
  moreover have "run_ok nodes ?z rid' q" if q: "prun y rid' = Some q" for rid' q
  proof (rule run_ok_mono [OF px_invD(2) [OF inv q]])
    fix n' Q v' assume s: "safe_at (votes y) n' Q v'" "rn_n q = n'" "rn_acc q \<noteq> None" "set (fst (the (rn_acc q))) = Q"
    have "\<not> ?n < n'" if "a \<in> Q"
    proof -
      from px_invD(2) [OF inv q] s(3,4) that have "\<exists>res. (rid', a, res) \<in> preps y \<and> pr_accept res"
        by (auto simp: run_ok_def)
      then obtain res where "(rid', a, res) \<in> preps y" "pr_accept res" by blast
      from promise_below [OF inv und' this q] s(2) nh show ?thesis by auto
    qed
    from safe_at_insert [OF s(1) this] show "safe_at (votes ?z) n' Q v'" by (simp add: vs)
  qed auto
  moreover have "\<exists>q. prun y rid' = Some q \<and> (pr_oldinstance res' \<longrightarrow> pr_v_a res' \<in> chosen y) \<and>
      (pr_accept res' \<longrightarrow> prom_ok inst (pacc ?z b) (votes ?z b) (rn_n q) res')" if h: "(rid', b, res') \<in> preps y" for rid' b res'
  proof -
    obtain q where q: "prun y rid' = Some q" "pr_oldinstance res' \<longrightarrow> pr_v_a res' \<in> chosen y"
      "pr_accept res' \<longrightarrow> prom_ok inst (pacc y b) (votes y b) (rn_n q) res'" using px_invD(4) [OF inv h] by blast
    have "rn_n q \<le> ?n" if "pr_accept res'" "b = a"
      using promise_below [OF inv und' _ that(1) q(1)] h that(2) nh by simp
    then have "prom_ok inst (pacc ?z b) (votes ?z b) (rn_n q) res'" if "pr_accept res'"
      using q(3) that unfolding vs by (auto simp: prom_ok_def A')
    with q show ?thesis by blast
  qed
  moreover have "\<exists>n ns v. accrun y rid' n ns v \<and> b \<in> set ns" if "(rid', b) \<in> accks ?z" for rid' b
    using that px_invD(3) [OF inv, of rid' b] a r by (auto simp: accrun_def)
  ultimately have "px_inv inst nodes ?z"
    using px_invD(1,5,7) [OF inv] acc unfolding px_inv_def by simp
  with True show ?thesis by simp
qed

section \<open>Safety\<close>

lemma px_start_inv:
  assumes "px_start inst y"
  shows "px_inv inst nodes y"
proof -
  have "votes y a = {}" "chosen y = {}" for a
    using assms by (auto simp: px_start_def votes_def chosen_def)
  with assms show ?thesis
    by (auto simp: px_start_def px_inv_def acc_ok_def uniq_def)
qed

lemma px_step_inv:
  assumes inv: "px_inv inst nodes y" and dist: "distinct nodes" and inst: "inst \<noteq> 0"
    and step: "px_step False inst nodes y z"
  shows "px_inv inst nodes z"
  using step
proof cases
  case (px_begin p p' rid newv)
  with inv_begin [OF inv] show ?thesis by simp
next
  case (px_prepare rid r a r0 st res ac')
  with inv_prepare [OF inv _ inst] show ?thesis by simp
next
  case (px_commit_old p rid r calls v p')
  from px_commit_old(7) have "prepare calls = Inl v"
    by (auto simp: run_prepared_def bind_f_eq_Inr split: sum.splits prod.splits if_splits)
  then obtain m res where "(m, Some res) \<in> set calls" "pr_oldinstance res" "v = pr_v_a res"
    using prepare_loop_old [of calls None "[]" "[]" v] by (auto simp: prepare_def)
  with px_commit_old(6) px_invD(4) [OF inv, of rid m res] have "v \<in> chosen y" by auto
  from inv_commit [OF inv this inst] px_commit_old(1) show ?thesis by (simp add: ac_commit_def)
next
  case (px_prepared p rid r calls ns v p')
  with inv_prepared [OF inv dist px_prepared(3-6)] show ?thesis by simp
next
  case (px_accept rid r ns v a st b ac')
  with inv_accept [OF inv] show ?thesis by simp
next
  case (px_accepted p rid r ns v calls ms w p')
  with inv_accepted [OF inv px_accepted(3-5,7)] show ?thesis by simp
next
  case (px_give_up p rid p')
  with inv_quiet [OF inv] show ?thesis by simp
next
  case (px_decide rid r ns v ms a d st ac' up)
  then have a: "a \<in> set ms" and d: "d = \<lparr>da_instance = inst, da_v = v\<rparr>" by (simp_all add: decide_iff)
  from px_decide(1,6) inv_decide [OF inv dist inst px_decide(2-4) a] show ?thesis by (auto simp: d)
next
  case (px_decide_fails rid r ns v ms a d e)
  then have a: "a \<in> set ms" and d: "d = \<lparr>da_instance = inst, da_v = v\<rparr>" by (simp_all add: decide_iff)
  from px_decide_fails(1,6) inv_decide [OF inv dist inst px_decide_fails(2-4) a] show ?thesis by (auto simp: d)
next
  case (px_crash p ac')
  with inv_crash [OF inv] show ?thesis by simp
qed

interpretation paxos: step_invariant "px_start inst" "px_step False inst nodes"
  "\<lambda>y. distinct nodes \<longrightarrow> inst \<noteq> 0 \<longrightarrow> px_inv inst nodes y" for inst nodes
  using px_start_inv px_step_inv by unfold_locales blast+


section \<open>A run with a late accept request\<close>

text \<open>The successful outcomes of the acceptor's operations, and the steps that make them.\<close>

definition promised :: "prop_t \<Rightarrow> acceptor \<Rightarrow> acceptor" where
  "promised n ac = (logprop n ac)\<lparr>n_h := n\<rparr>"

definition accepted :: "prop_t \<Rightarrow> string \<Rightarrow> acceptor \<Rightarrow> acceptor" where
  "accepted n v ac = (logaccept n v ac)\<lparr>n_a := n, v_a := v\<rparr>"

definition committed :: "string \<Rightarrow> acceptor \<Rightarrow> acceptor" where
  "committed v ac = fst (commit_wo True 1 v ac)"

definition yes :: prepareres where
  "yes = \<lparr>pr_oldinstance = False, pr_accept = True, pr_n_a = Prop 0 [], pr_v_a = []\<rparr>"

lemma outcome_simps [simp]:
  "n_h (promised n ac) = n" "v_a (promised n ac) = v_a ac" "n_a (promised n ac) = n_a ac"
  "instance_h (promised n ac) = instance_h ac"
  "n_h (accepted n v ac) = n_h ac" "v_a (accepted n v ac) = v" "instance_h (accepted n v ac) = instance_h ac"
  "vals (accepted n v ac) = vals ac"
  "instance_h ac = 0 \<Longrightarrow> pn (n_h (committed v ac)) = 0" "instance_h ac = 0 \<Longrightarrow> instance_h (committed v ac) = 1"
  "instance_h ac = 0 \<Longrightarrow> vals (committed v ac) 1 = Some v"
  by (simp_all add: promised_def accepted_def committed_def commit_wo_def logprop_def logaccept_def loginstance_def)

text \<open>The members, and an acceptor at the start of the first instance.\<close>

definition demo_nodes :: "string list" where
  "demo_nodes = [''a'', ''b'', ''c'']"

abbreviation px_reach :: "bool \<Rightarrow> px_sys \<Rightarrow> bool" where
  "px_reach late \<equiv> reach (px_start 1) (px_step late 1 demo_nodes)"

definition fresh :: "string \<Rightarrow> acceptor" where
  "fresh m = (acceptor_fresh m [])\<lparr>n_a := Prop 0 []\<rparr>"

lemma fresh_simps [simp]: "n_h (fresh m) = Prop 0 m" "n_a (fresh m) = Prop 0 []" "v_a (fresh m) = []" "instance_h (fresh m) = 0"
  by (simp_all add: fresh_def acceptor_fresh_def)

lemma recovers_fresh_member: "recovers (fresh m)"
  by (rule recovers_same_log [OF recovers_fresh [of m]])
    (auto simp: fresh_def acceptor_fresh_def acc_eqv_def prop_eqv_def)

lemma demo_begin:
  assumes "px_reach late y" and "stable (props y p)" and "prun y rid = None" and "n = my_n (setn (n_h (pacc y p)) (props y p))"
    and "0 < pn n" "is_word (pm n)" "v \<noteq> []" "newline \<notin> set v"
  shows "px_reach late (y\<lparr>props := (props y)(p := (props y p)\<lparr>stable := False, my_n := n\<rparr>), active := (active y)(p := Some rid),
     prun := (prun y)(rid \<mapsto> \<lparr>rn_n = n, rn_newv = v, rn_acc = None, rn_dec = None\<rparr>)\<rparr>)"
proof -
  have "run_begin (n_h (pacc y p)) (props y p) = Some ((props y p)\<lparr>stable := False, my_n := n\<rparr>)"
    using assms(2,4) by (simp add: run_begin_def setn_def)
  from px_begin [OF this assms(3)] assms(5-8) reach_step [OF assms(1)] show ?thesis by simp
qed

lemma demo_prepare:
  assumes "px_reach late y" and "prun y rid = Some r" and "a \<in> set demo_nodes" and "instance_h (pacc y a) = 0"
    and "n_h (pacc y a) < rn_n r" "n_a (pacc y a) = Prop 0 []" "v_a (pacc y a) = []"
  shows "px_reach late (y\<lparr>pacc := (pacc y)(a := promised (rn_n r) (pacc y a)), preps := insert (rid, a, yes) (preps y)\<rparr>)"
proof -
  have "preparereq \<lparr>pa_instance = 1, pa_n = rn_n r\<rparr> yes (pacc y a) = ((0, yes), promised (rn_n r) (pacc y a))"
    using assms(4-7) by (simp add: preparereq_def promised_def logprop_def yes_def)
  from reach_step [OF assms(1) px_prepare [OF assms(2,3) this]] show ?thesis .
qed

lemma demo_prepared:
  assumes "px_reach late y" and "active y p = Some rid" and "prun y rid = Some r" "rn_acc r = None"
    and "ns = filter f demo_nodes" and "majority demo_nodes ns" and "\<And>m. m \<in> set ns \<Longrightarrow> (rid, m, yes) \<in> preps y"
    and "\<not> break1 (props y p)"
  shows "px_reach late (y\<lparr>prun := (prun y)(rid \<mapsto> r\<lparr>rn_acc := Some (ns, rn_newv r)\<rparr>)\<rparr>)"
proof -
  define calls where "calls = map (\<lambda>m. (m, if f m then Some yes else None)) demo_nodes"
  have loop: "prepare_loop (map (\<lambda>m. (m, if f m then Some yes else None)) ms) hi acs [] = Inr (acs @ filter f ms, [])" for ms hi acs
    by (induction ms arbitrary: hi acs) (auto simp: yes_def)
  have 1: "map fst calls = demo_nodes" by (simp add: calls_def comp_def)
  have 2: "(rid, m, res) \<in> preps y" if "(m, Some res) \<in> set calls" for m res
    using that assms(5,7) by (auto simp: calls_def split: if_splits)
  have 3: "run_prepared demo_nodes (rn_newv r) (prepare calls) (props y p) = Inr (SendAccept ns (rn_newv r), props y p)"
    using assms(5,6,8) by (simp add: run_prepared_def prepare_def calls_def loop breakpoint1_def)
  from reach_step [OF assms(1) px_prepared [OF assms(2-4) 1 2 3]] show ?thesis by simp
qed

lemma demo_accept:
  assumes "px_reach late y" and "prun y rid = Some r" "rn_acc r = Some (ns, v)" and "a \<in> set ns"
    and "late \<or> instance_h (pacc y a) = 0" and "n_h (pacc y a) \<le> rn_n r"
  shows "px_reach late (y\<lparr>pacc := (pacc y)(a := accepted (rn_n r) v (pacc y a)), accks := insert (rid, a) (accks y)\<rparr>)"
proof -
  have "acceptreq \<lparr>aa_instance = 1, aa_n = rn_n r, aa_v = v\<rparr> (pacc y a) = ((0, True), accepted (rn_n r) v (pacc y a))"
    using assms(6) by (simp add: acceptreq_def accepted_def)
  moreover have "late \<or> instance_h (pacc y a) < 1" using assms(5) by auto
  ultimately show ?thesis using reach_step [OF assms(1) px_accept [OF assms(2-4)]] by force
qed

lemma demo_accepted:
  assumes "px_reach late y" and "active y p = Some rid" and "prun y rid = Some r" "rn_acc r = Some (ns, v)" "rn_dec r = None"
    and "majority demo_nodes ns" and "\<And>m. m \<in> set ns \<Longrightarrow> (rid, m) \<in> accks y" and "\<not> break2 (props y p)"
  shows "px_reach late (y\<lparr>props := (props y)(p := (props y p)\<lparr>stable := True\<rparr>), active := (active y)(p := None),
     prun := (prun y)(rid \<mapsto> r\<lparr>rn_dec := Some ns\<rparr>)\<rparr>)"
proof -
  define calls where "calls = map (\<lambda>m. (m, Some True)) ns"
  have "accept_loop (map (\<lambda>m. (m, Some True)) ms) = ms" for ms by (induction ms) auto
  then have 3: "run_accepted demo_nodes v (accept_loop calls) (props y p) = Inr (SendDecide ns v, (props y p)\<lparr>stable := True\<rparr>)"
    using assms(6,8) by (simp add: run_accepted_def calls_def breakpoint2_def)
  have 1: "map fst calls = ns" by (simp add: calls_def comp_def)
  have 2: "(rid, m) \<in> accks y" if "(m, Some True) \<in> set calls" for m using that assms(7) by (auto simp: calls_def)
  from reach_step [OF assms(1) px_accepted [OF assms(2-5) 1 2 3]] show ?thesis .
qed

lemma demo_decide:
  assumes "px_reach late y" and "prun y rid = Some r" "rn_acc r = Some (ns, v)" "rn_dec r = Some ms" and "a \<in> set ms"
    and "instance_h (pacc y a) = 0" and "v_a (pacc y a) = v"
  shows "px_reach late (y\<lparr>pacc := (pacc y)(a := committed v (pacc y a))\<rparr>)"
proof -
  obtain ac' up where c: "commit_wo True 1 v (pacc y a) = (ac', up)" by (metis prod.exhaust)
  then have "decidereq True \<lparr>da_instance = 1, da_v = v\<rparr> (pacc y a) = Inr (0, ac', up)"
    using assms(6,7) by (simp add: decidereq_def)
  moreover have "(a, \<lparr>da_instance = 1, da_v = v\<rparr>) \<in> set (decide 1 ms v)" using assms(5) by (simp add: decide_iff)
  ultimately have "px_step late 1 demo_nodes y (y\<lparr>pacc := (pacc y)(a := ac')\<rparr>)" by (intro px_decide [OF assms(2-4)])
  from reach_step [OF assms(1) this] c show ?thesis by (simp add: committed_def)
qed

text \<open>
  The proposer at \<open>a\<close> prepares at all three members. Before it goes on, the proposer at \<open>b\<close> runs with a higher
  number at \<open>a\<close> and \<open>b\<close> and decides its value there.
\<close>

definition n1 :: prop_t where
  "n1 = Prop 1 ''a''"

definition n2 :: prop_t where
  "n2 = Prop 2 ''b''"

definition demo0 :: px_sys where
  "demo0 = \<lparr>pacc = fresh, props = proposer_init, active = \<lambda>_. None, prun = Map.empty, preps = {}, accks = {},
     stopped = False\<rparr>"

definition demo1 :: px_sys where
  "demo1 = demo0\<lparr>props := (props demo0)(''a'' := (props demo0 ''a'')\<lparr>stable := False, my_n := n1\<rparr>),
     active := (active demo0)(''a'' := Some 0),
     prun := (prun demo0)(0 \<mapsto> \<lparr>rn_n = n1, rn_newv = ''v'', rn_acc = None, rn_dec = None\<rparr>)\<rparr>"

definition demo_promise :: "nat \<Rightarrow> prop_t \<Rightarrow> string \<Rightarrow> px_sys \<Rightarrow> px_sys" where
  "demo_promise rid n m y = y\<lparr>pacc := (pacc y)(m := promised n (pacc y m)), preps := insert (rid, m, yes) (preps y)\<rparr>"

definition demo_vote :: "nat \<Rightarrow> prop_t \<Rightarrow> string \<Rightarrow> string \<Rightarrow> px_sys \<Rightarrow> px_sys" where
  "demo_vote rid n v m y = y\<lparr>pacc := (pacc y)(m := accepted n v (pacc y m)), accks := insert (rid, m) (accks y)\<rparr>"

definition demo_commit :: "string \<Rightarrow> string \<Rightarrow> px_sys \<Rightarrow> px_sys" where
  "demo_commit v m y = y\<lparr>pacc := (pacc y)(m := committed v (pacc y m))\<rparr>"

definition demo2 :: px_sys where
  "demo2 = demo_promise 0 n1 ''c'' (demo_promise 0 n1 ''b'' (demo_promise 0 n1 ''a'' demo1))"

definition demo3 :: px_sys where
  "demo3 = demo2\<lparr>props := (props demo2)(''b'' := (props demo2 ''b'')\<lparr>stable := False, my_n := n2\<rparr>),
     active := (active demo2)(''b'' := Some 1),
     prun := (prun demo2)(1 \<mapsto> \<lparr>rn_n = n2, rn_newv = ''w'', rn_acc = None, rn_dec = None\<rparr>)\<rparr>"

definition demo4 :: px_sys where
  "demo4 = demo_promise 1 n2 ''b'' (demo_promise 1 n2 ''a'' demo3)"

definition demo5 :: px_sys where
  "demo5 = demo4\<lparr>prun := (prun demo4)(1 \<mapsto> \<lparr>rn_n = n2, rn_newv = ''w'', rn_acc = Some ([''a'', ''b''], ''w''), rn_dec = None\<rparr>)\<rparr>"

definition demo6 :: px_sys where
  "demo6 = demo_vote 1 n2 ''w'' ''b'' (demo_vote 1 n2 ''w'' ''a'' demo5)"

definition demo7 :: px_sys where
  "demo7 = demo6\<lparr>props := (props demo6)(''b'' := (props demo6 ''b'')\<lparr>stable := True\<rparr>), active := (active demo6)(''b'' := None),
     prun := (prun demo6)(1 \<mapsto> \<lparr>rn_n = n2, rn_newv = ''w'', rn_acc = Some ([''a'', ''b''], ''w''), rn_dec = Some [''a'', ''b'']\<rparr>)\<rparr>"

definition demo8 :: px_sys where
  "demo8 = demo_commit ''w'' ''b'' (demo_commit ''w'' ''a'' demo7)"

lemma n12 [simp]: "Prop 0 m < n1" "Prop 0 m < n2" "n1 < n2" "pn n1 = 1" "pn n2 = 2" "is_word (pm n1)" "is_word (pm n2)"
  by (simp_all add: n1_def n2_def less_prop_t_def prop_gt_def is_word_def isspace_def del: prop_gt_less)

lemmas demo_ops = demo_promise_def demo_vote_def demo_commit_def

lemma demo_promise_reach:
  assumes "px_reach late y" and "prun y rid = Some r" "rn_n r = n" and "a \<in> set demo_nodes" and "instance_h (pacc y a) = 0"
    and "n_h (pacc y a) < n" "n_a (pacc y a) = Prop 0 []" "v_a (pacc y a) = []"
  shows "px_reach late (demo_promise rid n a y)"
  using demo_prepare [OF assms(1,2,4,5), unfolded assms(3), OF assms(6-8)] by (simp add: demo_ops)

lemma demo_vote_reach:
  assumes "px_reach late y" and "prun y rid = Some r" "rn_acc r = Some (ns, v)" "rn_n r = n" and "a \<in> set ns"
    and "late \<or> instance_h (pacc y a) = 0" and "n_h (pacc y a) \<le> n"
  shows "px_reach late (demo_vote rid n v a y)"
  using demo_accept [OF assms(1-3,5,6), unfolded assms(4), OF assms(7)] by (simp add: demo_ops)

lemma demo_commit_reach:
  assumes "px_reach late y" and "prun y rid = Some r" "rn_acc r = Some (ns, v)" "rn_dec r = Some ms" and "a \<in> set ms"
    and "instance_h (pacc y a) = 0" and "v_a (pacc y a) = v"
  shows "px_reach late (demo_commit v a y)"
  using demo_decide [OF assms] by (simp add: demo_ops)

lemma demo_prepared_reach:
  assumes "px_reach late y" and "active y p = Some rid"
    and "prun y rid = Some \<lparr>rn_n = n, rn_newv = v, rn_acc = None, rn_dec = None\<rparr>"
    and "ns = filter f demo_nodes" and "majority demo_nodes ns" and "\<And>m. m \<in> set ns \<Longrightarrow> (rid, m, yes) \<in> preps y"
    and "\<not> break1 (props y p)"
  shows "px_reach late (y\<lparr>prun := (prun y)(rid \<mapsto> \<lparr>rn_n = n, rn_newv = v, rn_acc = Some (ns, v), rn_dec = None\<rparr>)\<rparr>)"
  using demo_prepared [OF assms(1-3) _ assms(4-7)] by simp

lemma demo_accepted_reach:
  assumes "px_reach late y" and "active y p = Some rid"
    and "prun y rid = Some \<lparr>rn_n = n, rn_newv = v, rn_acc = Some (ns, v), rn_dec = None\<rparr>"
    and "majority demo_nodes ns" and "\<And>m. m \<in> set ns \<Longrightarrow> (rid, m) \<in> accks y" and "\<not> break2 (props y p)"
  shows "px_reach late (y\<lparr>props := (props y)(p := (props y p)\<lparr>stable := True\<rparr>), active := (active y)(p := None),
     prun := (prun y)(rid \<mapsto> \<lparr>rn_n = n, rn_newv = v, rn_acc = Some (ns, v), rn_dec = Some ns\<rparr>)\<rparr>)"
  using demo_accepted [OF assms(1-3) _ _ assms(4-6)] by simp

text \<open>The components of the states.\<close>

lemma demo1_sel [simp]:
  "pacc demo1 = fresh"
  "props demo1 = proposer_init(''a'' := (proposer_init ''a'')\<lparr>stable := False, my_n := n1\<rparr>)"
  "active demo1 = (\<lambda>_. None)(''a'' := Some 0)"
  "prun demo1 = [0 \<mapsto> \<lparr>rn_n = n1, rn_newv = ''v'', rn_acc = None, rn_dec = None\<rparr>]"
  "preps demo1 = {}"
  "accks demo1 = {}"
  by (auto simp: demo1_def demo0_def demo_ops fun_eq_iff)

lemma demo2_sel [simp]:
  "pacc demo2 = fresh(''a'' := promised n1 (fresh ''a''), ''b'' := promised n1 (fresh ''b''), ''c'' := promised n1 (fresh ''c''))"
  "props demo2 = proposer_init(''a'' := (proposer_init ''a'')\<lparr>stable := False, my_n := n1\<rparr>)"
  "active demo2 = (\<lambda>_. None)(''a'' := Some 0)"
  "prun demo2 = [0 \<mapsto> \<lparr>rn_n = n1, rn_newv = ''v'', rn_acc = None, rn_dec = None\<rparr>]"
  "preps demo2 = {(0, ''a'', yes), (0, ''b'', yes), (0, ''c'', yes)}"
  "accks demo2 = {}"
  by (auto simp: demo2_def demo_ops fun_eq_iff)

lemma demo3_sel [simp]:
  "pacc demo3 = fresh(''a'' := promised n1 (fresh ''a''), ''b'' := promised n1 (fresh ''b''), ''c'' := promised n1 (fresh ''c''))"
  "props demo3 = proposer_init(''a'' := (proposer_init ''a'')\<lparr>stable := False, my_n := n1\<rparr>, ''b'' := (proposer_init ''b'')\<lparr>stable := False, my_n := n2\<rparr>)"
  "active demo3 = (\<lambda>_. None)(''a'' := Some 0, ''b'' := Some 1)"
  "prun demo3 = [0 \<mapsto> \<lparr>rn_n = n1, rn_newv = ''v'', rn_acc = None, rn_dec = None\<rparr>, 1 \<mapsto> \<lparr>rn_n = n2, rn_newv = ''w'', rn_acc = None, rn_dec = None\<rparr>]"
  "preps demo3 = {(0, ''a'', yes), (0, ''b'', yes), (0, ''c'', yes)}"
  "accks demo3 = {}"
  by (auto simp: demo3_def demo_ops fun_eq_iff)

lemma demo4_sel [simp]:
  "pacc demo4 = fresh(''a'' := promised n2 (promised n1 (fresh ''a'')), ''b'' := promised n2 (promised n1 (fresh ''b'')), ''c'' := promised n1 (fresh ''c''))"
  "props demo4 = proposer_init(''a'' := (proposer_init ''a'')\<lparr>stable := False, my_n := n1\<rparr>, ''b'' := (proposer_init ''b'')\<lparr>stable := False, my_n := n2\<rparr>)"
  "active demo4 = (\<lambda>_. None)(''a'' := Some 0, ''b'' := Some 1)"
  "prun demo4 = [0 \<mapsto> \<lparr>rn_n = n1, rn_newv = ''v'', rn_acc = None, rn_dec = None\<rparr>, 1 \<mapsto> \<lparr>rn_n = n2, rn_newv = ''w'', rn_acc = None, rn_dec = None\<rparr>]"
  "preps demo4 = {(0, ''a'', yes), (0, ''b'', yes), (0, ''c'', yes), (1, ''a'', yes), (1, ''b'', yes)}"
  "accks demo4 = {}"
  by (auto simp: demo4_def demo_ops fun_eq_iff)

lemma demo5_sel [simp]:
  "pacc demo5 = fresh(''a'' := promised n2 (promised n1 (fresh ''a'')), ''b'' := promised n2 (promised n1 (fresh ''b'')), ''c'' := promised n1 (fresh ''c''))"
  "props demo5 = proposer_init(''a'' := (proposer_init ''a'')\<lparr>stable := False, my_n := n1\<rparr>, ''b'' := (proposer_init ''b'')\<lparr>stable := False, my_n := n2\<rparr>)"
  "active demo5 = (\<lambda>_. None)(''a'' := Some 0, ''b'' := Some 1)"
  "prun demo5 = [0 \<mapsto> \<lparr>rn_n = n1, rn_newv = ''v'', rn_acc = None, rn_dec = None\<rparr>, 1 \<mapsto> \<lparr>rn_n = n2, rn_newv = ''w'', rn_acc = Some ([''a'', ''b''], ''w''), rn_dec = None\<rparr>]"
  "preps demo5 = {(0, ''a'', yes), (0, ''b'', yes), (0, ''c'', yes), (1, ''a'', yes), (1, ''b'', yes)}"
  "accks demo5 = {}"
  by (auto simp: demo5_def demo_ops fun_eq_iff)

lemma demo6_sel [simp]:
  "pacc demo6 = fresh(''a'' := accepted n2 ''w'' (promised n2 (promised n1 (fresh ''a''))), ''b'' := accepted n2 ''w'' (promised n2 (promised n1 (fresh ''b''))), ''c'' := promised n1 (fresh ''c''))"
  "props demo6 = proposer_init(''a'' := (proposer_init ''a'')\<lparr>stable := False, my_n := n1\<rparr>, ''b'' := (proposer_init ''b'')\<lparr>stable := False, my_n := n2\<rparr>)"
  "active demo6 = (\<lambda>_. None)(''a'' := Some 0, ''b'' := Some 1)"
  "prun demo6 = [0 \<mapsto> \<lparr>rn_n = n1, rn_newv = ''v'', rn_acc = None, rn_dec = None\<rparr>, 1 \<mapsto> \<lparr>rn_n = n2, rn_newv = ''w'', rn_acc = Some ([''a'', ''b''], ''w''), rn_dec = None\<rparr>]"
  "preps demo6 = {(0, ''a'', yes), (0, ''b'', yes), (0, ''c'', yes), (1, ''a'', yes), (1, ''b'', yes)}"
  "accks demo6 = {(1, ''a''), (1, ''b'')}"
  by (auto simp: demo6_def demo_ops fun_eq_iff)

lemma demo7_sel [simp]:
  "pacc demo7 = fresh(''a'' := accepted n2 ''w'' (promised n2 (promised n1 (fresh ''a''))), ''b'' := accepted n2 ''w'' (promised n2 (promised n1 (fresh ''b''))), ''c'' := promised n1 (fresh ''c''))"
  "props demo7 = proposer_init(''a'' := (proposer_init ''a'')\<lparr>stable := False, my_n := n1\<rparr>, ''b'' := (proposer_init ''b'')\<lparr>stable := True, my_n := n2\<rparr>)"
  "active demo7 = (\<lambda>_. None)(''a'' := Some 0)"
  "prun demo7 = [0 \<mapsto> \<lparr>rn_n = n1, rn_newv = ''v'', rn_acc = None, rn_dec = None\<rparr>, 1 \<mapsto> \<lparr>rn_n = n2, rn_newv = ''w'', rn_acc = Some ([''a'', ''b''], ''w''), rn_dec = Some [''a'', ''b'']\<rparr>]"
  "preps demo7 = {(0, ''a'', yes), (0, ''b'', yes), (0, ''c'', yes), (1, ''a'', yes), (1, ''b'', yes)}"
  "accks demo7 = {(1, ''a''), (1, ''b'')}"
  by (auto simp: demo7_def demo_ops fun_eq_iff)

lemma demo8_sel [simp]:
  "pacc demo8 = fresh(''a'' := committed ''w'' (accepted n2 ''w'' (promised n2 (promised n1 (fresh ''a'')))), ''b'' := committed ''w'' (accepted n2 ''w'' (promised n2 (promised n1 (fresh ''b'')))), ''c'' := promised n1 (fresh ''c''))"
  "props demo8 = proposer_init(''a'' := (proposer_init ''a'')\<lparr>stable := False, my_n := n1\<rparr>, ''b'' := (proposer_init ''b'')\<lparr>stable := True, my_n := n2\<rparr>)"
  "active demo8 = (\<lambda>_. None)(''a'' := Some 0)"
  "prun demo8 = [0 \<mapsto> \<lparr>rn_n = n1, rn_newv = ''v'', rn_acc = None, rn_dec = None\<rparr>, 1 \<mapsto> \<lparr>rn_n = n2, rn_newv = ''w'', rn_acc = Some ([''a'', ''b''], ''w''), rn_dec = Some [''a'', ''b'']\<rparr>]"
  "preps demo8 = {(0, ''a'', yes), (0, ''b'', yes), (0, ''c'', yes), (1, ''a'', yes), (1, ''b'', yes)}"
  "accks demo8 = {(1, ''a''), (1, ''b'')}"
  by (auto simp: demo8_def demo_ops fun_eq_iff)

lemma demo2_reach: "px_reach late demo2"
proof -
  have 0: "px_reach late demo0"
    by (rule reach_init) (simp add: px_start_def demo0_def recovers_fresh_member)
  have 1: "px_reach late demo1" unfolding demo1_def
    by (rule demo_begin [OF 0]) (simp_all add: demo0_def proposer_init_def setn_def newline_def, simp add: n1_def)
  show ?thesis
    unfolding demo2_def
    by (intro demo_promise_reach [where r = "\<lparr>rn_n = n1, rn_newv = ''v'', rn_acc = None, rn_dec = None\<rparr>"] 1)
      (simp_all add: demo_ops demo_nodes_def)
qed

lemma demo4_reach: "px_reach late demo4"
proof -
  have 3: "px_reach late demo3" unfolding demo3_def
    by (rule demo_begin [OF demo2_reach])
      (simp_all add: demo_ops proposer_init_def setn_def newline_def, simp add: n2_def n1_def)
  show ?thesis
    unfolding demo4_def
    by (intro demo_promise_reach [where r = "\<lparr>rn_n = n2, rn_newv = ''w'', rn_acc = None, rn_dec = None\<rparr>"] 3)
      (simp_all add: demo_ops demo_nodes_def)
qed

lemma demo6_reach: "px_reach late demo6"
proof -
  have 5: "px_reach late demo5" unfolding demo5_def
    by (rule demo_prepared_reach [OF demo4_reach, where p = "''b''" and f = "\<lambda>m. m \<noteq> ''c''"])
      (auto simp: demo_ops demo_nodes_def majority_def proposer_init_def)
  show ?thesis
    unfolding demo6_def
    by (intro demo_vote_reach [where ns = "[''a'', ''b'']" and
        r = "\<lparr>rn_n = n2, rn_newv = ''w'', rn_acc = Some ([''a'', ''b''], ''w''), rn_dec = None\<rparr>"] 5)
      (simp_all add: demo_ops)
qed

lemma demo8_reach: "px_reach late demo8"
proof -
  have 7: "px_reach late demo7" unfolding demo7_def
    by (rule demo_accepted_reach [OF demo6_reach])
      (auto simp: demo_ops demo_nodes_def majority_def proposer_init_def)
  show ?thesis
    unfolding demo8_def
    by (intro demo_commit_reach [where rid = 1 and ns = "[''a'', ''b'']" and ms = "[''a'', ''b'']" and
        r = "\<lparr>rn_n = n2, rn_newv = ''w'', rn_acc = Some ([''a'', ''b''], ''w''), rn_dec = Some [''a'', ''b'']\<rparr>"] 7)
      (simp_all add: demo_ops)
qed


text \<open>
  Now the proposer at \<open>a\<close> goes on: the acceptors \<open>a\<close> and \<open>b\<close> have decided and forgotten their promises, so all three
  members accept its value, and \<open>c\<close> decides it.
\<close>

definition demo9 :: px_sys where
  "demo9 = demo8\<lparr>prun := (prun demo8)(0 \<mapsto> \<lparr>rn_n = n1, rn_newv = ''v'', rn_acc = Some (demo_nodes, ''v''), rn_dec = None\<rparr>)\<rparr>"

definition demo10 :: px_sys where
  "demo10 = demo_vote 0 n1 ''v'' ''c'' (demo_vote 0 n1 ''v'' ''b'' (demo_vote 0 n1 ''v'' ''a'' demo9))"

definition demo11 :: px_sys where
  "demo11 = demo10\<lparr>props := (props demo10)(''a'' := (props demo10 ''a'')\<lparr>stable := True\<rparr>), active := (active demo10)(''a'' := None),
     prun := (prun demo10)(0 \<mapsto> \<lparr>rn_n = n1, rn_newv = ''v'', rn_acc = Some (demo_nodes, ''v''), rn_dec = Some demo_nodes\<rparr>)\<rparr>"

definition demo12 :: px_sys where
  "demo12 = demo_commit ''v'' ''c'' demo11"

lemma demo9_sel [simp]:
  "pacc demo9 = fresh(''a'' := committed ''w'' (accepted n2 ''w'' (promised n2 (promised n1 (fresh ''a'')))), ''b'' := committed ''w'' (accepted n2 ''w'' (promised n2 (promised n1 (fresh ''b'')))), ''c'' := promised n1 (fresh ''c''))"
  "props demo9 = proposer_init(''a'' := (proposer_init ''a'')\<lparr>stable := False, my_n := n1\<rparr>, ''b'' := (proposer_init ''b'')\<lparr>stable := True, my_n := n2\<rparr>)"
  "active demo9 = (\<lambda>_. None)(''a'' := Some 0)"
  "prun demo9 = [0 \<mapsto> \<lparr>rn_n = n1, rn_newv = ''v'', rn_acc = Some (demo_nodes, ''v''), rn_dec = None\<rparr>, 1 \<mapsto> \<lparr>rn_n = n2, rn_newv = ''w'', rn_acc = Some ([''a'', ''b''], ''w''), rn_dec = Some [''a'', ''b'']\<rparr>]"
  "preps demo9 = {(0, ''a'', yes), (0, ''b'', yes), (0, ''c'', yes), (1, ''a'', yes), (1, ''b'', yes)}"
  "accks demo9 = {(1, ''a''), (1, ''b'')}"
  by (auto simp: demo9_def demo_ops fun_eq_iff)

lemma demo10_sel [simp]:
  "pacc demo10 = fresh(''a'' := accepted n1 ''v'' (committed ''w'' (accepted n2 ''w'' (promised n2 (promised n1 (fresh ''a''))))), ''b'' := accepted n1 ''v'' (committed ''w'' (accepted n2 ''w'' (promised n2 (promised n1 (fresh ''b''))))), ''c'' := accepted n1 ''v'' (promised n1 (fresh ''c'')))"
  "props demo10 = proposer_init(''a'' := (proposer_init ''a'')\<lparr>stable := False, my_n := n1\<rparr>, ''b'' := (proposer_init ''b'')\<lparr>stable := True, my_n := n2\<rparr>)"
  "active demo10 = (\<lambda>_. None)(''a'' := Some 0)"
  "prun demo10 = [0 \<mapsto> \<lparr>rn_n = n1, rn_newv = ''v'', rn_acc = Some (demo_nodes, ''v''), rn_dec = None\<rparr>, 1 \<mapsto> \<lparr>rn_n = n2, rn_newv = ''w'', rn_acc = Some ([''a'', ''b''], ''w''), rn_dec = Some [''a'', ''b'']\<rparr>]"
  "preps demo10 = {(0, ''a'', yes), (0, ''b'', yes), (0, ''c'', yes), (1, ''a'', yes), (1, ''b'', yes)}"
  "accks demo10 = {(1, ''a''), (1, ''b''), (0, ''a''), (0, ''b''), (0, ''c'')}"
  by (auto simp: demo10_def demo_ops fun_eq_iff)

lemma demo11_sel [simp]:
  "pacc demo11 = fresh(''a'' := accepted n1 ''v'' (committed ''w'' (accepted n2 ''w'' (promised n2 (promised n1 (fresh ''a''))))), ''b'' := accepted n1 ''v'' (committed ''w'' (accepted n2 ''w'' (promised n2 (promised n1 (fresh ''b''))))), ''c'' := accepted n1 ''v'' (promised n1 (fresh ''c'')))"
  "props demo11 = proposer_init(''a'' := (proposer_init ''a'')\<lparr>stable := True, my_n := n1\<rparr>, ''b'' := (proposer_init ''b'')\<lparr>stable := True, my_n := n2\<rparr>)"
  "active demo11 = (\<lambda>_. None)"
  "prun demo11 = [0 \<mapsto> \<lparr>rn_n = n1, rn_newv = ''v'', rn_acc = Some (demo_nodes, ''v''), rn_dec = Some demo_nodes\<rparr>, 1 \<mapsto> \<lparr>rn_n = n2, rn_newv = ''w'', rn_acc = Some ([''a'', ''b''], ''w''), rn_dec = Some [''a'', ''b'']\<rparr>]"
  "preps demo11 = {(0, ''a'', yes), (0, ''b'', yes), (0, ''c'', yes), (1, ''a'', yes), (1, ''b'', yes)}"
  "accks demo11 = {(1, ''a''), (1, ''b''), (0, ''a''), (0, ''b''), (0, ''c'')}"
  by (auto simp: demo11_def demo_ops fun_eq_iff)

lemma demo10_reach: "px_reach True demo10"
proof -
  have 9: "px_reach True demo9" unfolding demo9_def
    by (rule demo_prepared_reach [OF demo8_reach, where p = "''a''" and f = "\<lambda>m. True"])
      (auto simp: demo_ops demo_nodes_def majority_def proposer_init_def)
  have z: "n_h (committed v ac) \<le> n1" if "instance_h ac = 0" for v ac
    using that prop_zero_less [of "n_h (committed v ac)" n1] by (simp add: less_imp_le)
  show ?thesis
    unfolding demo10_def
    by (intro demo_vote_reach [where ns = demo_nodes and
        r = "\<lparr>rn_n = n1, rn_newv = ''v'', rn_acc = Some (demo_nodes, ''v''), rn_dec = None\<rparr>"] 9)
      (simp_all add: demo_ops demo_nodes_def z)
qed

lemma demo12_reach: "px_reach True demo12"
proof -
  have 11: "px_reach True demo11" unfolding demo11_def
    by (rule demo_accepted_reach [OF demo10_reach])
      (auto simp: demo_ops demo_nodes_def majority_def proposer_init_def)
  show ?thesis
    unfolding demo12_def
    by (intro demo_commit_reach [where rid = 0 and ns = demo_nodes and ms = demo_nodes and
        r = "\<lparr>rn_n = n1, rn_newv = ''v'', rn_acc = Some (demo_nodes, ''v''), rn_dec = Some demo_nodes\<rparr>"] 11)
      (simp_all add: demo_ops demo_nodes_def)
qed

text \<open>
  C13. Accept requests are not checked for their instance, and that breaks agreement: with three members and one accept request that
  reaches acceptors after they have decided the instance, a state is reachable in which two acceptors have
  decided different values for the same instance.
\<close>

theorem late_accept_breaks_agreement:
  "\<exists>y. reach (px_start 1) (px_step True 1 [''a'', ''b'', ''c'']) y \<and>
       decided 1 (pacc y ''a'') ''w'' \<and> decided 1 (pacc y ''c'') ''v''"
proof (intro exI conjI)
  show "reach (px_start 1) (px_step True 1 [''a'', ''b'', ''c'']) demo12"
    using demo12_reach by (simp add: demo_nodes_def)
  show "decided 1 (pacc demo12 ''a'') ''w''" "decided 1 (pacc demo12 ''c'') ''v''"
    by (simp_all add: demo12_def demo_ops decided_def)
qed

end
