(* ===== verification/Handle.thy ===== *)
theory Handle
  imports DS_Prelude "HOL-Library.Multiset"
begin

text \<open>
  The cache of RPC clients: \<^verbatim>\<open>handle.cc\<close> and \<^verbatim>\<open>handle.h\<close>. \<open>hinfo\<close> objects and the clients they point to live in
  explicit heaps, so a use of a deleted object is a fault. A \<open>handle\<close> object is the address of its \<open>hinfo\<close>, or
  \<open>None\<close>. The step relation \<open>h_step\<close> creates, uses and destroys handles in any order.
\<close>

section \<open>State\<close>

record hinfo =
  hi_cl :: "nat option"
  hi_refcnt :: int
  hi_del :: bool
  hi_m :: string

text \<open>\<open>hheap\<close> are the allocated \<open>hinfo\<close> objects and \<open>clients\<close> the allocated \<open>rpcc\<close> objects.\<close>

record handle_mgr =
  hmap :: "string \<rightharpoonup> nat"
  hheap :: "nat \<rightharpoonup> hinfo"
  clients :: "nat set"

definition handle_mgr_init :: handle_mgr where
  "handle_mgr_init = \<lparr>hmap = Map.empty, hheap = Map.empty, clients = {}\<rparr>"

definition deref :: "nat \<Rightarrow> handle_mgr \<Rightarrow> fault + hinfo" where
  "deref a s = (case hheap s a of None \<Rightarrow> Inl OutOfBounds | Some h \<Rightarrow> Inr h)"

section \<open>Operations\<close>

text \<open>\<open>a\<close> is the address that \<open>new\<close> would return.\<close>

definition get_handle :: "nat \<Rightarrow> string \<Rightarrow> handle_mgr \<Rightarrow> fault + (nat option \<times> handle_mgr)" where
  "get_handle a m s =
     (case hmap s m of
        None \<Rightarrow>
          Inr (Some a, s\<lparr>hheap := (hheap s)(a \<mapsto> \<lparr>hi_cl = None, hi_refcnt = 1, hi_del = False, hi_m = m\<rparr>),
                         hmap := (hmap s)(m \<mapsto> a)\<rparr>)
      | Some b \<Rightarrow>
          bind_f (deref b s) (\<lambda>h.
            if \<not> hi_del h
            then Inr (Some b, s\<lparr>hheap := (hheap s)(b \<mapsto> h\<lparr>hi_refcnt := hi_refcnt h + 1\<rparr>)\<rparr>)
            else Inr (None, s)))"

text \<open>\<open>cl->cancel(); delete cl\<close>.\<close>

definition delete_client :: "nat option \<Rightarrow> handle_mgr \<Rightarrow> fault + handle_mgr" where
  "delete_client c s =
     (case c of None \<Rightarrow> Inr s
      | Some c \<Rightarrow> if c \<in> clients s then Inr (s\<lparr>clients := clients s - {c}\<rparr>) else Inl OutOfBounds)"

definition delete_handle_wo :: "string \<Rightarrow> handle_mgr \<Rightarrow> fault + handle_mgr" where
  "delete_handle_wo m s =
     (case hmap s m of
        None \<Rightarrow> Inr s
      | Some a \<Rightarrow>
          bind_f (deref a s) (\<lambda>h.
            if hi_refcnt h = 0 then
              bind_f (delete_client (hi_cl h) s) (\<lambda>s.
                Inr (s\<lparr>hmap := (hmap s)(m := None), hheap := (hheap s)(a := None)\<rparr>))
            else Inr (s\<lparr>hheap := (hheap s)(a \<mapsto> h\<lparr>hi_del := True\<rparr>)\<rparr>)))"

definition delete_handle :: "string \<Rightarrow> handle_mgr \<Rightarrow> fault + handle_mgr" where
  "delete_handle m s = delete_handle_wo m s"

definition done_handle :: "nat \<Rightarrow> handle_mgr \<Rightarrow> fault + handle_mgr" where
  "done_handle a s =
     bind_f (deref a s) (\<lambda>h.
       let h = h\<lparr>hi_refcnt := hi_refcnt h - 1\<rparr>;
           s = s\<lparr>hheap := (hheap s)(a \<mapsto> h)\<rparr>
       in if hi_refcnt h = 0 \<and> hi_del h then delete_handle_wo (hi_m h) s else Inr s)"

text \<open>
  \<open>safebind\<close>: \<open>c\<close> is the address of the \<open>new rpcc\<close> and \<open>ret\<close> the result of its \<open>bind\<close>. The result is the client
  or a null pointer.
\<close>

definition safebind :: "nat \<Rightarrow> int \<Rightarrow> nat option \<Rightarrow> handle_mgr \<Rightarrow> fault + (nat option \<times> handle_mgr)" where
  "safebind c ret ha s =
     (case ha of
        None \<Rightarrow> Inr (None, s)
      | Some a \<Rightarrow>
          bind_f (deref a s) (\<lambda>h.
            if hi_del h then Inr (None, s)
            else if hi_cl h \<noteq> None then Inr (hi_cl h, s)
            else if ret < 0 then Inr (None, s\<lparr>hheap := (hheap s)(a \<mapsto> h\<lparr>hi_del := True\<rparr>)\<rparr>)
            else Inr (Some c, s\<lparr>hheap := (hheap s)(a \<mapsto> h\<lparr>hi_cl := Some c\<rparr>),
                                clients := insert c (clients s)\<rparr>)))"

text \<open>The destructor of \<open>handle\<close>.\<close>

definition handle_destroy :: "nat option \<Rightarrow> handle_mgr \<Rightarrow> fault + handle_mgr" where
  "handle_destroy ha s = (case ha of None \<Rightarrow> Inr s | Some a \<Rightarrow> done_handle a s)"

section \<open>Handles in use\<close>

text \<open>\<open>live\<close> are the addresses in the existing handle objects; \<open>crashed\<close> records a fault.\<close>

record h_sys =
  hm :: handle_mgr
  live :: "nat multiset"
  crashed :: bool

inductive h_step :: "h_sys \<Rightarrow> h_sys \<Rightarrow> bool" where
  h_create: "\<lbrakk>hheap (hm y) a = None; get_handle a m (hm y) = Inr (ha, s')\<rbrakk> \<Longrightarrow>
    h_step y (y\<lparr>hm := s', live := (case ha of None \<Rightarrow> live y | Some b \<Rightarrow> add_mset b (live y))\<rparr>)"
| h_bind: "\<lbrakk>a \<in># live y; c \<notin> clients (hm y); safebind c ret (Some a) (hm y) = Inr (r, s')\<rbrakk> \<Longrightarrow>
    h_step y (y\<lparr>hm := s'\<rparr>)"
| h_destroy: "\<lbrakk>a \<in># live y; handle_destroy (Some a) (hm y) = Inr s'\<rbrakk> \<Longrightarrow>
    h_step y (y\<lparr>hm := s', live := live y - {#a#}\<rparr>)"
| h_delete: "delete_handle m (hm y) = Inr s' \<Longrightarrow> h_step y (y\<lparr>hm := s'\<rparr>)"
| h_crash: "\<lbrakk>hheap (hm y) a = None \<and> get_handle a m (hm y) = Inl e \<or> b \<in># live y \<and> safebind c ret (Some b) (hm y) = Inl e \<or>
      b \<in># live y \<and> handle_destroy (Some b) (hm y) = Inl e \<or> delete_handle m (hm y) = Inl e\<rbrakk> \<Longrightarrow>
    h_step y (y\<lparr>crashed := True\<rparr>)"

definition h_start :: "h_sys \<Rightarrow> bool" where
  "h_start y \<longleftrightarrow> y = \<lparr>hm = handle_mgr_init, live = {#}, crashed = False\<rparr>"

text \<open>
  \<open>hmap\<close> and the heap are inverse to each other, reference counts count the handles, no unused entry is marked
  deleted, and every client belongs to exactly one entry.
\<close>

definition mgr_ok :: "handle_mgr \<Rightarrow> nat multiset \<Rightarrow> bool" where
  "mgr_ok s L \<longleftrightarrow>
     (\<forall>m a. hmap s m = Some a \<longrightarrow> (\<exists>h. hheap s a = Some h \<and> hi_m h = m)) \<and>
     (\<forall>a h. hheap s a = Some h \<longrightarrow> hmap s (hi_m h) = Some a \<and> hi_refcnt h = int (count L a) \<and>
        (hi_del h \<longrightarrow> 0 < count L a) \<and> (\<forall>c. hi_cl h = Some c \<longrightarrow> c \<in> clients s)) \<and>
     (\<forall>a\<in>#L. hheap s a \<noteq> None) \<and>
     (\<forall>a b h k c. hheap s a = Some h \<longrightarrow> hheap s b = Some k \<longrightarrow> hi_cl h = Some c \<longrightarrow> hi_cl k = Some c \<longrightarrow> a = b)"

lemma mgr_okD:
  assumes "mgr_ok s L"
  shows "hmap s m = Some a \<Longrightarrow> \<exists>h. hheap s a = Some h \<and> hi_m h = m"
    and "hheap s a = Some h \<Longrightarrow> hmap s (hi_m h) = Some a \<and> hi_refcnt h = int (count L a) \<and>
        (hi_del h \<longrightarrow> 0 < count L a) \<and> (\<forall>c. hi_cl h = Some c \<longrightarrow> c \<in> clients s)"
    and "a \<in># L \<Longrightarrow> hheap s a \<noteq> None"
    and "hheap s a = Some h \<Longrightarrow> hheap s b = Some k \<Longrightarrow> hi_cl h = Some c \<Longrightarrow> hi_cl k = Some c \<Longrightarrow> a = b"
  using assms unfolding mgr_ok_def by blast+

lemma mgr_okI:
  assumes "\<And>m a. hmap s m = Some a \<Longrightarrow> \<exists>h. hheap s a = Some h \<and> hi_m h = m"
    and "\<And>a h. hheap s a = Some h \<Longrightarrow> hmap s (hi_m h) = Some a \<and> hi_refcnt h = int (count L a) \<and>
        (hi_del h \<longrightarrow> 0 < count L a) \<and> (\<forall>c. hi_cl h = Some c \<longrightarrow> c \<in> clients s)"
    and "\<And>a. a \<in># L \<Longrightarrow> hheap s a \<noteq> None"
    and "\<And>a h b k c. hheap s a = Some h \<Longrightarrow> hheap s b = Some k \<Longrightarrow> hi_cl h = Some c \<Longrightarrow> hi_cl k = Some c \<Longrightarrow> a = b"
  shows "mgr_ok s L"
  unfolding mgr_ok_def by (intro conjI allI impI ballI) (use assms in \<open>simp_all; fail\<close>)+

lemma mgr_ok_upd:
  assumes ok: "mgr_ok s L" and b: "hheap s b = Some h" and h': "hi_m h' = hi_m h"
    and cl: "hi_cl h' = hi_cl h \<and> C = clients s \<or> hi_cl h = None \<and> hi_cl h' = Some c \<and> c \<notin> clients s \<and> C = insert c (clients s)"
    and cnt: "hi_refcnt h' = int (count L' b)" "hi_del h' \<longrightarrow> 0 < count L' b" "\<And>x. x \<noteq> b \<Longrightarrow> count L' x = count L x"
  shows "mgr_ok (s\<lparr>hheap := (hheap s)(b \<mapsto> h'), clients := C\<rparr>) L'"
proof -
  have L: "x = b \<or> x \<in># L" if "x \<in># L'" for x
  proof (cases "x = b")
    case False
    then have "count L x = count L' x" by (simp add: cnt(3))
    then show ?thesis using that by (simp flip: count_greater_zero_iff)
  qed simp
  have own: "c' \<in> clients s" if "hheap s x = Some k" "hi_cl k = Some c'" for x k c'
    using mgr_okD(2) [OF ok that(1)] that(2) by simp
  have fresh: "c' \<noteq> c \<or> hi_cl h' = hi_cl h" if "hheap s z = Some kz" "hi_cl kz = Some c'" for z kz c'
    using own [OF that] cl by auto
  show ?thesis
  proof (rule mgr_okI, goal_cases)
    case (1 m x)
    then show ?case using mgr_okD(1) [OF ok, of m x] b h' by (cases "x = b") auto
  next
    case (2 x k)
    then show ?case using mgr_okD(2) [OF ok, of x] mgr_okD(2) [OF ok b] b h' cl cnt by (cases "x = b") auto
  next
    case (3 x)
    then show ?case using L [of x] mgr_okD(3) [OF ok, of x] by auto
  next
    case hyps: (4 x k y k' c')
    consider "x = b" "y = b" | "x \<noteq> b" "y \<noteq> b" | "x = b" "y \<noteq> b" | "x \<noteq> b" "y = b" by blast
    then show ?case
    proof cases
      case 2 then show ?thesis using hyps mgr_okD(4) [OF ok, of x k y k' c'] by simp
    next
      case 3 then show ?thesis using hyps fresh [of y k' c'] cl b mgr_okD(4) [OF ok b, of y k' c'] by auto
    next
      case 4 then show ?thesis using hyps fresh [of x k c'] cl b mgr_okD(4) [OF ok, of x k b h c'] by auto
    qed simp
  qed
qed

lemma get_handle_ok:
  assumes ok: "mgr_ok s L" and a: "hheap s a = None"
  shows "\<exists>ha s'. get_handle a m s = Inr (ha, s') \<and>
    mgr_ok s' (case ha of None \<Rightarrow> L | Some b \<Rightarrow> add_mset b L)"
proof (cases "hmap s m")
  case None
  have na: "a \<notin># L" using mgr_okD(3) [OF ok] a by blast
  let ?h = "\<lparr>hi_cl = None, hi_refcnt = 1, hi_del = False, hi_m = m\<rparr>"
  have "mgr_ok (s\<lparr>hheap := (hheap s)(a \<mapsto> ?h), hmap := (hmap s)(m \<mapsto> a)\<rparr>) (add_mset a L)"
  proof (rule mgr_okI, goal_cases)
    case (1 m' b)
    then show ?case using mgr_okD(1) [OF ok, of m' b] a by (auto split: if_splits)
  next
    case (2 b h)
    then show ?case using mgr_okD(2) [OF ok, of b h] None na by (cases "b = a") (auto simp: not_in_iff)
  next
    case (3 b)
    then show ?case using mgr_okD(3) [OF ok, of b] by auto
  next
    case (4 b h b' k c)
    then show ?case using mgr_okD(4) [OF ok, of b h b' k c] by (auto split: if_splits)
  qed
  with None show ?thesis by (simp add: get_handle_def)
next
  case (Some b)
  then obtain h where h: "hheap s b = Some h" using mgr_okD(1) [OF ok] by blast
  have "mgr_ok (s\<lparr>hheap := (hheap s)(b \<mapsto> h\<lparr>hi_refcnt := hi_refcnt h + 1\<rparr>), clients := clients s\<rparr>) (add_mset b L)"
    by (rule mgr_ok_upd [OF ok h]) (use mgr_okD(2) [OF ok h] in auto)
  with Some h ok show ?thesis by (simp add: get_handle_def deref_def)
qed

lemma safebind_ok:
  assumes ok: "mgr_ok s L" and a: "a \<in># L" and c: "c \<notin> clients s"
  shows "\<exists>r s'. safebind c ret (Some a) s = Inr (r, s') \<and> mgr_ok s' L \<and> (\<forall>c. r = Some c \<longrightarrow> c \<in> clients s')"
proof -
  obtain h where h: "hheap s a = Some h" using mgr_okD(3) [OF ok a] by auto
  have 1: "mgr_ok (s\<lparr>hheap := (hheap s)(a \<mapsto> h\<lparr>hi_del := True\<rparr>), clients := clients s\<rparr>) L"
    by (rule mgr_ok_upd [OF ok h]) (use mgr_okD(2) [OF ok h] a in auto)
  have 2: "mgr_ok (s\<lparr>hheap := (hheap s)(a \<mapsto> h\<lparr>hi_cl := Some c\<rparr>), clients := insert c (clients s)\<rparr>) L" if "hi_cl h = None"
    by (rule mgr_ok_upd [OF ok h]) (use mgr_okD(2) [OF ok h] a c that in auto)
  show ?thesis using h ok 1 2 mgr_okD(2) [OF ok h] by (auto simp: safebind_def deref_def)
qed

lemma remove_ok:
  assumes ok: "mgr_ok s L" and a: "hheap s a = Some h" "hi_m h = m" "count L' a = 0"
    and cnt: "\<And>x. x \<noteq> a \<Longrightarrow> count L' x = count L x"
    and c: "\<forall>c. hi_cl h = Some c \<longrightarrow> C = clients s - {c}" "hi_cl h = None \<longrightarrow> C = clients s"
  shows "mgr_ok (s\<lparr>hmap := (hmap s)(m := None), hheap := (hheap s)(a := None), clients := C\<rparr>) L'"
proof -
  have m: "hmap s m = Some a" using mgr_okD(2) [OF ok a(1)] a(2) by simp
  show ?thesis
  proof (rule mgr_okI, goal_cases)
    case (1 m' b)
    then have b: "hmap s m' = Some b" "m' \<noteq> m" by (auto split: if_splits)
    then have "b \<noteq> a" using mgr_okD(1) [OF ok b(1)] a(1,2) by auto
    then show ?case using mgr_okD(1) [OF ok b(1)] by auto
  next
    case (2 b k)
    then have b: "b \<noteq> a" "hheap s b = Some k" by (auto split: if_splits)
    have "c' \<in> C" if k: "hi_cl k = Some c'" for c'
    proof -
      have "c' \<in> clients s" using mgr_okD(2) [OF ok b(2)] k by simp
      moreover have "hi_cl h \<noteq> Some c'" using mgr_okD(4) [OF ok b(2) a(1) k] b(1) by blast
      ultimately show ?thesis using c by (cases "hi_cl h") auto
    qed
    then show ?case using mgr_okD(2) [OF ok b(2)] m b cnt [OF b(1)] by auto
  next
    case (3 b)
    then have "b \<noteq> a" using a(3) by (auto simp flip: count_greater_zero_iff)
    with 3 show ?case using mgr_okD(3) [OF ok, of b] cnt [of b] by (simp flip: count_greater_zero_iff)
  next
    case (4 b k b' k' c')
    then show ?case using mgr_okD(4) [OF ok, of b k b' k' c'] by (auto split: if_splits)
  qed
qed

lemma delete_handle_ok:
  assumes ok: "mgr_ok s L"
  shows "\<exists>s'. delete_handle_wo m s = Inr s' \<and> mgr_ok s' L"
proof (cases "hmap s m")
  case None
  with ok show ?thesis by (simp add: delete_handle_wo_def)
next
  case (Some a)
  then obtain h where h: "hheap s a = Some h" "hi_m h = m" using mgr_okD(1) [OF ok] by blast
  note hk = mgr_okD(2) [OF ok h(1)]
  show ?thesis
  proof (cases "hi_refcnt h = 0")
    case True
    with hk have z: "count L a = 0" by simp
    let ?C = "case hi_cl h of None \<Rightarrow> clients s | Some c \<Rightarrow> clients s - {c}"
    have "delete_client (hi_cl h) s = Inr (s\<lparr>clients := ?C\<rparr>)"
      using hk by (auto simp: delete_client_def split: option.splits)
    with Some h True have "delete_handle_wo m s =
        Inr (s\<lparr>hmap := (hmap s)(m := None), hheap := (hheap s)(a := None), clients := ?C\<rparr>)"
      by (simp add: delete_handle_wo_def deref_def)
    moreover have "mgr_ok (s\<lparr>hmap := (hmap s)(m := None), hheap := (hheap s)(a := None), clients := ?C\<rparr>) L"
      by (rule remove_ok [OF ok h z]) auto
    ultimately show ?thesis by blast
  next
    case False
    have "mgr_ok (s\<lparr>hheap := (hheap s)(a \<mapsto> h\<lparr>hi_del := True\<rparr>), clients := clients s\<rparr>) L"
      by (rule mgr_ok_upd [OF ok h(1)]) (use hk False in auto)
    with Some h False show ?thesis by (simp add: delete_handle_wo_def deref_def)
  qed
qed

lemma delete_client_ok:
  assumes "mgr_ok s L" and "hheap s a = Some h"
  shows "delete_client (hi_cl h) (s\<lparr>hheap := H\<rparr>) =
    Inr (s\<lparr>hheap := H, clients := (case hi_cl h of None \<Rightarrow> clients s | Some c \<Rightarrow> clients s - {c})\<rparr>)"
  using mgr_okD(2) [OF assms] by (auto simp: delete_client_def split: option.splits)

lemma done_handle_ok:
  assumes ok: "mgr_ok s L" and a: "a \<in># L"
  shows "\<exists>s'. done_handle a s = Inr s' \<and> mgr_ok s' (L - {#a#})"
proof -
  obtain h where h: "hheap s a = Some h" using mgr_okD(3) [OF ok a] by auto
  note hk = mgr_okD(2) [OF ok h]
  have pos: "0 < count L a" using a by simp
  let ?h = "h\<lparr>hi_refcnt := hi_refcnt h - 1\<rparr>"
  show ?thesis
  proof (cases "hi_refcnt h = 1 \<and> hi_del h")
    case True
    let ?C = "case hi_cl h of None \<Rightarrow> clients s | Some c \<Rightarrow> clients s - {c}"
    have "done_handle a s = Inr (s\<lparr>hmap := (hmap s)(hi_m h := None), hheap := (hheap s)(a := None), clients := ?C\<rparr>)"
      using h hk True delete_client_ok [OF ok h]
      by (simp add: done_handle_def deref_def delete_handle_wo_def)
    moreover have "mgr_ok (s\<lparr>hmap := (hmap s)(hi_m h := None), hheap := (hheap s)(a := None), clients := ?C\<rparr>) (L - {#a#})"
      by (rule remove_ok [OF ok h]) (use hk True in auto)
    ultimately show ?thesis by blast
  next
    case False
    have "hi_del h \<Longrightarrow> Suc 0 < count L a" using pos False hk by linarith
    then have "mgr_ok (s\<lparr>hheap := (hheap s)(a \<mapsto> ?h), clients := clients s\<rparr>) (L - {#a#})"
      by (intro mgr_ok_upd [OF ok h]) (use hk a in auto)
    with h hk False show ?thesis by (auto simp: done_handle_def deref_def)
  qed
qed


interpretation handles: step_invariant h_start h_step "\<lambda>y. mgr_ok (hm y) (live y) \<and> \<not> crashed y"
proof unfold_locales
  fix y assume "h_start y"
  then show "mgr_ok (hm y) (live y) \<and> \<not> crashed y"
    by (auto simp: h_start_def handle_mgr_init_def mgr_ok_def)
next
  fix y t assume i: "mgr_ok (hm y) (live y) \<and> \<not> crashed y" and st: "h_step y t"
  then have ok: "mgr_ok (hm y) (live y)" by simp
  from st show "mgr_ok (hm t) (live t) \<and> \<not> crashed t"
  proof cases
    case (h_create a m ha s')
    then show ?thesis using i get_handle_ok [OF ok, of a m] by simp
  next
    case (h_bind a c ret r s')
    then show ?thesis using i safebind_ok [OF ok, of a c ret] by simp
  next
    case (h_destroy a s')
    then show ?thesis using i done_handle_ok [OF ok, of a] by (simp add: handle_destroy_def)
  next
    case (h_delete m s')
    then show ?thesis using i delete_handle_ok [OF ok, of m] by (simp add: delete_handle_def)
  next
    case (h_crash a m e b c ret)
    moreover have "safebind c ret (Some b) (hm y) \<noteq> Inl e" if "b \<in># live y"
      using mgr_okD(3) [OF ok that] by (auto simp: safebind_def deref_def split: if_splits)
    ultimately show ?thesis
      using get_handle_ok [OF ok, of a m] done_handle_ok [OF ok, of b] delete_handle_ok [OF ok, of m]
      by (auto simp: handle_destroy_def delete_handle_def)
  qed
qed

section \<open>Handles never dangle\<close>

text \<open>
  C38. Whatever sequence of handle creations, binds, destructions and \<open>delete_handle\<close> calls the process makes, no
  operation touches a freed \<open>hinfo\<close> or a freed client: the entry of every existing handle is allocated, its reference
  count is the number of handles on it, its client is allocated, and an entry that is marked deleted and has no handle
  left is gone from the manager.
\<close>

theorem handle_safe:
  assumes "reach h_start h_step y"
  shows "\<not> crashed y \<and>
    (\<forall>a. 0 < count (live y) a \<longrightarrow> (\<exists>h. hheap (hm y) a = Some h)) \<and>
    (\<forall>a h. hheap (hm y) a = Some h \<longrightarrow>
       hmap (hm y) (hi_m h) = Some a \<and> hi_refcnt h = int (count (live y) a) \<and>
       (hi_del h \<longrightarrow> 0 < count (live y) a) \<and> (\<forall>c. hi_cl h = Some c \<longrightarrow> c \<in> clients (hm y)))"
proof -
  have ok: "mgr_ok (hm y) (live y)" "\<not> crashed y" using handles.reach_inv [OF assms] by simp_all
  then show ?thesis using mgr_okD(2,3) [OF ok(1)] by (simp add: count_greater_zero_iff)
qed

definition demo_handle :: h_sys where
  "demo_handle =
     \<lparr>hm = \<lparr>hmap = [''a'' \<mapsto> 0], hheap = [0 \<mapsto> \<lparr>hi_cl = Some 7, hi_refcnt = 1, hi_del = True, hi_m = ''a''\<rparr>], clients = {7}\<rparr>,
      live = {#0#}, crashed = False\<rparr>"

lemma demo_handle_reach: "reach h_start h_step demo_handle"
proof -
  let ?start = "\<lparr>hm = handle_mgr_init, live = {#}, crashed = False\<rparr>"
  let ?m = "\<lambda>cl d C. \<lparr>hmap = [''a'' \<mapsto> 0], hheap = [0 \<mapsto> \<lparr>hi_cl = cl, hi_refcnt = 1, hi_del = d, hi_m = ''a''\<rparr>], clients = C\<rparr>"
  let ?y = "\<lambda>cl d C. \<lparr>hm = ?m cl d C, live = {#0#}, crashed = False\<rparr>"
  have 0: "reach h_start h_step ?start" by (simp add: h_start_def reach_init)
  have 1: "reach h_start h_step (?y None False {})"
    by (rule reach_step_eq [OF 0 h_create [where a = 0 and m = "''a''" and ha = "Some 0"]])
      (simp_all add: get_handle_def handle_mgr_init_def)
  have 2: "reach h_start h_step (?y (Some 7) False {7})"
    by (rule reach_step_eq [OF 1 h_bind [where a = 0 and c = 7 and ret = 0 and r = "Some 7"]]) (simp_all add: safebind_def deref_def)
  have "reach h_start h_step (?y (Some 7) True {7})"
    by (rule reach_step_eq [OF 2 h_delete [where m = "''a''"]]) (simp_all add: delete_handle_def delete_handle_wo_def deref_def)
  then show ?thesis by (simp add: demo_handle_def)
qed

theorem handle_safe_witness:
  "\<not> crashed demo_handle \<and> hheap (hm demo_handle) 0 \<noteq> None \<and> 7 \<in> clients (hm demo_handle)"
  using handle_safe [OF demo_handle_reach] by (simp add: demo_handle_def)

end
