(* ===== verification/Config.thy ===== *)
theory Config
  imports Paxos Handle Rpc_Client
begin

text \<open>
  Views of \<^verbatim>\<open>config.cc\<close>: the text of a view, the current view of a node, the upcall \<open>paxos_commit\<close>, proposals that
  add or remove a node, and heartbeats. \<open>add\<close> and \<open>remove_wo\<close> are modelled up to their call of \<open>proposer::run\<close>, whose
  result they return. The upcall of an acceptor runs after \<open>pxs_mutex\<close> has been released; the step relation \<open>cfg_step\<close>
  keeps the upcalls that have not run yet. The fields of the leader election are in the theory \<open>Election\<close>.
\<close>

section \<open>State\<close>

record config =
  cf_acc :: acceptor
  cf_pro :: proposer
  myvid :: u32
  cf_first :: string
  cf_me :: string
  mems :: "string list"

datatype heartbeat_t = hb_OK | hb_VIEWERR | hb_FAILURE

section \<open>Views as text\<close>

definition members :: "string \<Rightarrow> string list" where
  "members v = extract_words v"

definition config_value :: "string list \<Rightarrow> string" where
  "config_value m = concat (map (\<lambda>x. x @ '' '') m)"

lemma members_config_value: "list_all is_word m \<Longrightarrow> members (config_value m) = m"
  by (induction m) (simp_all add: members_def config_value_def extract_words_word)

lemma members_word: "is_word w \<Longrightarrow> members w = [w]"
  using extract_word_append [of w "[]"] by (simp add: members_def extract_words.simps [of w])

lemma newline_config_value: "list_all is_word m \<Longrightarrow> newline \<notin> set (config_value m)"
  by (induction m) (auto simp: config_value_def is_word_def list_all_iff newline_def isspace_def)

section \<open>The current view\<close>

definition get_view_wo :: "u32 \<Rightarrow> config \<Rightarrow> string list \<times> config" where
  "get_view_wo i c = (let (v, a) = ac_value i (cf_acc c) in (members v, c\<lparr>cf_acc := a\<rparr>))"

definition get_view :: "u32 \<Rightarrow> config \<Rightarrow> string list \<times> config" where
  "get_view i c = get_view_wo i c"

definition reconstruct :: "config \<Rightarrow> config" where
  "reconstruct c =
     (if instance_h (cf_acc c) > 0 then
        let c = c\<lparr>myvid := instance_h (cf_acc c)\<rparr>;
            (v, c) = get_view_wo (myvid c) c
        in c\<lparr>mems := v\<rparr>
      else c)"

text \<open>\<open>file\<close> is the content of the log file and \<open>i0\<close> the uninitialised variable of \<open>logread\<close>.\<close>

definition config_init :: "u32 \<Rightarrow> string \<Rightarrow> string \<Rightarrow> string \<Rightarrow> fault + config" where
  "config_init i0 file first me =
     bind_f (acceptor_init i0 (me = first) me me file) (\<lambda>a.
       Inr (reconstruct \<lparr>cf_acc = a, cf_pro = proposer_init me, myvid = 0, cf_first = first, cf_me = me, mems = []\<rparr>))"

definition config_restore :: "u32 \<Rightarrow> string \<Rightarrow> config \<Rightarrow> fault + config" where
  "config_restore i0 s c = bind_f (ac_restore i0 s (cf_acc c)) (\<lambda>a. Inr (reconstruct (c\<lparr>cf_acc := a\<rparr>)))"

definition config_dump :: "config \<Rightarrow> string" where
  "config_dump c = ac_dump (cf_acc c)"

definition ismember :: "string \<Rightarrow> u32 \<Rightarrow> config \<Rightarrow> bool \<times> config" where
  "ismember m vid c = (let (v, c) = get_view_wo vid c in (isamember m v, c))"

text \<open>The loop of \<open>paxos_commit\<close> over the members of the old view.\<close>

fun commit_loop :: "string \<Rightarrow> string list \<Rightarrow> string list \<Rightarrow> handle_mgr \<Rightarrow> fault + handle_mgr" where
  "commit_loop me newmem [] hs = Inr hs"
| "commit_loop me newmem (m # ms) hs =
     (if \<not> isamember m newmem \<and> me \<noteq> m
      then bind_f (delete_handle m hs) (commit_loop me newmem ms)
      else commit_loop me newmem ms hs)"

text \<open>The result ends with the argument of \<open>vc->commit_change\<close>, which is called when \<open>vc\<close> is set.\<close>

definition paxos_commit ::
  "bool \<Rightarrow> u32 \<Rightarrow> string \<Rightarrow> config \<times> handle_mgr \<Rightarrow> fault + ((config \<times> handle_mgr) \<times> u32 option)" where
  "paxos_commit vc i v s =
     (case s of (c, hs) \<Rightarrow>
        let newmem = members v in
        bind_f (commit_loop (cf_me c) newmem (mems c) hs) (\<lambda>hs.
          let c = c\<lparr>mems := newmem, myvid := i\<rparr> in
          Inr ((c, hs), if vc then Some (myvid c) else None)))"

section \<open>Changing the view\<close>

text \<open>The arguments of \<open>pro->run\<close>.\<close>

record run_args =
  ra_instance :: u32
  ra_nodes :: "string list"
  ra_value :: string

text \<open>\<open>None\<close>: \<open>add\<close> returns false.\<close>

definition cfg_add :: "string \<Rightarrow> u32 \<Rightarrow> config \<Rightarrow> run_args option" where
  "cfg_add new_m vid c =
     (if vid \<noteq> myvid c then None
      else Some \<lparr>ra_instance = myvid c + 1, ra_nodes = mems c, ra_value = config_value (mems c @ [new_m])\<rparr>)"

definition remove_wo :: "string \<Rightarrow> config \<Rightarrow> run_args" where
  "remove_wo m c =
     \<lparr>ra_instance = myvid c + 1, ra_nodes = mems c, ra_value = config_value (filter (\<lambda>x. x \<noteq> m) (mems c))\<rparr>"

section \<open>Heartbeats\<close>

definition heartbeat :: "string \<Rightarrow> u32 \<Rightarrow> config \<Rightarrow> fault + (int \<times> i32)" where
  "heartbeat m vid c =
     (if vid = myvid c then Inr (paxos_status px_OK, myvid c)
      else if isrunning (cf_pro c) then
        bind_f (VERIFY (vid = myvid c + 1 \<or> vid + 1 = myvid c)) (\<lambda>_. Inr (paxos_status px_OK, myvid c))
      else Inr (paxos_status px_ERR, myvid c))"

text \<open>
  \<open>a\<close> and \<open>cl\<close> are the addresses of a new \<open>hinfo\<close> and of a new client, \<open>bret\<close> is the result of its \<open>bind\<close> and \<open>cret\<close> the
  result of the call. The handle is destroyed at the end.
\<close>

definition doheartbeat ::
  "nat \<Rightarrow> nat \<Rightarrow> int \<Rightarrow> i32 \<Rightarrow> string \<Rightarrow> handle_mgr \<Rightarrow> fault + (heartbeat_t \<times> handle_mgr)" where
  "doheartbeat a cl bret cret m hs =
     bind_f (get_handle a m hs) (\<lambda>(h, hs).
     bind_f (safebind cl bret h hs) (\<lambda>(r, hs).
       let ret = (if r \<noteq> None then cret else timeout_failure) in
       bind_f (if sint ret \<noteq> paxos_status px_OK \<and> (ret = atmostonce_failure \<or> ret = oldsrv_failure)
               then delete_handle m hs else Inr hs) (\<lambda>hs.
       bind_f (handle_destroy h hs) (\<lambda>hs.
         Inr (if sint ret = paxos_status px_OK \<or> ret = atmostonce_failure \<or> ret = oldsrv_failure then hb_OK
              else if sint ret < 0 then hb_FAILURE else hb_VIEWERR, hs)))))"

text \<open>The node with the smallest name.\<close>

fun smallest :: "string \<Rightarrow> string list \<Rightarrow> string" where
  "smallest m [] = m"
| "smallest m (x # xs) = smallest (if m > x then x else m) xs"

text \<open>
  The loop over the other nodes; \<open>hb i\<close> is the result of the \<open>i\<close>-th \<open>doheartbeat\<close>. The result is the first node that is
  not well.
\<close>

fun ping_rest :: "string \<Rightarrow> (nat \<Rightarrow> heartbeat_t) \<Rightarrow> string list \<Rightarrow> string option" where
  "ping_rest me hb [] = None"
| "ping_rest me hb (x # xs) =
     (if x \<noteq> me then if hb 0 \<noteq> hb_OK then Some x else ping_rest me (\<lambda>i. hb (Suc i)) xs
      else ping_rest me hb xs)"

text \<open>
  One round of \<open>heartbeater\<close> after its wait. \<open>heartbeater_node\<close> is the node that is not well, if the loop ends with
  \<open>stable\<close> false. \<open>c'\<close> is the state when the heartbeats have been answered. The result of the round is the call of \<open>run\<close>
  by \<open>remove_wo\<close>, if it is made.
\<close>

definition heartbeater_node :: "(nat \<Rightarrow> heartbeat_t) \<Rightarrow> config \<Rightarrow> string option" where
  "heartbeater_node hb c =
     (let (cmems, c) = get_view_wo (myvid c) c; me = cf_me c in
      if \<not> isamember me cmems then None
      else let m = smallest me cmems in
        if m = me then ping_rest me hb cmems
        else if hb 0 \<noteq> hb_OK then Some m else None)"

definition heartbeater_round :: "(nat \<Rightarrow> heartbeat_t) \<Rightarrow> config \<Rightarrow> config \<Rightarrow> run_args option" where
  "heartbeater_round hb c c' =
     (case heartbeater_node hb c of
        None \<Rightarrow> None
      | Some m \<Rightarrow> if myvid c = myvid c' then Some (remove_wo m c') else None)"

section \<open>Proposed views\<close>

lemma get_view_wo_simp [simp]:
  "fst (get_view_wo i c) = members (map_at [] (vals (cf_acc c)) i)"
  "snd (get_view_wo i c) = c\<lparr>cf_acc := snd (ac_value i (cf_acc c))\<rparr>"
  by (simp_all add: get_view_wo_def ac_value_def)

lemma smallest_in: "smallest m xs \<in> insert m (set xs)"
proof (induction xs arbitrary: m)
  case (Cons x xs)
  then show ?case using Cons [of x] Cons [of m] by auto
qed simp

lemma smallest_le: "x \<in> insert m (set xs) \<Longrightarrow> smallest m xs \<le> x"
proof (induction xs arbitrary: m x)
  case (Cons y ys)
  have le: "smallest (if m > y then y else m) ys \<le> (if m > y then y else m)" by (rule Cons.IH) simp
  show ?case
  proof (cases "x \<in> set ys")
    case True
    then show ?thesis using Cons.IH [of x] by simp
  next
    case False
    then have "x = m \<or> x = y" using Cons.prems by auto
    moreover have "(if m > y then y else m) \<le> m" "(if m > y then y else m) \<le> y" by auto
    ultimately show ?thesis using le by (auto simp del: if_split)
  qed
qed simp

lemma ping_rest_Some: "ping_rest me hb xs = Some x \<Longrightarrow> x \<in> set xs \<and> x \<noteq> me"
  by (induction xs arbitrary: hb) (auto split: if_splits)

lemma heartbeater_node_Some:
  assumes "heartbeater_node hb c = Some m"
  shows "m \<in> set (members (map_at [] (vals (cf_acc c)) (myvid c))) \<and> m \<noteq> cf_me c \<and>
    cf_me c \<in> set (members (map_at [] (vals (cf_acc c)) (myvid c)))"
  using assms smallest_in [of "cf_me c" "members (map_at [] (vals (cf_acc c)) (myvid c))"]
  by (auto simp: heartbeater_node_def get_view_wo_def ac_value_def Let_def split: if_splits dest: ping_rest_Some)

section \<open>The view follows the decisions\<close>

text \<open>\<open>pending\<close> are the upcalls of \<open>commit_wo\<close> that have not run yet; \<open>ordered\<close> lets them run in order only.\<close>

record cfg_sys =
  cs_cfg :: config
  cs_mgr :: handle_mgr
  pending :: "(u32 \<times> string) list"

definition upcall :: "(u32 \<times> string) option \<Rightarrow> (u32 \<times> string) list" where
  "upcall up = (case up of None \<Rightarrow> [] | Some p \<Rightarrow> [p])"

inductive cfg_step :: "bool \<Rightarrow> cfg_sys \<Rightarrow> cfg_sys \<Rightarrow> bool" for ordered :: bool where
  cs_prepare: "preparereq a r (cf_acc (cs_cfg y)) = (res, ac') \<Longrightarrow>
    cfg_step ordered y (y\<lparr>cs_cfg := (cs_cfg y)\<lparr>cf_acc := ac'\<rparr>\<rparr>)"
| cs_accept: "acceptreq b (cf_acc (cs_cfg y)) = (res', ac') \<Longrightarrow>
    cfg_step ordered y (y\<lparr>cs_cfg := (cs_cfg y)\<lparr>cf_acc := ac'\<rparr>\<rparr>)"
| cs_commit: "ac_commit True i v (cf_acc (cs_cfg y)) = (ac', up) \<Longrightarrow>
    cfg_step ordered y (y\<lparr>cs_cfg := (cs_cfg y)\<lparr>cf_acc := ac'\<rparr>, pending := pending y @ upcall up\<rparr>)"
| cs_decide: "decidereq True d (cf_acc (cs_cfg y)) = Inr (st, ac', up) \<Longrightarrow>
    cfg_step ordered y (y\<lparr>cs_cfg := (cs_cfg y)\<lparr>cf_acc := ac'\<rparr>, pending := pending y @ upcall up\<rparr>)"
| cs_upcall: "\<lbrakk>pending y = us @ (i, v) # ws; ordered \<longrightarrow> us = [];
      paxos_commit vc i v (cs_cfg y, cs_mgr y) = Inr ((c', hs'), ch)\<rbrakk> \<Longrightarrow>
    cfg_step ordered y (y\<lparr>cs_cfg := c', cs_mgr := hs', pending := us @ ws\<rparr>)"
| cs_view: "get_view i (cs_cfg y) = (view, c') \<Longrightarrow> cfg_step ordered y (y\<lparr>cs_cfg := c'\<rparr>)"
| cs_restore: "\<lbrakk>pending y = []; config_restore i0 s (cs_cfg y) = Inr c'\<rbrakk> \<Longrightarrow>
    cfg_step ordered y (y\<lparr>cs_cfg := c'\<rparr>)"

definition cfg_start :: "cfg_sys \<Rightarrow> bool" where
  "cfg_start y \<longleftrightarrow> (\<exists>i0 file first me. config_init i0 file first me = Inr (cs_cfg y)) \<and>
     cs_mgr y = handle_mgr_init \<and> pending y = []"

definition current :: "config \<Rightarrow> bool" where
  "current c \<longleftrightarrow> (0 < instance_h (cf_acc c) \<longrightarrow>
     myvid c = instance_h (cf_acc c) \<and> mems c = members (map_at [] (vals (cf_acc c)) (instance_h (cf_acc c))))"

definition cfg_ok :: "cfg_sys \<Rightarrow> bool" where
  "cfg_ok y \<longleftrightarrow>
     (if pending y = [] then current (cs_cfg y)
      else last (pending y) = (instance_h (cf_acc (cs_cfg y)), map_at [] (vals (cf_acc (cs_cfg y))) (instance_h (cf_acc (cs_cfg y)))))"

lemma current_reconstruct [simp]: "current (reconstruct c)"
  by (simp add: current_def reconstruct_def get_view_wo_def ac_value_def Let_def)

lemma commit_wo_ok:
  assumes "cfg_ok y" and "commit_wo True i v (cf_acc (cs_cfg y)) = (ac', up)"
  shows "cfg_ok (y\<lparr>cs_cfg := (cs_cfg y)\<lparr>cf_acc := ac'\<rparr>, pending := pending y @ upcall up\<rparr>)"
  using assms
  by (auto simp: cfg_ok_def current_def commit_wo_def upcall_def Let_def loginstance_def map_at_def split: if_splits)

lemma same_values_ok:
  assumes "cfg_ok y" and "instance_h ac' = instance_h (cf_acc (cs_cfg y))"
    and "\<And>i. map_at [] (vals ac') i = map_at [] (vals (cf_acc (cs_cfg y))) i"
  shows "cfg_ok (y\<lparr>cs_cfg := (cs_cfg y)\<lparr>cf_acc := ac'\<rparr>\<rparr>)"
  using assms by (cases "pending y = []") (simp_all add: cfg_ok_def current_def)

lemma cfg_step_ok:
  assumes "cfg_ok y" and "cfg_step True y y'"
  shows "cfg_ok y'"
  using assms(2)
proof cases
  case (cs_prepare a r res ac')
  then show ?thesis
    by (auto intro!: same_values_ok [OF assms(1)] simp: preparereq_def ac_value_def logprop_def Let_def split: if_splits)
next
  case (cs_accept b res ac')
  then show ?thesis
    by (auto intro!: same_values_ok [OF assms(1)] simp: acceptreq_def logaccept_def split: if_splits)
next
  case (cs_commit i v ac' up)
  then show ?thesis using commit_wo_ok [OF assms(1)] by (simp add: ac_commit_def)
next
  case (cs_decide d st ac' up)
  then show ?thesis
    using assms(1) commit_wo_ok [OF assms(1)]
    by (auto simp: decidereq_def upcall_def bind_f_eq_Inr split: if_splits)
next
  case (cs_upcall us i v ws vc c' hs' ch)
  then have c': "c' = (cs_cfg y)\<lparr>mems := members v, myvid := i\<rparr>"
    by (auto simp: paxos_commit_def bind_f_eq_Inr Let_def)
  have "pending y = (i, v) # ws" using cs_upcall by simp
  then show ?thesis using assms(1) cs_upcall(1,3) by (cases ws) (auto simp: cfg_ok_def current_def c')
next
  case (cs_view i view c')
  then show ?thesis
    using assms(1) by (auto simp: get_view_def get_view_wo_def ac_value_def cfg_ok_def current_def)
next
  case (cs_restore i0 s c')
  then show ?thesis by (auto simp: cfg_ok_def config_restore_def bind_f_eq_Inr)
qed

interpretation views: step_invariant cfg_start "cfg_step True" cfg_ok
proof unfold_locales
  fix y assume "cfg_start y"
  then show "cfg_ok y"
    by (auto simp: cfg_start_def cfg_ok_def config_init_def bind_f_eq_Inr dest!: sym [of _ "cs_cfg y"])
qed (rule cfg_step_ok)

section \<open>Handles\<close>

text \<open>No operation of \<open>config\<close> on handles touches freed memory.\<close>

lemma commit_loop_ok:
  assumes "mgr_ok hs L"
  shows "\<exists>hs'. commit_loop me newmem ms hs = Inr hs' \<and> mgr_ok hs' L"
  using assms
proof (induction ms arbitrary: hs)
  case (Cons m ms)
  obtain hs' where "delete_handle_wo m hs = Inr hs'" "mgr_ok hs' L"
    using delete_handle_ok [OF Cons.prems] by blast
  then show ?case using Cons.IH [of hs'] Cons.IH [OF Cons.prems] by (simp add: delete_handle_def)
qed simp

lemma paxos_commit_total:
  assumes "mgr_ok hs L"
  shows "\<exists>hs'. paxos_commit vc i v (c, hs) =
      Inr ((c\<lparr>mems := members v, myvid := i\<rparr>, hs'), if vc then Some i else None) \<and> mgr_ok hs' L"
  using commit_loop_ok [OF assms, of "cf_me c" "members v" "mems c"] by (auto simp: paxos_commit_def Let_def)

lemma doheartbeat_total:
  assumes ok: "mgr_ok hs L" and a: "hheap hs a = None" and cl: "cl \<notin> clients hs"
  shows "\<exists>r hs'. doheartbeat a cl bret cret m hs = Inr (r, hs') \<and> mgr_ok hs' L"
proof -
  obtain h hs1 where h: "get_handle a m hs = Inr (h, hs1)"
      "mgr_ok hs1 (case h of None \<Rightarrow> L | Some b \<Rightarrow> add_mset b L)"
    using get_handle_ok [OF ok a] by blast
  have c1: "clients hs1 = clients hs"
    using h(1) by (auto simp: get_handle_def bind_f_eq_Inr split: option.splits if_splits)
  let ?L = "case h of None \<Rightarrow> L | Some b \<Rightarrow> add_mset b L"
  have "\<exists>r hs2. safebind cl bret h hs1 = Inr (r, hs2) \<and> mgr_ok hs2 ?L"
  proof (cases h)
    case None
    then show ?thesis using h(2) by (simp add: safebind_def)
  next
    case (Some b)
    then show ?thesis using safebind_ok [of hs1 "add_mset b L" b cl bret] h(2) cl c1 by auto
  qed
  then obtain r hs2 where r: "safebind cl bret h hs1 = Inr (r, hs2)" "mgr_ok hs2 ?L" by blast
  let ?d = "\<lambda>ret. if sint ret \<noteq> paxos_status px_OK \<and> (ret = atmostonce_failure \<or> ret = oldsrv_failure)
               then delete_handle m hs2 else Inr hs2"
  have d: "\<exists>hs3. ?d ret = Inr hs3 \<and> mgr_ok hs3 ?L" for ret
    using delete_handle_ok [OF r(2)] r(2) by (simp add: delete_handle_def)
  have e: "\<exists>hs4. handle_destroy h hs3 = Inr hs4 \<and> mgr_ok hs4 L" if "mgr_ok hs3 ?L" for hs3
    using that done_handle_ok [of hs3 "add_mset (the h) L" "the h"] by (cases h) (auto simp: handle_destroy_def)
  define ret where "ret = (if r \<noteq> None then cret else timeout_failure)"
  obtain hs3 where 3: "?d ret = Inr hs3" "mgr_ok hs3 ?L" using d [of ret] by blast
  obtain hs4 where 4: "handle_destroy h hs3 = Inr hs4" "mgr_ok hs4 L" using e [OF 3(2)] by blast
  show ?thesis
    unfolding doheartbeat_def Let_def h(1) r(1) bind_f_simps prod.case ret_def [symmetric] 3(1) 4(1) using 4(2) by simp
qed

section \<open>Properties\<close>


definition demo_cfg :: cfg_sys where
  "demo_cfg = \<lparr>cs_cfg = reconstruct \<lparr>cf_acc = (loginstance 1 ''a'' ((acceptor_fresh ''a'' [])\<lparr>vals := [1 \<mapsto> ''a'']\<rparr>))\<lparr>instance_h := 1\<rparr>,
      cf_pro = proposer_init ''a'', myvid = 0, cf_first = ''a'', cf_me = ''a'', mems = []\<rparr>, cs_mgr = handle_mgr_init, pending = []\<rparr>"

lemma demo_cfg_start: "cfg_start demo_cfg"
proof -
  have "config_init 0 [] ''a'' ''a'' = Inr (cs_cfg demo_cfg)"
    by (simp add: config_init_def acceptor_init_empty demo_cfg_def)
  then show ?thesis unfolding cfg_start_def by (auto simp: demo_cfg_def)
qed

lemma demo_cfg_reach: "reach cfg_start (cfg_step b) demo_cfg"
  by (rule reach_init) (rule demo_cfg_start)

lemma demo_cfg_instance: "instance_h (cf_acc (cs_cfg demo_cfg)) = 1" "pending demo_cfg = []" "cs_mgr demo_cfg = handle_mgr_init"
  "map_at [] (vals (cf_acc (cs_cfg demo_cfg))) 1 = ''a''"
  by (simp_all add: demo_cfg_def reconstruct_def get_view_wo_def ac_value_def loginstance_def Let_def)


lemma overtaking_upcalls:
  assumes "reach init (cfg_step False) y" and "pending y = []" and "mgr_ok (cs_mgr y) L"
    and "instance_h (cf_acc (cs_cfg y)) < i" and "i < j"
  shows "\<exists>y'. reach init (cfg_step False) y' \<and> pending y' = [] \<and> myvid (cs_cfg y') = i \<and> instance_h (cf_acc (cs_cfg y')) = j"
proof -
  have commit: "\<exists>b. ac_commit True k [] a = (b, Some (k, [])) \<and> instance_h b = k" if "instance_h a < k" for a k
    using that by (simp add: ac_commit_def commit_wo_def Let_def)
  obtain a where a: "ac_commit True i [] (cf_acc (cs_cfg y)) = (a, Some (i, []))" "instance_h a = i"
    using commit [OF assms(4)] by blast
  obtain b where b: "ac_commit True j [] a = (b, Some (j, []))" "instance_h b = j"
    using commit [of a j] assms(5) a(2) by blast
  define c where "c = (cs_cfg y)\<lparr>cf_acc := b\<rparr>"
  have 1: "reach init (cfg_step False) (y\<lparr>cs_cfg := (cs_cfg y)\<lparr>cf_acc := a\<rparr>, pending := [(i, [])]\<rparr>)"
    by (rule reach_step_eq [OF assms(1) cs_commit [OF a(1)]]) (simp add: upcall_def assms(2))
  have 2: "reach init (cfg_step False) (y\<lparr>cs_cfg := c, pending := [(i, []), (j, [])]\<rparr>)"
    by (rule reach_step_eq [OF 1 cs_commit [where ac' = b and up = "Some (j, [])" and i = j and v = "[]"]])
      (simp_all add: b upcall_def c_def)
  obtain hs where hs: "paxos_commit True j [] (c, cs_mgr y) = Inr ((c\<lparr>mems := members [], myvid := j\<rparr>, hs), Some j)" "mgr_ok hs L"
    using paxos_commit_total [OF assms(3), of True j "[]" c] by auto
  obtain hs' where hs': "paxos_commit True i [] (c\<lparr>mems := members [], myvid := j\<rparr>, hs) =
      Inr (((c\<lparr>mems := members [], myvid := j\<rparr>)\<lparr>mems := members [], myvid := i\<rparr>, hs'), Some i)"
    using paxos_commit_total [OF hs(2), of True i "[]" "c\<lparr>mems := members [], myvid := j\<rparr>"] by auto
  have 3: "reach init (cfg_step False) (y\<lparr>cs_cfg := c\<lparr>mems := members [], myvid := j\<rparr>, cs_mgr := hs, pending := [(i, [])]\<rparr>)"
    by (rule reach_step_eq [OF 2 cs_upcall [where us = "[(i, [])]" and i = j and v = "[]" and ws = "[]" and vc = True]])
      (simp_all add: hs)
  have 4: "reach init (cfg_step False) (y\<lparr>cs_cfg := c\<lparr>mems := members [], myvid := i\<rparr>, cs_mgr := hs', pending := []\<rparr>)"
    by (rule reach_step_eq [OF 3 cs_upcall [where us = "[]" and i = i and v = "[]" and ws = "[]" and vc = True]])
      (simp_all add: hs')
  have "instance_h (cf_acc c) = j" using b(2) by (simp add: c_def)
  with 4 show ?thesis by fastforce
qed

text \<open>
  C16. \<open>paxos_commit\<close> does not compare the instance with \<open>myvid\<close>, and the acceptor calls it after releasing its mutex: when
  the upcalls of two decisions overtake each other, the node ends in the older view, with no upcall left to correct it.
\<close>

theorem stale_view:
  "\<exists>y. reach cfg_start (cfg_step False) y \<and> pending y = [] \<and> myvid (cs_cfg y) < instance_h (cf_acc (cs_cfg y))"
proof -
  have "mgr_ok handle_mgr_init {#}" by (auto simp: mgr_ok_def handle_mgr_init_def)
  with overtaking_upcalls [OF demo_cfg_reach, of "{#}" 2 3] obtain y where
    "reach cfg_start (cfg_step False) y" "pending y = []" "myvid (cs_cfg y) = 2" "instance_h (cf_acc (cs_cfg y)) = 3"
    by (auto simp: demo_cfg_instance)
  then show ?thesis by (intro exI [of _ y]) simp
qed


definition demo_two :: config where
  "demo_two = \<lparr>cf_acc = (acceptor_fresh ''a'' [])\<lparr>instance_h := 2, vals := [2 \<mapsto> ''a b '']\<rparr>, cf_pro = proposer_init ''a'',
     myvid = 2, cf_first = ''a'', cf_me = ''a'', mems = [''a'', ''b'']\<rparr>"

lemma members_demo: "members ''a b '' = [''a'', ''b'']"
  using members_config_value [of "[''a'', ''b'']"] by (simp add: config_value_def is_word_def isspace_def)


end
