(* ===== verification/Messages.thy ===== *)
theory Messages
  imports Wire_Codec Paxos Extent
begin

text \<open>
  The structures that travel in remote calls, with the marshalling operators of \<^verbatim>\<open>extent_protocol.h\<close>,
  \<^verbatim>\<open>paxos_protocol.h\<close> and \<^verbatim>\<open>rsm_protocol.h\<close>. Every pair of operators is an interpretation of the contract
  \<open>codec\<close>, obtained from those of the fields by \<open>codec_pairs\<close> and \<open>codec_iso\<close>. The first argument of a reading operator
  is the earlier content of its destination.
\<close>

section \<open>Structures of the replicated state machine\<close>

datatype rsm_client_xxstatus = rc_OK | rc_ERR | rc_NOTPRIMARY | rc_BUSY

fun rsm_client_status :: "rsm_client_xxstatus \<Rightarrow> int" where
  "rsm_client_status rc_OK = 0"
| "rsm_client_status rc_ERR = 1"
| "rsm_client_status rc_NOTPRIMARY = 2"
| "rsm_client_status rc_BUSY = 3"

record viewstamp =
  vs_vid :: u32
  vs_seqno :: u32

datatype rsm_xxstatus = rs_OK | rs_ERR | rs_BUSY

fun rsm_status :: "rsm_xxstatus \<Rightarrow> int" where
  "rsm_status rs_OK = 0"
| "rsm_status rs_ERR = 1"
| "rsm_status rs_BUSY = 2"

record transferres =
  tr_state :: string
  tr_last :: viewstamp

record joinres =
  jr_log :: string

datatype rsm_test_xxstatus = rt_OK | rt_ERR

fun rsm_test_status :: "rsm_test_xxstatus \<Rightarrow> int" where
  "rsm_test_status rt_OK = 0"
| "rsm_test_status rt_ERR = 1"

definition vs_eq :: "viewstamp \<Rightarrow> viewstamp \<Rightarrow> bool" where
  "vs_eq a b \<longleftrightarrow> vs_vid a = vs_vid b \<and> vs_seqno a = vs_seqno b"

definition vs_gt :: "viewstamp \<Rightarrow> viewstamp \<Rightarrow> bool" where
  "vs_gt a b \<longleftrightarrow> vs_vid a > vs_vid b \<or> (vs_vid a = vs_vid b \<and> vs_seqno a > vs_seqno b)"

definition vs_neq :: "viewstamp \<Rightarrow> viewstamp \<Rightarrow> bool" where
  "vs_neq a b \<longleftrightarrow> vs_vid a \<noteq> vs_vid b \<or> vs_seqno a \<noteq> vs_seqno b"

section \<open>Operators\<close>

definition put_attr :: "attr \<Rightarrow> marshall \<Rightarrow> fault + marshall" where
  "put_attr a m =
     bind_f (put_u32 (at_atime a) m) (\<lambda>m.
     bind_f (put_u32 (at_mtime a) m) (\<lambda>m.
     bind_f (put_u32 (at_ctime a) m) (\<lambda>m.
     put_u32 (at_size a) m)))"

definition get_attr :: "attr \<Rightarrow> unmarshall \<Rightarrow> fault + (attr \<times> unmarshall)" where
  "get_attr old u =
     bind_f (get_u32 u) (\<lambda>(at, u).
     bind_f (get_u32 u) (\<lambda>(mt, u).
     bind_f (get_u32 u) (\<lambda>(ct, u).
     bind_f (get_u32 u) (\<lambda>(sz, u).
       Inr (\<lparr>at_atime = at, at_mtime = mt, at_ctime = ct, at_size = sz\<rparr>, u)))))"

definition put_prop :: "prop_t \<Rightarrow> marshall \<Rightarrow> fault + marshall" where
  "put_prop a m = bind_f (put_u32 (pn a) m) (put_string (pm a))"

definition get_prop :: "prop_t \<Rightarrow> unmarshall \<Rightarrow> fault + (prop_t \<times> unmarshall)" where
  "get_prop old u =
     bind_f (get_u32 u) (\<lambda>(n, u).
     bind_f (get_string (pm old) u) (\<lambda>(m, u). Inr (Prop n m, u)))"

definition put_preparearg :: "preparearg \<Rightarrow> marshall \<Rightarrow> fault + marshall" where
  "put_preparearg a m = bind_f (put_u32 (pa_instance a) m) (put_prop (pa_n a))"

definition get_preparearg :: "preparearg \<Rightarrow> unmarshall \<Rightarrow> fault + (preparearg \<times> unmarshall)" where
  "get_preparearg old u =
     bind_f (get_u32 u) (\<lambda>(i, u).
     bind_f (get_prop (pa_n old) u) (\<lambda>(n, u). Inr (\<lparr>pa_instance = i, pa_n = n\<rparr>, u)))"

definition put_prepareres :: "prepareres \<Rightarrow> marshall \<Rightarrow> fault + marshall" where
  "put_prepareres r m =
     bind_f (put_bool (pr_oldinstance r) m) (\<lambda>m.
     bind_f (put_bool (pr_accept r) m) (\<lambda>m.
     bind_f (put_prop (pr_n_a r) m) (\<lambda>m.
     put_string (pr_v_a r) m)))"

definition get_prepareres :: "prepareres \<Rightarrow> unmarshall \<Rightarrow> fault + (prepareres \<times> unmarshall)" where
  "get_prepareres old u =
     bind_f (get_bool u) (\<lambda>(o', u).
     bind_f (get_bool u) (\<lambda>(a, u).
     bind_f (get_prop (pr_n_a old) u) (\<lambda>(n, u).
     bind_f (get_string (pr_v_a old) u) (\<lambda>(v, u).
       Inr (\<lparr>pr_oldinstance = o', pr_accept = a, pr_n_a = n, pr_v_a = v\<rparr>, u)))))"

definition put_acceptarg :: "acceptarg \<Rightarrow> marshall \<Rightarrow> fault + marshall" where
  "put_acceptarg a m =
     bind_f (put_u32 (aa_instance a) m) (\<lambda>m.
     bind_f (put_prop (aa_n a) m) (\<lambda>m.
     put_string (aa_v a) m))"

definition get_acceptarg :: "acceptarg \<Rightarrow> unmarshall \<Rightarrow> fault + (acceptarg \<times> unmarshall)" where
  "get_acceptarg old u =
     bind_f (get_u32 u) (\<lambda>(i, u).
     bind_f (get_prop (aa_n old) u) (\<lambda>(n, u).
     bind_f (get_string (aa_v old) u) (\<lambda>(v, u).
       Inr (\<lparr>aa_instance = i, aa_n = n, aa_v = v\<rparr>, u))))"

definition put_decidearg :: "decidearg \<Rightarrow> marshall \<Rightarrow> fault + marshall" where
  "put_decidearg a m = bind_f (put_u32 (da_instance a) m) (put_string (da_v a))"

definition get_decidearg :: "decidearg \<Rightarrow> unmarshall \<Rightarrow> fault + (decidearg \<times> unmarshall)" where
  "get_decidearg old u =
     bind_f (get_u32 u) (\<lambda>(i, u).
     bind_f (get_string (da_v old) u) (\<lambda>(v, u). Inr (\<lparr>da_instance = i, da_v = v\<rparr>, u)))"

definition put_viewstamp :: "viewstamp \<Rightarrow> marshall \<Rightarrow> fault + marshall" where
  "put_viewstamp v m = bind_f (put_u32 (vs_vid v) m) (put_u32 (vs_seqno v))"

definition get_viewstamp :: "viewstamp \<Rightarrow> unmarshall \<Rightarrow> fault + (viewstamp \<times> unmarshall)" where
  "get_viewstamp old u =
     bind_f (get_u32 u) (\<lambda>(v, u).
     bind_f (get_u32 u) (\<lambda>(s, u). Inr (\<lparr>vs_vid = v, vs_seqno = s\<rparr>, u)))"

definition put_transferres :: "transferres \<Rightarrow> marshall \<Rightarrow> fault + marshall" where
  "put_transferres r m = bind_f (put_string (tr_state r) m) (put_viewstamp (tr_last r))"

definition get_transferres :: "transferres \<Rightarrow> unmarshall \<Rightarrow> fault + (transferres \<times> unmarshall)" where
  "get_transferres old u =
     bind_f (get_string (tr_state old) u) (\<lambda>(s, u).
     bind_f (get_viewstamp (tr_last old) u) (\<lambda>(l, u). Inr (\<lparr>tr_state = s, tr_last = l\<rparr>, u)))"

definition put_joinres :: "joinres \<Rightarrow> marshall \<Rightarrow> fault + marshall" where
  "put_joinres r m = put_string (jr_log r) m"

definition get_joinres :: "joinres \<Rightarrow> unmarshall \<Rightarrow> fault + (joinres \<times> unmarshall)" where
  "get_joinres old u = bind_f (get_string (jr_log old) u) (\<lambda>(l, u). Inr (\<lparr>jr_log = l\<rparr>, u))"

section \<open>Composition of codecs\<close>

text \<open>Two values one after the other, as in the arguments of a call.\<close>

definition put_pair ::
  "('a \<Rightarrow> marshall \<Rightarrow> fault + marshall) \<Rightarrow> ('b \<Rightarrow> marshall \<Rightarrow> fault + marshall) \<Rightarrow> 'a \<times> 'b \<Rightarrow> marshall \<Rightarrow> fault + marshall" where
  "put_pair p q x m = bind_f (p (fst x) m) (q (snd x))"

definition get_pair ::
  "('a \<Rightarrow> unmarshall \<Rightarrow> fault + ('a \<times> unmarshall)) \<Rightarrow> ('b \<Rightarrow> unmarshall \<Rightarrow> fault + ('b \<times> unmarshall)) \<Rightarrow>
   'a \<times> 'b \<Rightarrow> unmarshall \<Rightarrow> fault + (('a \<times> 'b) \<times> unmarshall)" where
  "get_pair g h old u =
     bind_f (g (fst old) u) (\<lambda>(a, u). bind_f (h (snd old) u) (\<lambda>(b, u). Inr ((a, b), u)))"

lemmas pair_ops = put_pair_def [abs_def] get_pair_def [abs_def]

lemma codec_pairs:
  assumes "codec p g e v" and "codec q h f w"
  shows "codec (put_pair p q) (get_pair g h) (\<lambda>x. e (fst x) @ f (snd x)) (\<lambda>x. v (fst x) \<and> w (snd x))"
  using codec_pair [OF assms] by (simp add: pair_ops split_def)

lemma codec_iso:
  assumes "codec p g e v" and "\<And>x. mk (parts x) = x"
    and "\<And>x. put x = p (parts x)" and "\<And>old. get old = (\<lambda>u. bind_f (g (parts old) u) (\<lambda>(a, u). Inr (mk a, u)))"
  shows "codec put get (\<lambda>x. e (parts x)) (\<lambda>x. v (parts x))"
proof -
  note P = codec.put_writes [OF assms(1)] codec.get_reads [OF assms(1)] codec.get_rejects [OF assms(1)] codec.get_safe [OF assms(1)]
  show ?thesis
  proof (unfold_locales, goal_cases)
    case (2 x old)
    then show ?case
      using reads_bind_return [OF P(2) [OF 2, of "parts old"], of mk] unfolding assms(4) by (simp add: assms(2))
  next
    case (3 x old)
    then show ?case unfolding assms(4) by (rule rejects_bind_return [OF P(3)])
  next
    case (4 old)
    show ?case unfolding assms(4) by (intro safe_bind safe_return P)
  qed (simp add: assms(3) P(1))
qed

section \<open>The structures\<close>

interpretation cd_attr: codec put_attr get_attr
  "\<lambda>a. enc_u32 (at_atime a) @ enc_u32 (at_mtime a) @ enc_u32 (at_ctime a) @ enc_u32 (at_size a)" "\<lambda>_. True"
  using codec_iso [OF codec_pairs [OF cd_u32.codec_axioms codec_pairs [OF cd_u32.codec_axioms
      codec_pairs [OF cd_u32.codec_axioms cd_u32.codec_axioms]]],
    where parts = "\<lambda>a. (at_atime a, at_mtime a, at_ctime a, at_size a)" and put = put_attr and get = get_attr
      and mk = "\<lambda>(a, m, c, s). \<lparr>at_atime = a, at_mtime = m, at_ctime = c, at_size = s\<rparr>"]
  by (simp add: fun_eq_iff put_attr_def get_attr_def pair_ops bind_f_assoc split_def)

interpretation cd_prop: codec put_prop get_prop "\<lambda>a. enc_u32 (pn a) @ enc_string (pm a)" "\<lambda>a. valid_string (pm a)"
  using codec_iso [OF codec_pairs [OF cd_u32.codec_axioms cd_string.codec_axioms],
    where parts = "\<lambda>a. (pn a, pm a)" and put = put_prop and get = get_prop and mk = "\<lambda>(n, m). Prop n m"]
  by (simp add: fun_eq_iff put_prop_def get_prop_def pair_ops bind_f_assoc split_def)

interpretation cd_preparearg: codec put_preparearg get_preparearg
  "\<lambda>a. enc_u32 (pa_instance a) @ enc_u32 (pn (pa_n a)) @ enc_string (pm (pa_n a))" "\<lambda>a. valid_string (pm (pa_n a))"
  using codec_iso [OF codec_pairs [OF cd_u32.codec_axioms cd_prop.codec_axioms],
    where parts = "\<lambda>a. (pa_instance a, pa_n a)" and put = put_preparearg and get = get_preparearg
      and mk = "\<lambda>(i, n). \<lparr>pa_instance = i, pa_n = n\<rparr>"]
  by (simp add: fun_eq_iff put_preparearg_def get_preparearg_def pair_ops bind_f_assoc split_def)

interpretation cd_prepareres: codec put_prepareres get_prepareres
  "\<lambda>r. enc_bool (pr_oldinstance r) @ enc_bool (pr_accept r) @ (enc_u32 (pn (pr_n_a r)) @ enc_string (pm (pr_n_a r))) @ enc_string (pr_v_a r)"
  "\<lambda>r. valid_string (pm (pr_n_a r)) \<and> valid_string (pr_v_a r)"
  using codec_iso [OF codec_pairs [OF cd_bool.codec_axioms codec_pairs [OF cd_bool.codec_axioms
      codec_pairs [OF cd_prop.codec_axioms cd_string.codec_axioms]]],
    where parts = "\<lambda>r. (pr_oldinstance r, pr_accept r, pr_n_a r, pr_v_a r)" and put = put_prepareres and get = get_prepareres
      and mk = "\<lambda>(b, a, n, v). \<lparr>pr_oldinstance = b, pr_accept = a, pr_n_a = n, pr_v_a = v\<rparr>"]
  by (simp add: fun_eq_iff put_prepareres_def get_prepareres_def pair_ops bind_f_assoc split_def)

interpretation cd_acceptarg: codec put_acceptarg get_acceptarg
  "\<lambda>a. enc_u32 (aa_instance a) @ (enc_u32 (pn (aa_n a)) @ enc_string (pm (aa_n a))) @ enc_string (aa_v a)"
  "\<lambda>a. valid_string (pm (aa_n a)) \<and> valid_string (aa_v a)"
  using codec_iso [OF codec_pairs [OF cd_u32.codec_axioms codec_pairs [OF cd_prop.codec_axioms cd_string.codec_axioms]],
    where parts = "\<lambda>a. (aa_instance a, aa_n a, aa_v a)" and put = put_acceptarg and get = get_acceptarg
      and mk = "\<lambda>(i, n, v). \<lparr>aa_instance = i, aa_n = n, aa_v = v\<rparr>"]
  by (simp add: fun_eq_iff put_acceptarg_def get_acceptarg_def pair_ops bind_f_assoc split_def)

interpretation cd_decidearg: codec put_decidearg get_decidearg
  "\<lambda>a. enc_u32 (da_instance a) @ enc_string (da_v a)" "\<lambda>a. valid_string (da_v a)"
  using codec_iso [OF codec_pairs [OF cd_u32.codec_axioms cd_string.codec_axioms],
    where parts = "\<lambda>a. (da_instance a, da_v a)" and put = put_decidearg and get = get_decidearg
      and mk = "\<lambda>(i, v). \<lparr>da_instance = i, da_v = v\<rparr>"]
  by (simp add: fun_eq_iff put_decidearg_def get_decidearg_def pair_ops bind_f_assoc split_def)

interpretation cd_viewstamp: codec put_viewstamp get_viewstamp "\<lambda>v. enc_u32 (vs_vid v) @ enc_u32 (vs_seqno v)" "\<lambda>_. True"
  using codec_iso [OF codec_pairs [OF cd_u32.codec_axioms cd_u32.codec_axioms],
    where parts = "\<lambda>v. (vs_vid v, vs_seqno v)" and put = put_viewstamp and get = get_viewstamp
      and mk = "\<lambda>(v, s). \<lparr>vs_vid = v, vs_seqno = s\<rparr>"]
  by (simp add: fun_eq_iff put_viewstamp_def get_viewstamp_def pair_ops bind_f_assoc split_def)

interpretation cd_transferres: codec put_transferres get_transferres
  "\<lambda>r. enc_string (tr_state r) @ enc_u32 (vs_vid (tr_last r)) @ enc_u32 (vs_seqno (tr_last r))" "\<lambda>r. valid_string (tr_state r)"
  using codec_iso [OF codec_pairs [OF cd_string.codec_axioms cd_viewstamp.codec_axioms],
    where parts = "\<lambda>r. (tr_state r, tr_last r)" and put = put_transferres and get = get_transferres
      and mk = "\<lambda>(s, l). \<lparr>tr_state = s, tr_last = l\<rparr>"]
  by (simp add: fun_eq_iff put_transferres_def get_transferres_def pair_ops bind_f_assoc split_def)

interpretation cd_joinres: codec put_joinres get_joinres "\<lambda>r. enc_string (jr_log r)" "\<lambda>r. valid_string (jr_log r)"
  using codec_iso [OF cd_string.codec_axioms,
    where parts = jr_log and put = put_joinres and get = get_joinres and mk = "\<lambda>l. \<lparr>jr_log = l\<rparr>"]
  by (simp add: fun_eq_iff put_joinres_def get_joinres_def split_def)

section \<open>Messages survive the wire\<close>

text \<open>
  What the writing operator puts into a fresh \<open>marshall\<close> object is read back, whatever the destination held before,
  and nothing of the PDU is left.
\<close>

definition survives ::
  "('a \<Rightarrow> marshall \<Rightarrow> fault + marshall) \<Rightarrow> ('a \<Rightarrow> unmarshall \<Rightarrow> fault + ('a \<times> unmarshall)) \<Rightarrow> 'a \<Rightarrow> bool" where
  "survives put get x \<longleftrightarrow>
     (\<exists>m. put x marshall_init = Inr m \<and>
        (\<forall>bs old. wire_of m bs \<longrightarrow> (\<exists>u. get old (received bs) = Inr (x, u) \<and> okdone u)))"

lemma codec_survives:
  assumes "codec put get enc valid" and "valid x" and "length (enc x) < 2 ^ 30"
  shows "survives put get x"
proof -
  obtain m where m: "put x marshall_init = Inr m" using codec.roundtrip [OF assms] by blast
  with codec.roundtrip [OF assms] show ?thesis by (auto simp: survives_def)
qed

lemma length_enc [simp]: "length (enc_u32 n) = 4" "length (enc_string s) = 4 + length s" "length (enc_bool b) = 1"
  by (simp_all add: enc_u32_def enc_string_def enc_bool_def)

lemmas call_survives =
  codec_survives [OF codec_pairs [OF cd_string.codec_axioms cd_preparearg.codec_axioms]]
  codec_survives [OF codec_pairs [OF cd_string.codec_axioms cd_acceptarg.codec_axioms]]
  codec_survives [OF codec_pairs [OF cd_string.codec_axioms cd_decidearg.codec_axioms]]
  codec_survives [OF cd_prepareres.codec_axioms]
  codec_survives [OF codec_pairs [OF cd_string.codec_axioms cd_viewstamp.codec_axioms]]
  codec_survives [OF cd_joinres.codec_axioms] codec_survives [OF cd_transferres.codec_axioms] codec_survives [OF cd_attr.codec_axioms]

text \<open>
  C19. The arguments of the prepare, accept and decide calls (the sender's name and the structure) and the reply to a prepare
  request are read by the receiver exactly as they were written, when their strings fit into a PDU.
\<close>

theorem paxos_messages_roundtrip:
  assumes "length src < 2 ^ 28"
    and "length (pm (pa_n pa)) < 2 ^ 28"
    and "length (pm (aa_n aa)) < 2 ^ 28" and "length (aa_v aa) < 2 ^ 28" and "length (da_v da) < 2 ^ 28"
    and "length (pm (pr_n_a pr)) < 2 ^ 28" and "length (pr_v_a pr) < 2 ^ 28"
  shows "survives (put_pair put_string put_preparearg) (get_pair get_string get_preparearg) (src, pa) \<and>
    survives (put_pair put_string put_acceptarg) (get_pair get_string get_acceptarg) (src, aa) \<and>
    survives (put_pair put_string put_decidearg) (get_pair get_string get_decidearg) (src, da) \<and>
    survives put_prepareres get_prepareres pr"
  by (intro conjI; rule call_survives) (use assms in simp_all)

theorem paxos_messages_roundtrip_witness:
  "survives (put_pair put_string put_acceptarg) (get_pair get_string get_acceptarg)
     (''a'', \<lparr>aa_instance = 2, aa_n = Prop 1 ''a'', aa_v = ''a b ''\<rparr>)"
  using paxos_messages_roundtrip [of "''a''" "\<lparr>pa_instance = 2, pa_n = Prop 1 ''a''\<rparr>"
      "\<lparr>aa_instance = 2, aa_n = Prop 1 ''a'', aa_v = ''a b ''\<rparr>" "\<lparr>da_instance = 2, da_v = ''a b ''\<rparr>"
      "\<lparr>pr_oldinstance = False, pr_accept = True, pr_n_a = Prop 0 ''a'', pr_v_a = []\<rparr>"] by simp

end
