(* ===== verification/Rsm.thy ===== *)
theory Rsm
  imports Config Messages
begin

text \<open>
  The replicated state machine layer, \<^verbatim>\<open>rsm.cc\<close>: view changes, choice of the primary, joining, recovery and the test
  server. Handlers that release \<open>rsm_mutex\<close> are split there: \<open>joinreq\<close> around \<open>cfg->add\<close>, \<open>recovery\<close> around \<open>join\<close> and
  around the synchronisation. Results of remote calls are arguments. \<open>client_invoke\<close>, \<open>invoke\<close>, \<open>transferreq\<close>,
  \<open>transferdonereq\<close> and the state transfer are the stubs that the sources contain.
\<close>

section \<open>State\<close>

text \<open>\<open>cl_reachable\<close> and \<open>rpc_reachable\<close> are what \<open>set_reachable\<close> changes in the clients of the other nodes and in \<open>rsmrpc\<close>.\<close>

record rsm =
  rs_cfg :: config
  myvs :: viewstamp
  last_myvs :: viewstamp
  primary :: string
  insync :: bool
  inviewchange :: bool
  vid_commit :: u32
  vid_insync :: u32
  backups :: "string list"
  partitioned :: bool
  dopartition :: bool
  rs_break1 :: bool
  rs_break2 :: bool
  cl_reachable :: "string \<Rightarrow> bool"
  rpc_reachable :: bool

definition rs_me :: "rsm \<Rightarrow> string" where
  "rs_me r = cf_me (rs_cfg r)"

definition rs_get_view :: "u32 \<Rightarrow> rsm \<Rightarrow> string list \<times> rsm" where
  "rs_get_view i r = (let (v, c) = get_view i (rs_cfg r) in (v, r\<lparr>rs_cfg := c\<rparr>))"

definition rs_ismember :: "string \<Rightarrow> u32 \<Rightarrow> rsm \<Rightarrow> bool \<times> rsm" where
  "rs_ismember m i r = (let (b, c) = ismember m i (rs_cfg r) in (b, r\<lparr>rs_cfg := c\<rparr>))"

section \<open>View changes\<close>

text \<open>The loop of \<open>set_primary\<close> over the previous view.\<close>

fun first_common :: "string list \<Rightarrow> string list \<Rightarrow> string option" where
  "first_common [] c = None"
| "first_common (x # xs) c = (if isamember x c then Some x else first_common xs c)"

definition set_primary :: "u32 \<Rightarrow> rsm \<Rightarrow> fault + rsm" where
  "set_primary vid r =
     (let (c, r) = rs_get_view vid r; (p, r) = rs_get_view (vid - 1) r in
      bind_f (VERIFY (length c > 0)) (\<lambda>_.
        if isamember (primary r) c then Inr r
        else bind_f (VERIFY (length p > 0)) (\<lambda>_.
          case first_common p c of
            None \<Rightarrow> Inl VerifyFailed
          | Some m \<Rightarrow> Inr (r\<lparr>primary := m\<rparr>))))"

definition rs_breakpoint1 :: "rsm \<Rightarrow> fault + unit" where
  "rs_breakpoint1 r = (if rs_break1 r then Inl (Exited 1) else Inr ())"

definition rs_breakpoint2 :: "rsm \<Rightarrow> fault + unit" where
  "rs_breakpoint2 r = (if rs_break2 r then Inl (Exited 1) else Inr ())"

definition commit_change_wo :: "u32 \<Rightarrow> rsm \<Rightarrow> fault + rsm" where
  "commit_change_wo vid r =
     (if vid \<le> vid_commit r then Inr r
      else
        bind_f (set_primary vid (r\<lparr>vid_commit := vid, inviewchange := True\<rparr>)) (\<lambda>r.
          let (b, r) = rs_ismember (rs_me r) (vid_commit r) r in
          if b then bind_f (rs_breakpoint2 r) (\<lambda>_. Inr r) else Inr r))"

definition commit_change :: "u32 \<Rightarrow> rsm \<Rightarrow> fault + rsm" where
  "commit_change vid r = commit_change_wo vid r"

text \<open>
  The state of a node between the construction of \<open>cfg\<close> and the first view change. \<open>vi\<close> is the uninitialised \<open>vid_insync\<close>;
  \<open>i0\<close> and \<open>file\<close> are as in \<open>config_init\<close>.
\<close>

definition rsm_new :: "u32 \<Rightarrow> string \<Rightarrow> config \<Rightarrow> rsm" where
  "rsm_new vi first c =
     \<lparr>rs_cfg = c, myvs = \<lparr>vs_vid = 0, vs_seqno = 1\<rparr>, last_myvs = \<lparr>vs_vid = 0, vs_seqno = 0\<rparr>,
      primary = first, insync = False, inviewchange = True, vid_commit = 0, vid_insync = vi, backups = [],
      partitioned = False, dopartition = False, rs_break1 = False, rs_break2 = False,
      cl_reachable = (\<lambda>_. True), rpc_reachable = True\<rparr>"

definition rsm_init :: "u32 \<Rightarrow> u32 \<Rightarrow> string \<Rightarrow> string \<Rightarrow> string \<Rightarrow> fault + rsm" where
  "rsm_init vi i0 file first me =
     bind_f (config_init i0 file first me) (\<lambda>c.
       if first = me then commit_change 1 (rsm_new vi first c) else Inr (rsm_new vi first c))"

section \<open>Recovery\<close>

text \<open>The result of the remote call in \<open>join\<close>; \<open>None\<close> when the node could not be bound.\<close>

definition rsm_join :: "u32 \<Rightarrow> (int \<times> joinres) option \<Rightarrow> rsm \<Rightarrow> fault + (bool \<times> rsm)" where
  "rsm_join i0 res r =
     (case res of
        None \<Rightarrow> Inr (False, r)
      | Some (ret, jr) \<Rightarrow>
          if ret \<noteq> rsm_status rs_OK then Inr (False, r)
          else bind_f (config_restore i0 (jr_log jr) (rs_cfg r)) (\<lambda>c. Inr (True, r\<lparr>rs_cfg := c\<rparr>)))"

text \<open>One round of the inner loop; the result tells whether the node is a member, so that the loop ends.\<close>

definition recovery_join :: "u32 \<Rightarrow> (int \<times> joinres) option \<Rightarrow> rsm \<Rightarrow> fault + (bool \<times> rsm)" where
  "recovery_join i0 res r =
     (let (b, r) = rs_ismember (rs_me r) (vid_commit r) r in
      if b then Inr (True, r)
      else bind_f (rsm_join i0 res r) (\<lambda>(ok, r).
        if ok then bind_f (commit_change_wo (myvid (rs_cfg r)) r) (\<lambda>r. Inr (False, r)) else Inr (False, r)))"

text \<open>Up to the synchronisation; the result tells whether it is the one of the primary.\<close>

definition recovery_begin :: "rsm \<Rightarrow> bool \<times> rsm" where
  "recovery_begin r =
     (let r = r\<lparr>vid_insync := vid_commit r\<rparr> in (primary r = rs_me r, r))"

text \<open>After \<open>rsm_mutex\<close> has been taken again.\<close>

definition sync_with_backups :: "rsm \<Rightarrow> bool \<times> rsm" where
  "sync_with_backups r = (let r = r\<lparr>insync := True\<rparr> in (True, r\<lparr>insync := False\<rparr>))"

definition sync_with_primary :: "rsm \<Rightarrow> bool \<times> rsm" where
  "sync_with_primary r = (True, r)"

definition statetransfer :: "string \<Rightarrow> rsm \<Rightarrow> bool \<times> rsm" where
  "statetransfer m r = (True, r)"

definition statetransferdone :: "string \<Rightarrow> rsm \<Rightarrow> bool \<times> rsm" where
  "statetransferdone m r = (True, r)"

text \<open>The rest of the round; the result tells whether the thread waits for \<open>recovery_cond\<close>.\<close>

definition recovery_end :: "bool \<Rightarrow> rsm \<Rightarrow> bool \<times> rsm" where
  "recovery_end isprimary r =
     (let (ok, r) = (if isprimary then sync_with_backups r else sync_with_primary r) in
      if vid_insync r \<noteq> vid_commit r then (False, r)
      else (True, if ok then r\<lparr>myvs := \<lparr>vs_vid = vid_commit r, vs_seqno = 1\<rparr>, inviewchange := False\<rparr> else r))"

section \<open>Handlers\<close>

definition client_invoke :: "int \<Rightarrow> string \<Rightarrow> rsm \<Rightarrow> int \<times> rsm" where
  "client_invoke procno req r = (rsm_client_status rc_OK, r)"

definition rsm_invoke :: "int \<Rightarrow> viewstamp \<Rightarrow> string \<Rightarrow> rsm \<Rightarrow> int \<times> rsm" where
  "rsm_invoke proc vs req r = (rsm_status rs_OK, r)"

definition transferreq :: "string \<Rightarrow> viewstamp \<Rightarrow> u32 \<Rightarrow> rsm \<Rightarrow> int \<times> rsm" where
  "transferreq src lastvs vid r = (rsm_status rs_OK, r)"

definition transferdonereq :: "string \<Rightarrow> u32 \<Rightarrow> rsm \<Rightarrow> int \<times> rsm" where
  "transferdonereq m vid r = (rsm_status rs_OK, r)"

datatype join_next =
    JoinReply int string        \<comment> \<open>the handler returns this status and log\<close>
  | JoinAdd u32                 \<comment> \<open>\<open>cfg->add(m, vid_cache)\<close> is called\<close>

definition joinreq :: "string \<Rightarrow> viewstamp \<Rightarrow> rsm \<Rightarrow> join_next \<times> rsm" where
  "joinreq m lastvs r =
     (let (b, r) = rs_ismember m (vid_commit r) r in
      if b then (JoinReply (rsm_status rs_OK) (config_dump (rs_cfg r)), r)
      else if rs_me r \<noteq> primary r then (JoinReply (rsm_status rs_BUSY) [], r)
      else (JoinAdd (vid_commit r), r))"

text \<open>After \<open>cfg->add\<close>.\<close>

definition joinreq_added :: "string \<Rightarrow> rsm \<Rightarrow> join_next \<times> rsm" where
  "joinreq_added m r =
     (let (b, r) = rs_ismember m (myvid (rs_cfg r)) r in
      if b then (JoinReply (rsm_status rs_OK) (config_dump (rs_cfg r)), r)
      else (JoinReply (rsm_status rs_BUSY) [], r))"

definition client_members :: "int \<Rightarrow> rsm \<Rightarrow> (int \<times> string list) \<times> rsm" where
  "client_members i r =
     (let (m, r) = rs_get_view (vid_commit r) r in ((rsm_client_status rc_OK, m @ [primary r]), r))"

definition amiprimary :: "rsm \<Rightarrow> bool" where
  "amiprimary r \<longleftrightarrow> primary r = rs_me r \<and> \<not> inviewchange r"

section \<open>Test server\<close>

text \<open>\<open>bound\<close> tells for which nodes \<open>safebind\<close> yields a client.\<close>

definition net_repair_wo :: "(string \<Rightarrow> bool) \<Rightarrow> bool \<Rightarrow> rsm \<Rightarrow> rsm" where
  "net_repair_wo bound heal r =
     (let (ms, r) = rs_get_view (vid_commit r) r in
      r\<lparr>cl_reachable := fold (\<lambda>m f. if m \<noteq> rs_me r \<and> bound m then f(m := heal) else f) ms (cl_reachable r),
        rpc_reachable := heal\<rparr>)"

definition test_net_repairreq :: "(string \<Rightarrow> bool) \<Rightarrow> int \<Rightarrow> rsm \<Rightarrow> int \<times> rsm" where
  "test_net_repairreq bound heal r =
     (rsm_test_status rt_OK,
      if heal \<noteq> 0 then (net_repair_wo bound True r)\<lparr>partitioned := False\<rparr>
      else r\<lparr>dopartition := True, partitioned := False\<rparr>)"

definition partition1 :: "(string \<Rightarrow> bool) \<Rightarrow> rsm \<Rightarrow> rsm" where
  "partition1 bound r =
     (if dopartition r then (net_repair_wo bound False r)\<lparr>dopartition := False, partitioned := True\<rparr> else r)"

definition breakpointreq :: "int \<Rightarrow> rsm \<Rightarrow> int \<times> rsm" where
  "breakpointreq b r =
     (if b = 1 then (rsm_test_status rt_OK, r\<lparr>rs_break1 := True\<rparr>)
      else if b = 2 then (rsm_test_status rt_OK, r\<lparr>rs_break2 := True\<rparr>)
      else if b = 3 \<or> b = 4 then
        (rsm_test_status rt_OK, r\<lparr>rs_cfg := (rs_cfg r)\<lparr>cf_pro := breakpoint b (cf_pro (rs_cfg r))\<rparr>\<rparr>)
      else (rsm_test_status rt_ERR, r))"

section \<open>The primary\<close>

definition view_of :: "rsm \<Rightarrow> u32 \<Rightarrow> string list" where
  "view_of r i = members (map_at [] (vals (cf_acc (rs_cfg r))) i)"

definition decided_upto :: "rsm \<Rightarrow> u32" where
  "decided_upto r = instance_h (cf_acc (rs_cfg r))"

definition view_step :: "string list \<Rightarrow> string list \<Rightarrow> bool" where
  "view_step p c \<longleftrightarrow> (\<exists>m. c = p @ [m]) \<or> (\<exists>m. c = filter (\<lambda>x. x \<noteq> m) p \<and> c \<noteq> [])"

text \<open>The decided views start with the first node alone, and each adds or removes a node of the one before.\<close>

definition history_ok :: "string \<Rightarrow> u32 \<Rightarrow> (u32 \<Rightarrow> string list) \<Rightarrow> bool" where
  "history_ok f n V \<longleftrightarrow> (0 < n \<longrightarrow> V 1 = [f]) \<and> (\<forall>i. 1 < i \<and> i \<le> n \<longrightarrow> view_step (V (i - 1)) (V i))"

lemma u32_pos_cases: "0 < (i :: u32) \<Longrightarrow> i = 1 \<or> 1 < i"
  by unat_arith

lemma history_not_Nil:
  assumes "history_ok f n V" and "0 < i" and "i \<le> n"
  shows "V i \<noteq> []"
proof (cases "i = 1")
  case True
  moreover have "0 < n" using assms(2,3) by simp
  ultimately show ?thesis using assms by (auto simp: history_ok_def)
next
  case False
  with u32_pos_cases [OF assms(2)] have "view_step (V (i - 1)) (V i)" using assms by (auto simp: history_ok_def)
  then show ?thesis by (auto simp: view_step_def)
qed

lemma history_common:
  assumes "history_ok f n V" and "1 < i" and "i \<le> n"
  shows "V (i - 1) \<noteq> [] \<and> (\<exists>x\<in>set (V (i - 1)). x \<in> set (V i))"
proof -
  have "0 < i - 1" "i - 1 \<le> n" using assms(2,3) by unat_arith+
  then have "V (i - 1) \<noteq> []" by (rule history_not_Nil [OF assms(1)])
  moreover have "view_step (V (i - 1)) (V i)" using assms by (simp add: history_ok_def)
  ultimately show ?thesis by (cases "V (i - 1)") (auto simp: view_step_def filter_empty_conv)
qed

lemma first_common_Some: "(\<exists>x\<in>set p. x \<in> set c) \<Longrightarrow> \<exists>m. first_common p c = Some m \<and> m \<in> set c"
  by (induction p) auto

text \<open>Reading a view changes nothing but empty entries of \<open>values\<close>.\<close>

definition touch :: "u32 \<Rightarrow> rsm \<Rightarrow> rsm" where
  "touch i r = r\<lparr>rs_cfg := (rs_cfg r)\<lparr>cf_acc := snd (ac_value i (cf_acc (rs_cfg r)))\<rparr>\<rparr>"

lemma touch_simps [simp]:
  "view_of (touch i r) = view_of r" "decided_upto (touch i r) = decided_upto r" "rs_me (touch i r) = rs_me r"
  "primary (touch i r) = primary r" "vid_commit (touch i r) = vid_commit r" "vid_insync (touch i r) = vid_insync r"
  "inviewchange (touch i r) = inviewchange r" "rs_break2 (touch i r) = rs_break2 r"
  "cf_me (rs_cfg (touch i r)) = cf_me (rs_cfg r)" "myvid (rs_cfg (touch i r)) = myvid (rs_cfg r)" "mems (rs_cfg (touch i r)) = mems (rs_cfg r)"
  by (auto simp: touch_def view_of_def fun_eq_iff decided_upto_def rs_me_def ac_value_def)

lemma touch_upd [simp]:
  "view_of (r\<lparr>primary := m\<rparr>) = view_of r" "decided_upto (r\<lparr>primary := m\<rparr>) = decided_upto r"
  "view_of (r\<lparr>vid_commit := i, inviewchange := b\<rparr>) = view_of r" "decided_upto (r\<lparr>vid_commit := i, inviewchange := b\<rparr>) = decided_upto r"
  by (simp_all add: view_of_def [abs_def] decided_upto_def)

lemma rs_get_view_touch: "rs_get_view i r = (view_of r i, touch i r)"
  by (simp add: rs_get_view_def get_view_def get_view_wo_def ac_value_def view_of_def touch_def)

lemma rs_ismember_touch: "rs_ismember m i r = (m \<in> set (view_of r i), touch i r)"
  by (simp add: rs_ismember_def ismember_def get_view_wo_def ac_value_def view_of_def touch_def)

lemma set_primary_eq:
  "set_primary vid r =
     (if view_of r vid = [] then Inl VerifyFailed
      else if primary r \<in> set (view_of r vid) then Inr (touch (vid - 1) (touch vid r))
      else if view_of r (vid - 1) = [] then Inl VerifyFailed
      else case first_common (view_of r (vid - 1)) (view_of r vid) of
          None \<Rightarrow> Inl VerifyFailed
        | Some m \<Rightarrow> Inr ((touch (vid - 1) (touch vid r))\<lparr>primary := m\<rparr>))"
  by (simp add: set_primary_def rs_get_view_touch VERIFY_def)

text \<open>The effect of a committed view change on a node with a proper history.\<close>

lemma set_primary_ok:
  assumes "history_ok f (decided_upto r) (view_of r)" and "0 < vid" and "vid \<le> decided_upto r"
    and "vid = 1 \<longrightarrow> primary r = f"
  shows "\<exists>m. set_primary vid r = Inr ((touch (vid - 1) (touch vid r))\<lparr>primary := m\<rparr>) \<and> m \<in> set (view_of r vid)"
proof (cases "primary r \<in> set (view_of r vid)")
  case True
  then show ?thesis by (auto simp: set_primary_eq touch_def intro!: exI [of _ "primary r"])
next
  case False
  have c: "view_of r vid \<noteq> []" by (rule history_not_Nil [OF assms(1-3)])
  have "0 < decided_upto r" using assms(2,3) by simp
  with False assms(1,4) have "vid \<noteq> 1" by (auto simp: history_ok_def)
  with u32_pos_cases [OF assms(2)] have "1 < vid" by blast
  from history_common [OF assms(1) this assms(3)] first_common_Some
  obtain m where "view_of r (vid - 1) \<noteq> []" "first_common (view_of r (vid - 1)) (view_of r vid) = Some m" "m \<in> set (view_of r vid)"
    by blast
  then show ?thesis using False c by (auto simp: set_primary_eq)
qed

definition rsm_ok :: "string \<Rightarrow> rsm \<Rightarrow> bool" where
  "rsm_ok f r \<longleftrightarrow>
     history_ok f (decided_upto r) (view_of r) \<and> vid_commit r \<le> decided_upto r \<and>
     (if vid_commit r = 0 then primary r = f else primary r \<in> set (view_of r (vid_commit r)))"

lemma rsm_ok_touch [simp]: "rsm_ok f (touch i r) = rsm_ok f r"
  by (simp add: rsm_ok_def)

lemma commit_change_ok:
  assumes "rsm_ok f r" and "vid \<le> decided_upto r"
  shows "commit_change_wo vid r = Inl (Exited 1) \<or>
    (\<exists>r'. commit_change_wo vid r = Inr r' \<and> rsm_ok f r' \<and> vid_commit r' = max vid (vid_commit r) \<and>
       decided_upto r' = decided_upto r \<and> myvid (rs_cfg r') = myvid (rs_cfg r) \<and> view_of r' = view_of r)"
proof (cases "vid \<le> vid_commit r")
  case True
  then show ?thesis using assms(1) by (simp add: commit_change_wo_def max_def)
next
  case False
  let ?r = "r\<lparr>vid_commit := vid, inviewchange := True\<rparr>"
  have "0 < vid" using False by (metis word_gt_0 word_zero_le)
  have "vid = 1 \<longrightarrow> vid_commit r = 0" using False by unat_arith
  with set_primary_ok [of f ?r vid] assms \<open>0 < vid\<close> obtain m where
    m: "set_primary vid ?r = Inr ((touch (vid - 1) (touch vid ?r))\<lparr>primary := m\<rparr>)" "m \<in> set (view_of r vid)"
    by (auto simp: rsm_ok_def)
  define r' where "r' = touch vid ((touch (vid - 1) (touch vid ?r))\<lparr>primary := m\<rparr>)"
  have r': "rsm_ok f r'" "vid_commit r' = vid" "decided_upto r' = decided_upto r" "view_of r' = view_of r"
      "myvid (rs_cfg r') = myvid (rs_cfg r)"
    using assms m(2) \<open>0 < vid\<close> by (auto simp: r'_def rsm_ok_def)
  have "commit_change_wo vid r = (if rs_me r \<in> set (view_of r vid) \<and> rs_break2 r then Inl (Exited 1) else Inr r')"
    using False by (simp add: commit_change_wo_def m(1) rs_ismember_touch r'_def rs_breakpoint2_def rs_me_def)
  then show ?thesis using r' False by (auto simp: max_def)
qed

section \<open>Runs of a node\<close>

text \<open>
  \<open>changes\<close> are the calls of \<open>commit_change\<close> that \<open>paxos_commit\<close> has not made yet; \<open>verify_failed\<close> records a failed
  \<open>VERIFY\<close> of a view change. \<open>rn_decide\<close> is a decision of the acceptor for the next instance, on a view that \<open>add\<close> or
  \<open>remove_wo\<close> proposed from the last one; \<open>extends\<close> says that the log which a joining node receives comes from a node with the
  same decisions. The calls of \<open>paxos_commit\<close> and \<open>commit_change\<close> may overtake each other.
\<close>

record rsm_node =
  rn :: rsm
  rn_mgr :: handle_mgr
  rn_pending :: "(u32 \<times> string) list"
  changes :: "u32 list"
  verify_failed :: bool

definition extends :: "string \<Rightarrow> rsm \<Rightarrow> rsm \<Rightarrow> bool" where
  "extends f r r1 \<longleftrightarrow> history_ok f (decided_upto r1) (view_of r1) \<and> decided_upto r \<le> decided_upto r1 \<and>
     (\<forall>i. 0 < i \<and> i \<le> decided_upto r \<longrightarrow> view_of r1 i = view_of r i)"

inductive rn_step :: "string \<Rightarrow> rsm_node \<Rightarrow> rsm_node \<Rightarrow> bool" for f :: string where
  rn_decide: "\<lbrakk>0 < decided_upto (rn y); i = decided_upto (rn y) + 1; view_step (view_of (rn y) (decided_upto (rn y))) (members v);
      commit_wo True i v (cf_acc (rs_cfg (rn y))) = (ac', up)\<rbrakk> \<Longrightarrow>
    rn_step f y (y\<lparr>rn := (rn y)\<lparr>rs_cfg := (rs_cfg (rn y))\<lparr>cf_acc := ac'\<rparr>\<rparr>, rn_pending := rn_pending y @ upcall up\<rparr>)"
| rn_upcall: "\<lbrakk>rn_pending y = us @ (i, v) # ws; paxos_commit True i v (rs_cfg (rn y), rn_mgr y) = Inr ((c', hs'), Some vid)\<rbrakk> \<Longrightarrow>
    rn_step f y (y\<lparr>rn := (rn y)\<lparr>rs_cfg := c'\<rparr>, rn_mgr := hs', rn_pending := us @ ws, changes := changes y @ [vid]\<rparr>)"
| rn_change: "\<lbrakk>changes y = us @ vid # ws; commit_change vid (rn y) = Inr r'\<rbrakk> \<Longrightarrow>
    rn_step f y (y\<lparr>rn := r', changes := us @ ws\<rparr>)"
| rn_change_fails: "\<lbrakk>vid \<in> set (changes y); commit_change vid (rn y) = Inl VerifyFailed\<rbrakk> \<Longrightarrow>
    rn_step f y (y\<lparr>verify_failed := True\<rparr>)"
| rn_join: "\<lbrakk>rsm_join i0 res (snd (rs_ismember (rs_me (rn y)) (vid_commit (rn y)) (rn y))) = Inr (ok, r1); ok \<longrightarrow> extends f (rn y) r1;
      recovery_join i0 res (rn y) = Inr (b, r')\<rbrakk> \<Longrightarrow> rn_step f y (y\<lparr>rn := r'\<rparr>)"
| rn_join_fails: "\<lbrakk>rsm_join i0 res (snd (rs_ismember (rs_me (rn y)) (vid_commit (rn y)) (rn y))) = Inr (ok, r1); ok \<longrightarrow> extends f (rn y) r1;
      recovery_join i0 res (rn y) = Inl VerifyFailed\<rbrakk> \<Longrightarrow> rn_step f y (y\<lparr>verify_failed := True\<rparr>)"
| rn_sync: "recovery_begin (rn y) = (b, r') \<Longrightarrow> rn_step f y (y\<lparr>rn := r'\<rparr>)"
| rn_synced: "recovery_end b (rn y) = (w, r') \<Longrightarrow> rn_step f y (y\<lparr>rn := r'\<rparr>)"
| rn_joinreq: "joinreq m vs (rn y) = (a, r') \<Longrightarrow> rn_step f y (y\<lparr>rn := r'\<rparr>)"
| rn_joinreq_added: "joinreq_added m (rn y) = (a, r') \<Longrightarrow> rn_step f y (y\<lparr>rn := r'\<rparr>)"
| rn_members: "client_members k (rn y) = (a, r') \<Longrightarrow> rn_step f y (y\<lparr>rn := r'\<rparr>)"
| rn_repair: "test_net_repairreq bound k (rn y) = (st, r') \<Longrightarrow> rn_step f y (y\<lparr>rn := r'\<rparr>)"
| rn_partition: "partition1 bound (rn y) = r' \<Longrightarrow> rn_step f y (y\<lparr>rn := r'\<rparr>)"
| rn_break: "breakpointreq k (rn y) = (st, r') \<Longrightarrow> rn_step f y (y\<lparr>rn := r'\<rparr>)"

definition rn_start :: "string \<Rightarrow> rsm_node \<Rightarrow> bool" where
  "rn_start f y \<longleftrightarrow> is_word f \<and> (\<exists>vi i0 me. rsm_init vi i0 [] f me = Inr (rn y)) \<and> rn_mgr y = handle_mgr_init \<and>
     rn_pending y = [] \<and> changes y = [] \<and> \<not> verify_failed y"

definition node_ok :: "string \<Rightarrow> rsm_node \<Rightarrow> bool" where
  "node_ok f y \<longleftrightarrow> rsm_ok f (rn y) \<and> myvid (rs_cfg (rn y)) \<le> decided_upto (rn y) \<and>
     (\<forall>p\<in>set (rn_pending y). fst p \<le> decided_upto (rn y)) \<and> (\<forall>vid\<in>set (changes y). vid \<le> decided_upto (rn y)) \<and>
     \<not> verify_failed y"

text \<open>A step that leaves views, view numbers and the primary alone.\<close>

lemma node_ok_same:
  assumes "node_ok f y" and "view_of r' = view_of (rn y)" and "decided_upto r' = decided_upto (rn y)"
    and "vid_commit r' = vid_commit (rn y)" and "primary r' = primary (rn y)" and "myvid (rs_cfg r') = myvid (rs_cfg (rn y))"
  shows "node_ok f (y\<lparr>rn := r'\<rparr>)"
  using assms by (simp add: node_ok_def rsm_ok_def)

lemma history_ok_snoc:
  assumes "history_ok f n V" and "0 < n" and "n < n + 1" and "view_step (V n) v"
  shows "history_ok f (n + 1) (V(n + 1 := v))"
proof -
  have 1: "n + 1 \<noteq> 1" using assms(2) by auto
  have "view_step ((V(n + 1 := v)) (i - 1)) ((V(n + 1 := v)) i)" if i: "1 < i" "i \<le> n + 1" for i
  proof (cases "i = n + 1")
    case True
    then show ?thesis using assms(3,4) by simp
  next
    case False
    then have "i \<le> n" using i(2) assms(3) by unat_arith
    moreover have "i - 1 \<noteq> n + 1" using \<open>i \<le> n\<close> i(1) assms(3) by unat_arith
    ultimately show ?thesis using False assms(1) i(1) by (simp add: history_ok_def)
  qed
  then show ?thesis using assms(1,2) 1 by (simp add: history_ok_def)
qed

lemma node_ok_decide:
  assumes ok: "node_ok f y" and pos: "0 < decided_upto (rn y)" and i: "i = decided_upto (rn y) + 1"
    and v: "view_step (view_of (rn y) (decided_upto (rn y))) (members v)"
    and c: "commit_wo True i v (cf_acc (rs_cfg (rn y))) = (ac', up)"
  shows "node_ok f (y\<lparr>rn := (rn y)\<lparr>rs_cfg := (rs_cfg (rn y))\<lparr>cf_acc := ac'\<rparr>\<rparr>, rn_pending := rn_pending y @ upcall up\<rparr>)"
proof (cases "decided_upto (rn y) < i")
  case False
  then have "ac' = cf_acc (rs_cfg (rn y))" "up = None" using c by (auto simp: commit_wo_def decided_upto_def split: if_splits)
  then show ?thesis using ok by (simp add: upcall_def)
next
  case True
  let ?r = "(rn y)\<lparr>rs_cfg := (rs_cfg (rn y))\<lparr>cf_acc := ac'\<rparr>\<rparr>"
  have r: "view_of ?r = (view_of (rn y))(i := members v)" "decided_upto ?r = i" and up: "up = Some (i, v)"
    using True c by (auto simp: commit_wo_def decided_upto_def view_of_def fun_eq_iff map_at_def Let_def loginstance_def split: if_splits)
  have h: "history_ok f i ((view_of (rn y))(i := members v))"
    using history_ok_snoc [of f "decided_upto (rn y)" "view_of (rn y)" "members v"] ok pos v True
    by (simp add: i node_ok_def rsm_ok_def)
  have le: "x \<le> decided_upto (rn y) \<Longrightarrow> x \<le> i \<and> x \<noteq> i" for x using True by auto
  show ?thesis
    using ok h True le by (auto simp: node_ok_def rsm_ok_def r up upcall_def split: if_splits)
qed

lemma extends_ok:
  assumes "node_ok f y" and "extends f (rn y) r1" and "vid_commit r1 = vid_commit (rn y)" and "primary r1 = primary (rn y)"
    and "myvid (rs_cfg r1) \<le> decided_upto r1"
  shows "node_ok f (y\<lparr>rn := r1\<rparr>)"
proof -
  have le: "x \<le> decided_upto (rn y) \<Longrightarrow> x \<le> decided_upto r1" for x
    using assms(2) by (auto simp: extends_def)
  have "vid_commit (rn y) \<noteq> 0 \<Longrightarrow> view_of r1 (vid_commit (rn y)) = view_of (rn y) (vid_commit (rn y))"
    using assms(1,2) by (auto simp: extends_def node_ok_def rsm_ok_def word_gt_0)
  then show ?thesis using assms le by (auto simp: node_ok_def rsm_ok_def extends_def)
qed

lemma commit_change_node:
  assumes "node_ok f y" and "vid \<le> decided_upto (rn y)"
  shows "commit_change_wo vid (rn y) \<noteq> Inl VerifyFailed"
    and "commit_change_wo vid (rn y) = Inr r' \<Longrightarrow> node_ok f (y\<lparr>rn := r'\<rparr>)"
  using commit_change_ok [of f "rn y" vid] assms by (auto simp: node_ok_def)

lemma rsm_join_fields:
  assumes "rsm_join i0 res r = Inr (ok, r1)"
  shows "vid_commit r1 = vid_commit r" and "primary r1 = primary r" and "\<not> ok \<Longrightarrow> r1 = r"
    and "myvid (rs_cfg r1) = myvid (rs_cfg r) \<or> myvid (rs_cfg r1) = decided_upto r1"
  using assms
  by (auto simp: rsm_join_def config_restore_def reconstruct_def get_view_wo_def ac_value_def decided_upto_def bind_f_eq_Inr Let_def
      split: option.splits if_splits)

lemma recovery_join_ok:
  assumes ok: "node_ok f y"
    and j: "rsm_join i0 res (snd (rs_ismember (rs_me (rn y)) (vid_commit (rn y)) (rn y))) = Inr (b, r1)"
    and e: "b \<longrightarrow> extends f (rn y) r1"
  shows "recovery_join i0 res (rn y) \<noteq> Inl VerifyFailed"
    and "recovery_join i0 res (rn y) = Inr (b', r') \<Longrightarrow> node_ok f (y\<lparr>rn := r'\<rparr>)"
proof -
  let ?t = "touch (vid_commit (rn y)) (rn y)"
  have t: "node_ok f (y\<lparr>rn := ?t\<rparr>)" by (rule node_ok_same [OF ok]) simp_all
  have j': "rsm_join i0 res ?t = Inr (b, r1)" using j by (simp add: rs_ismember_touch)
  note F = rsm_join_fields [OF j']
  have 1: "node_ok f (y\<lparr>rn := r1\<rparr>)"
  proof (cases b)
    case True
    have "myvid (rs_cfg (rn y)) \<le> decided_upto r1"
      using ok e True by (auto simp: node_ok_def extends_def)
    then show ?thesis using extends_ok [OF ok, of r1] e True F by auto
  qed (use F(3) t in simp)
  have le: "myvid (rs_cfg r1) \<le> decided_upto r1" using 1 by (simp add: node_ok_def)
  show "recovery_join i0 res (rn y) \<noteq> Inl VerifyFailed"
    using commit_change_node(1) [OF 1, of "myvid (rs_cfg r1)"] le j'
    by (auto simp: recovery_join_def rs_ismember_touch bind_f_eq_Inl)
  show "node_ok f (y\<lparr>rn := r'\<rparr>)" if "recovery_join i0 res (rn y) = Inr (b', r')"
    using commit_change_node(2) [OF 1, of "myvid (rs_cfg r1)" r'] le j' 1 t that
    by (auto simp: recovery_join_def rs_ismember_touch bind_f_eq_Inr split: if_splits)
qed

lemma net_repair_same:
  "view_of (net_repair_wo bound h r) = view_of r" "decided_upto (net_repair_wo bound h r) = decided_upto r"
  "vid_commit (net_repair_wo bound h r) = vid_commit r" "primary (net_repair_wo bound h r) = primary r"
  "myvid (rs_cfg (net_repair_wo bound h r)) = myvid (rs_cfg r)"
  using touch_simps [of "vid_commit r" r]
  by (simp_all add: net_repair_wo_def rs_get_view_touch view_of_def [abs_def] decided_upto_def)

lemma view_of_cong: "cf_acc (rs_cfg r') = cf_acc (rs_cfg r) \<Longrightarrow> view_of r' = view_of r \<and> decided_upto r' = decided_upto r"
  by (simp add: view_of_def [abs_def] decided_upto_def)

lemma rn_step_ok:
  assumes ok: "node_ok f y" and st: "rn_step f y y'"
  shows "node_ok f y'"
  using st
proof cases
  case (rn_decide i v ac' up)
  then show ?thesis using node_ok_decide [OF ok] by blast
next
  case (rn_upcall us i v ws c' hs' vid)
  then have c': "c' = (rs_cfg (rn y))\<lparr>mems := members v, myvid := i\<rparr>" and vid: "vid = i"
    by (auto simp: paxos_commit_def bind_f_eq_Inr Let_def)
  have "i \<le> decided_upto (rn y)" using ok rn_upcall(2) by (auto simp: node_ok_def)
  then show ?thesis using ok rn_upcall(1,2)
    by (auto simp: c' vid node_ok_def rsm_ok_def view_of_def [abs_def] decided_upto_def)
next
  case (rn_change us vid ws r')
  then have "node_ok f (y\<lparr>rn := r'\<rparr>)" "decided_upto r' = decided_upto (rn y)"
    using commit_change_node(2) [OF ok, of vid r'] commit_change_ok [of f "rn y" vid] ok
    by (auto simp: commit_change_def node_ok_def)
  then show ?thesis using ok rn_change(1,2) by (auto simp: node_ok_def)
next
  case (rn_change_fails vid)
  then show ?thesis using commit_change_node(1) [OF ok, of vid] ok by (auto simp: commit_change_def node_ok_def)
next
  case (rn_join i0 res b r1 b' r')
  then show ?thesis using recovery_join_ok(2) [OF ok] by blast
next
  case (rn_join_fails i0 res b r1)
  then show ?thesis using recovery_join_ok(1) [OF ok] by blast
next
  case (rn_sync b r')
  then show ?thesis by (auto simp: recovery_begin_def Let_def view_of_def [abs_def] decided_upto_def intro!: node_ok_same [OF ok])
next
  case (rn_synced b w r')
  then have "cf_acc (rs_cfg r') = cf_acc (rs_cfg (rn y))" "vid_commit r' = vid_commit (rn y)" "primary r' = primary (rn y)"
      "myvid (rs_cfg r') = myvid (rs_cfg (rn y))"
    by (auto simp: recovery_end_def sync_with_backups_def sync_with_primary_def Let_def split: if_splits)
  then show ?thesis using rn_synced(1) view_of_cong by (auto intro!: node_ok_same [OF ok])
next
  case (rn_joinreq m vs a r')
  then have "r' = touch (vid_commit (rn y)) (rn y)"
    by (auto simp: joinreq_def rs_ismember_touch split: if_splits)
  then show ?thesis using rn_joinreq(1) by (auto intro!: node_ok_same [OF ok])
next
  case (rn_joinreq_added m a r')
  then have "r' = touch (myvid (rs_cfg (rn y))) (rn y)"
    by (auto simp: joinreq_added_def rs_ismember_touch split: if_splits)
  then show ?thesis using rn_joinreq_added(1) by (auto intro!: node_ok_same [OF ok])
next
  case (rn_members k a r')
  then show ?thesis by (auto simp: client_members_def rs_get_view_touch intro!: node_ok_same [OF ok])
next
  case (rn_repair bound k st r')
  then have "r' = (net_repair_wo bound True (rn y))\<lparr>partitioned := False\<rparr> \<or> r' = (rn y)\<lparr>dopartition := True, partitioned := False\<rparr>"
    by (auto simp: test_net_repairreq_def)
  then show ?thesis using rn_repair(1) net_repair_same [of bound True "rn y"]
    by (auto simp: view_of_def [abs_def] decided_upto_def intro!: node_ok_same [OF ok])
next
  case (rn_partition bound r')
  then have "r' = (net_repair_wo bound False (rn y))\<lparr>dopartition := False, partitioned := True\<rparr> \<or> r' = rn y"
    by (auto simp: partition1_def)
  then show ?thesis using rn_partition(1) net_repair_same [of bound False "rn y"] ok
    by (auto simp: view_of_def [abs_def] decided_upto_def intro!: node_ok_same [OF ok])
next
  case (rn_break k st r')
  then show ?thesis
    by (auto simp: breakpointreq_def view_of_def [abs_def] decided_upto_def intro!: node_ok_same [OF ok] split: if_splits)
qed

lemma config_init_empty:
  "config_init i0 [] first me = Inr (reconstruct
     \<lparr>cf_acc = (if me = first then (loginstance 1 me ((acceptor_fresh me [])\<lparr>vals := [1 \<mapsto> me]\<rparr>))\<lparr>instance_h := 1\<rparr> else acceptor_fresh me []),
      cf_pro = proposer_init me, myvid = 0, cf_first = first, cf_me = me, mems = []\<rparr>)"
  by (simp add: config_init_def acceptor_init_empty)


lemma rsm_new_simps [simp]:
  "primary (rsm_new vi f c) = f" "vid_commit (rsm_new vi f c) = 0" "rs_break2 (rsm_new vi f c) = False"
  "rs_cfg (rsm_new vi f c) = c" "rs_me (rsm_new vi f c) = cf_me c" "inviewchange (rsm_new vi f c) = True"
  by (simp_all add: rsm_new_def rs_me_def)

lemma rsm_init_ok:
  assumes f: "is_word f" and i: "rsm_init vi i0 [] f me = Inr r"
  shows "rsm_ok f r \<and> myvid (rs_cfg r) \<le> decided_upto r"
proof -
  define c where "c = reconstruct
     \<lparr>cf_acc = (if me = f then (loginstance 1 me ((acceptor_fresh me [])\<lparr>vals := [1 \<mapsto> me]\<rparr>))\<lparr>instance_h := 1\<rparr> else acceptor_fresh me []),
      cf_pro = proposer_init me, myvid = 0, cf_first = f, cf_me = me, mems = []\<rparr>"
  define r0 where "r0 = rsm_new vi f c"
  have r: "(if f = me then commit_change 1 r0 else Inr r0) = Inr r"
    using i unfolding rsm_init_def config_init_empty bind_f_simps c_def r0_def .
  have d: "decided_upto r0 = (if me = f then 1 else 0)" "me = f \<Longrightarrow> view_of r0 1 = [f]" "myvid c = decided_upto r0" "rs_cfg r0 = c"
    using f by (auto simp: r0_def c_def decided_upto_def view_of_def reconstruct_def get_view_wo_def ac_value_def
        acceptor_fresh_def loginstance_def members_word)
  have "\<not> (1 < i \<and> i \<le> (1 :: u32))" for i by auto
  then have h: "history_ok f (decided_upto r0) (view_of r0)"
    using d(1,2) by (auto simp: history_ok_def)
  have "rsm_ok f r0" using h by (auto simp: rsm_ok_def r0_def)
  then show ?thesis
    using r d commit_change_ok [of f r0 1] by (auto simp: commit_change_def split: if_splits)
qed

interpretation node: step_invariant "rn_start f" "rn_step f" "node_ok f" for f
proof unfold_locales
  fix y assume "rn_start f y"
  then show "node_ok f y" using rsm_init_ok [of f _ _ _ "rn y"] by (auto simp: rn_start_def node_ok_def)
qed (rule rn_step_ok)

text \<open>
  C12. Whatever decisions, upcalls, joins, recoveries and test requests a node goes through, and however the upcalls of Paxos
  overtake each other, no check of \<open>set_primary\<close> fails, and once a view has been committed the primary is a member of that
  view: as long as every decided view adds or removes one node of the view before it and is not empty.
\<close>

theorem primary_is_member:
  assumes "reach (rn_start f) (rn_step f) y"
  shows "\<not> verify_failed y \<and> (0 < vid_commit (rn y) \<longrightarrow>
    primary (rn y) \<in> set (fst (rs_get_view (vid_commit (rn y)) (rn y))))"
  using node.reach_inv [OF assms] by (auto simp: node_ok_def rsm_ok_def rs_get_view_touch word_gt_0)

text \<open>The view change in the constructor.\<close>

lemma commit_first_view:
  assumes "view_of (rsm_new vi f c) 1 = [f]"
  shows "commit_change 1 (rsm_new vi f c) =
    Inr (touch 1 (touch 0 (touch 1 ((rsm_new vi f c)\<lparr>vid_commit := 1, inviewchange := True\<rparr>))))"
proof -
  have "view_of ((rsm_new vi f c)\<lparr>vid_commit := 1, inviewchange := True\<rparr>) 1 = [f]"
    using assms by (simp add: view_of_def)
  then show ?thesis
    using rsm_new_simps(6) [of vi f c]
    by (simp add: commit_change_def commit_change_wo_def set_primary_eq rs_ismember_touch rs_breakpoint2_def rs_me_def)
qed

lemma rsm_first_node:
  assumes "is_word f"
  shows "\<exists>r. rsm_init vi i0 [] f f = Inr r \<and> vid_commit r = 1 \<and> decided_upto r = 1 \<and> view_of r 1 = [f] \<and> rs_me r = f \<and>
    recovers (cf_acc (rs_cfg r)) \<and> ac_log (cf_acc (rs_cfg r)) = rec_text (Done 1 f)"
proof -
  let ?a = "(loginstance 1 f ((acceptor_fresh f [])\<lparr>vals := [1 \<mapsto> f]\<rparr>))\<lparr>instance_h := 1\<rparr>"
  define c where "c = reconstruct \<lparr>cf_acc = ?a, cf_pro = proposer_init f, myvid = 0, cf_first = f, cf_me = f, mems = []\<rparr>"
  have i: "config_init i0 [] f f = Inr c" by (simp add: config_init_empty c_def)
  have a: "acceptor_init i0 True f f [] = Inr ?a" by (simp add: acceptor_init_empty)
  have "newline \<notin> set f" using assms by (auto simp: is_word_def list_all_iff)
  with a have "acc_start ?a" unfolding acc_start_def by blast
  then have "recovers ?a" using durable.reach_inv [OF reach_init [of acc_start]] by blast
  then have rec: "recovers (snd (ac_value j ?a))" for j
    by (rule recovers_same_log) (simp_all add: ac_value_def acc_eqv_def)
  have c: "cf_acc c = snd (ac_value 1 ?a)" "cf_me c = f"
    by (simp_all add: c_def reconstruct_def get_view_wo_def ac_value_def)
  have v: "view_of (rsm_new vi f c) 1 = [f]" "decided_upto (rsm_new vi f c) = 1"
    using members_word [OF assms] by (simp_all add: view_of_def decided_upto_def c ac_value_def loginstance_def)
  let ?r = "touch 1 (touch 0 (touch 1 ((rsm_new vi f c)\<lparr>vid_commit := 1, inviewchange := True\<rparr>)))"
  have t: "recovers (cf_acc (rs_cfg (touch j r)))" if "recovers (cf_acc (rs_cfg r))" for j r
    using that by (rule recovers_same_log) (simp_all add: touch_def ac_value_def acc_eqv_def)
  have "recovers (cf_acc (rs_cfg ?r))" by (intro t) (simp add: rec c)
  moreover have "ac_log (cf_acc (rs_cfg (touch j r))) = ac_log (cf_acc (rs_cfg r))" for j r
    by (simp add: touch_def ac_value_def)
  then have "ac_log (cf_acc (rs_cfg ?r)) = rec_text (Done 1 f)"
    by (simp add: c ac_value_def loginstance_def acceptor_fresh_def)
  moreover have "view_of ?r 1 = [f]" "decided_upto ?r = 1"
    using v by simp_all
  moreover have "rsm_init vi i0 [] f f = Inr ?r" by (simp add: rsm_init_def i commit_first_view [OF v(1)])
  ultimately show ?thesis using c(2) by (intro exI [of _ ?r]) (simp add: rs_me_def)
qed

theorem primary_is_member_witness:
  "\<exists>y. reach (rn_start ''f'') (rn_step ''f'') y \<and> vid_commit (rn y) = 1 \<and> \<not> verify_failed y \<and>
     primary (rn y) \<in> set (fst (rs_get_view 1 (rn y)))"
proof -
  have w: "is_word ''f''" by (simp add: is_word_def isspace_def)
  obtain r where r: "rsm_init 0 0 [] ''f'' ''f'' = Inr r" "vid_commit r = 1" using rsm_first_node [OF w] by blast
  let ?y = "\<lparr>rn = r, rn_mgr = handle_mgr_init, rn_pending = [], changes = [], verify_failed = False\<rparr>"
  have "rn_start ''f'' ?y" using w r(1) by (auto simp: rn_start_def)
  then have y: "reach (rn_start ''f'') (rn_step ''f'') ?y" by (rule reach_init)
  from primary_is_member [OF y] r(2) y show ?thesis by (intro exI [of _ ?y]) simp
qed

section \<open>Joining and restarting\<close>

definition same_views :: "acceptor \<Rightarrow> acceptor \<Rightarrow> bool" where
  "same_views a b \<longleftrightarrow> instance_h a = instance_h b \<and> (\<forall>i. map_at [] (vals a) i = map_at [] (vals b) i)"

lemma replay_same_views: "same_views a b \<Longrightarrow> same_views (fold replay rs a) (fold replay rs b)"
proof (induction rs arbitrary: a b)
  case (Cons r rs)
  have "same_views (replay r a) (replay r b)" using Cons.prems by (cases r) (auto simp: same_views_def map_at_def)
  from Cons.IH [OF this] show ?case by simp
qed simp

lemma recovers_logread:
  assumes "recovers a" and "same_views b (acceptor_fresh me [])" and "ac_log b = ac_log a"
  shows "\<exists>b'. logread i0 b = Inr b' \<and> same_views b' a"
proof -
  obtain rs where rs: "log_records rs a" "acc_eqv (fold replay rs (acceptor_fresh (ac_me a) (ac_log a))) a"
    using assms(1) by (auto simp: recovers_def)
  have "same_views b (acceptor_fresh (ac_me a) (ac_log a))" using assms(2) by (simp add: same_views_def acceptor_fresh_def)
  from replay_same_views [OF this, of rs] have "same_views (fold replay rs b) a"
    using rs(2) by (auto simp: same_views_def acc_eqv_def)
  with logread_records [OF rs(1) assms(3)] show ?thesis by blast
qed

lemma recovers_dump: "recovers a \<Longrightarrow> ac_dump a = ac_log a"
  by (auto simp: recovers_def ac_dump_def log_dump_records)

lemma join_reply_log:
  assumes "joinreq m vs p = (JoinReply (rsm_status rs_OK) l, p') \<or> joinreq_added m p = (JoinReply (rsm_status rs_OK) l, p')"
    and "recovers (cf_acc (rs_cfg p))"
  shows "l = ac_log (cf_acc (rs_cfg p))"
proof -
  have "ac_dump (cf_acc (rs_cfg (touch i p))) = ac_log (cf_acc (rs_cfg p))" for i
    using recovers_dump [OF assms(2)] by (simp add: touch_def ac_value_def ac_dump_def log_dump_def)
  then show ?thesis
    using assms(1) by (auto simp: joinreq_def joinreq_added_def rs_ismember_touch config_dump_def split: if_splits)
qed

text \<open>
  C15. A node without decisions that joins receives all views: the log that a member answers to a join request, sent as
  a \<open>joinres\<close> and restored, gives the joining node the same highest instance and the same members of every view as the
  answering node has, and puts it into the current view.
\<close>

theorem join_transfers_views:
  assumes "recovers (cf_acc (rs_cfg p))"
    and "joinreq m vs p = (JoinReply (rsm_status rs_OK) l, p') \<or> joinreq_added m p = (JoinReply (rsm_status rs_OK) l, p')"
    and "length l < 2 ^ 29" and "decided_upto r = 0" and "\<forall>i. map_at [] (vals (cf_acc (rs_cfg r))) i = []"
  shows "\<exists>w. put_joinres \<lparr>jr_log = l\<rparr> marshall_init = Inr w \<and> (\<forall>bs old. wire_of w bs \<longrightarrow>
    (\<exists>jr u r'. get_joinres old (received bs) = Inr (jr, u) \<and> rsm_join i0 (Some (rsm_status rs_OK, jr)) r = Inr (True, r') \<and>
       decided_upto r' = decided_upto p \<and> (\<forall>i. fst (rs_get_view i r') = fst (rs_get_view i p)) \<and>
       (0 < decided_upto p \<longrightarrow> myvid (rs_cfg r') = decided_upto p \<and> mems (rs_cfg r') = fst (rs_get_view (decided_upto p) p))))"
proof -
  let ?b = "log_restore l (cf_acc (rs_cfg r))"
  have "same_views ?b (acceptor_fresh [] [])"
    using assms(4,5) by (simp add: same_views_def log_restore_def acceptor_fresh_def decided_upto_def)
  moreover have "ac_log ?b = ac_log (cf_acc (rs_cfg p))" using join_reply_log [OF assms(2,1)] by (simp add: log_restore_def)
  ultimately obtain b where b: "logread i0 ?b = Inr b" "same_views b (cf_acc (rs_cfg p))"
    using recovers_logread [OF assms(1)] by blast
  define c where "c = reconstruct ((rs_cfg r)\<lparr>cf_acc := b\<rparr>)"
  have j: "rsm_join i0 (Some (rsm_status rs_OK, \<lparr>jr_log = l\<rparr>)) r = Inr (True, r\<lparr>rs_cfg := c\<rparr>)"
    using b(1) by (simp add: rsm_join_def config_restore_def ac_restore_def c_def)
  have v: "view_of (r\<lparr>rs_cfg := c\<rparr>) = view_of p" "decided_upto (r\<lparr>rs_cfg := c\<rparr>) = decided_upto p"
    using b(2) by (auto simp: view_of_def fun_eq_iff decided_upto_def c_def reconstruct_def get_view_wo_def ac_value_def same_views_def Let_def)
  have "current c" by (simp add: c_def)
  then have cur: "0 < decided_upto p \<longrightarrow> myvid c = decided_upto p \<and> mems c = view_of p (decided_upto p)"
    using v by (simp add: current_def decided_upto_def view_of_def [abs_def] fun_eq_iff)
  have "survives put_joinres get_joinres \<lparr>jr_log = l\<rparr>" by (rule call_survives) (use assms(3) in simp_all)
  then show ?thesis unfolding survives_def rs_get_view_touch fst_conv using j v cur by fastforce
qed

theorem join_transfers_views_witness:
  "\<exists>p m l p' r. joinreq m \<lparr>vs_vid = 0, vs_seqno = 0\<rparr> p = (JoinReply (rsm_status rs_OK) l, p') \<and> decided_upto p = 1 \<and>
     (\<exists>w. put_joinres \<lparr>jr_log = l\<rparr> marshall_init = Inr w \<and> (\<forall>bs old. wire_of w bs \<longrightarrow>
       (\<exists>jr u r'. get_joinres old (received bs) = Inr (jr, u) \<and> rsm_join 0 (Some (rsm_status rs_OK, jr)) r = Inr (True, r') \<and>
          decided_upto r' = 1)))"
proof -
  have w: "is_word ''f''" by (simp add: is_word_def isspace_def)
  obtain p where p: "vid_commit p = 1" "decided_upto p = 1" "view_of p 1 = [''f'']" "recovers (cf_acc (rs_cfg p))"
      "ac_log (cf_acc (rs_cfg p)) = rec_text (Done 1 ''f'')"
    using rsm_first_node [OF w, of 0 0] by blast
  let ?r = "rsm_new 0 ''f'' \<lparr>cf_acc = acceptor_fresh ''g'' [], cf_pro = proposer_init ''g'', myvid = 0, cf_first = ''f'',
      cf_me = ''g'', mems = []\<rparr>"
  have j: "joinreq ''f'' \<lparr>vs_vid = 0, vs_seqno = 0\<rparr> p = (JoinReply (rsm_status rs_OK) (rec_text (Done 1 ''f'')), touch 1 p)"
    using p recovers_dump [OF p(4)]
    by (simp add: joinreq_def rs_ismember_touch config_dump_def touch_def ac_value_def ac_dump_def log_dump_def)
  have r: "decided_upto ?r = 0" "\<forall>i. map_at [] (vals (cf_acc (rs_cfg ?r))) i = []"
    by (simp_all add: decided_upto_def acceptor_fresh_def)
  have "length (rec_text (Done 1 ''f'')) < 2 ^ 29" by (simp add: print_nat.simps)
  from join_transfers_views [OF p(4) disjI1 [OF j] this r, of 0] obtain w where
    w: "put_joinres \<lparr>jr_log = rec_text (Done 1 ''f'')\<rparr> marshall_init = Inr w"
      "\<And>bs old. wire_of w bs \<Longrightarrow> \<exists>jr u r'. get_joinres old (received bs) = Inr (jr, u) \<and>
         rsm_join 0 (Some (rsm_status rs_OK, jr)) ?r = Inr (True, r') \<and> decided_upto r' = 1"
    unfolding p(2) by metis
  show ?thesis by (rule exI, rule exI, rule exI, rule exI, rule exI, rule conjI, rule j, rule conjI, rule p(2),
    rule exI, rule conjI, rule w(1)) (intro allI impI, rule w(2))
qed

text \<open>
  C17. A restarted first node does not join again: with a log of decided views that ends in any later view, in which it need not
  be a member any more, it commits view 1, takes itself for a member, skips the join loop, and after the synchronisation
  answers that it is the primary, while its configuration is in the later view.
\<close>

theorem restarted_first_is_primary:
  assumes "recovers a" and "is_word f" and "1 < instance_h a" and "map_at [] (vals a) 1 = f"
  shows "\<exists>r. rsm_init vi i0 (ac_log a) f f = Inr r \<and> myvid (rs_cfg r) = instance_h a \<and> vid_commit r = 1 \<and>
    (\<forall>res. \<exists>r'. recovery_join i0 res r = Inr (True, r') \<and>
       amiprimary (snd (recovery_end (fst (recovery_begin r')) (snd (recovery_begin r')))))"
proof -
  have "same_views (acceptor_fresh f (ac_log a)) (acceptor_fresh f [])" "ac_log (acceptor_fresh f (ac_log a)) = ac_log a"
    by (simp_all add: same_views_def acceptor_fresh_def)
  with recovers_logread [OF assms(1)] obtain b where
    b: "logread i0 (acceptor_fresh f (ac_log a)) = Inr b" "same_views b a" by blast
  have inst: "instance_h b = instance_h a" "map_at [] (vals b) 1 = f" using b(2) assms(4) by (simp_all add: same_views_def)
  have pos: "0 < instance_h a" using assms(3) by unat_arith
  define c where "c = reconstruct \<lparr>cf_acc = b, cf_pro = proposer_init f, myvid = 0, cf_first = f, cf_me = f, mems = []\<rparr>"
  have "acceptor_init i0 True f f (ac_log a) = Inr b"
    using b(1) pos inst(1) by (simp add: acceptor_init_def)
  then have i: "config_init i0 (ac_log a) f f = Inr c" by (simp add: config_init_def c_def)
  have c: "cf_me c = f" "myvid c = instance_h a" "map_at [] (vals (cf_acc c)) 1 = f"
    using pos inst by (simp_all add: c_def reconstruct_def get_view_wo_def ac_value_def)
  have v: "view_of (rsm_new vi f c) 1 = [f]" using c(3) members_word [OF assms(2)] by (simp add: view_of_def)
  define r where "r = touch 1 (touch 0 (touch 1 ((rsm_new vi f c)\<lparr>vid_commit := 1, inviewchange := True\<rparr>)))"
  have r: "rsm_init vi i0 (ac_log a) f f = Inr r" "myvid (rs_cfg r) = instance_h a" "vid_commit r = 1" "primary r = f" "rs_me r = f"
      "view_of r 1 = [f]"
    using v c i commit_first_view [OF v] by (simp_all add: r_def rsm_init_def rs_me_def)
  then have "recovery_join i0 res r = Inr (True, touch 1 r)" for res
    by (simp add: recovery_join_def rs_ismember_touch)
  moreover have "amiprimary (snd (recovery_end (fst (recovery_begin (touch 1 r))) (snd (recovery_begin (touch 1 r)))))"
    using r(4,5) by (simp add: recovery_begin_def recovery_end_def sync_with_backups_def amiprimary_def rs_me_def)
  ultimately show ?thesis using r(1-3) by blast
qed

definition removed_first :: acceptor where
  "removed_first = fst (commit_wo True 3 ''x '' (fst (commit_wo True 2 ''f x ''
     ((loginstance 1 ''f'' ((acceptor_fresh ''f'' [])\<lparr>vals := [1 \<mapsto> ''f'']\<rparr>))\<lparr>instance_h := 1\<rparr>))))"

theorem restarted_first_is_primary_witness:
  "instance_h removed_first = 3 \<and> map_at [] (vals removed_first) 3 = ''x '' \<and>
   (\<exists>r r'. rsm_init 0 0 (ac_log removed_first) ''f'' ''f'' = Inr r \<and> recovery_join 0 None r = Inr (True, r') \<and>
      amiprimary (snd (recovery_end (fst (recovery_begin r')) (snd (recovery_begin r')))))"
proof -
  let ?a = "(loginstance 1 ''f'' ((acceptor_fresh ''f'' [])\<lparr>vals := [1 \<mapsto> ''f'']\<rparr>))\<lparr>instance_h := 1\<rparr>"
  have "acc_start ?a"
    unfolding acc_start_def using acceptor_init_empty [of 0 True "''f''" "''f''"] by (intro exI [of _ 0] exI [of _ True] exI [of _ "''f''"]) (simp add: newline_def)
  then have "recovers ?a" using durable.reach_inv [OF reach_init [of acc_start]] by blast
  then have rec: "recovers removed_first"
    unfolding removed_first_def by (intro commit_wo_recovers) (simp_all add: newline_def)
  have a: "instance_h removed_first = 3" "map_at [] (vals removed_first) 3 = ''x ''" "map_at [] (vals removed_first) 1 = ''f''"
    by (simp_all add: removed_first_def commit_wo_def loginstance_def map_at_def)
  have "is_word ''f''" by (simp add: is_word_def isspace_def)
  from restarted_first_is_primary [OF rec this, of 0 0] a show ?thesis by auto
qed

end
