(* ===== verification/Election.thy ===== *)
theory Election
  imports Config
begin

text \<open>
  The leader election in \<^verbatim>\<open>config.cc\<close>, which extends the state of \<open>config\<close>. Its remote calls are commented out in the
  sources, so that handlers only change the state of their node. A handler yields how often it unlocks \<open>cfg_mutex\<close>, which it
  has locked once. Timers are arguments: whether a wait timed out, and the time. \<open>std::map\<close> is a list of pairs in the
  order of the keys.
\<close>

section \<open>Ordered maps\<close>

type_synonym 'v smap = "(string \<times> 'v) list"

definition sm_at :: "'v \<Rightarrow> 'v smap \<Rightarrow> string \<Rightarrow> 'v" where
  "sm_at d m k = (case map_of m k of None \<Rightarrow> d | Some v \<Rightarrow> v)"

fun sm_put :: "string \<Rightarrow> 'v \<Rightarrow> 'v smap \<Rightarrow> 'v smap" where
  "sm_put k v [] = [(k, v)]"
| "sm_put k v ((k', v') # m) =
     (if k < k' then (k, v) # (k', v') # m else if k = k' then (k, v) # m else (k', v') # sm_put k v m)"

lemma map_of_sm_put [simp]: "map_of (sm_put k v m) = (map_of m)(k \<mapsto> v)"
  by (induction m) (auto simp: fun_eq_iff)

lemma sm_at_put [simp]: "sm_at d (sm_put k v m) k' = (if k' = k then v else sm_at d m k')"
  by (simp add: sm_at_def)

section \<open>State\<close>

datatype epochNum = Epoch (serialNum: u32) (en_id: string)

datatype epochState = EState (es_en: epochNum) (freshness: u32)

record epochView =
  ev_state :: epochState
  expired :: bool

definition es_default :: epochState where
  "es_default = EState (Epoch 0 []) 0"

definition ev_default :: epochView where
  "ev_default = \<lparr>ev_state = es_default, expired = False\<rparr>"

record election = config +
  refreshNum :: u32
  seqNum :: u32
  readNum :: u32
  statusMsgCount :: u32
  ackMsgCount :: u32
  epochCount :: u32
  lastReadStartTime :: u32
  lastCompletedReadStartTime :: u32
  epochStartTime :: u32
  delta :: u32
  theta :: u32
  leader :: string
  isLeader :: bool
  globalMaxEn :: epochNum
  localMaxEn :: epochNum
  leaderEpoch :: epochNum
  registry :: "epochState smap"
  epochViews :: "epochView smap"
  oldEpochViews :: "epochView smap"

definition reg :: "election \<Rightarrow> string \<Rightarrow> epochState" where
  "reg e k = sm_at es_default (registry e) k"

text \<open>
  The part of the constructor for the election. \<open>g\<close>, \<open>l\<close> and \<open>n\<close> are the uninitialised serial numbers of \<open>globalMaxEn\<close>,
  \<open>localMaxEn\<close> and \<open>leaderEpoch\<close>; the strings start empty.
\<close>

definition election_init :: "u32 \<Rightarrow> u32 \<Rightarrow> u32 \<Rightarrow> config \<Rightarrow> election" where
  "election_init g l n c =
     (let r = sm_put (cf_me c) (EState (Epoch 0 (cf_me c)) 0) [] in
      \<lparr>cf_acc = cf_acc c, cf_pro = cf_pro c, myvid = myvid c, cf_first = cf_first c, cf_me = cf_me c, mems = mems c,
       refreshNum = 0, seqNum = 0, readNum = 0, statusMsgCount = 0, ackMsgCount = 0, epochCount = 0, lastReadStartTime = 0,
       lastCompletedReadStartTime = 0, epochStartTime = 0, delta = 3, theta = 3, leader = [], isLeader = False,
       globalMaxEn = Epoch g [], localMaxEn = Epoch l [], leaderEpoch = Epoch n [],
       registry = r, epochViews = sm_put (cf_me c) \<lparr>ev_state = sm_at es_default r (cf_me c), expired = True\<rparr> [], oldEpochViews = []\<rparr>)"

section \<open>Comparisons\<close>

definition epochLess :: "epochNum \<Rightarrow> epochNum \<Rightarrow> bool" where
  "epochLess a b = (if serialNum a < serialNum b \<or> (serialNum a = serialNum b \<and> en_id a < en_id b) then True else False)"

definition epochLessOrEqual :: "epochNum \<Rightarrow> epochNum \<Rightarrow> bool" where
  "epochLessOrEqual a b = (if serialNum a \<le> serialNum b \<or> (serialNum a = serialNum b \<and> en_id a \<le> en_id b) then True else False)"

definition stateLess :: "epochState \<Rightarrow> epochState \<Rightarrow> bool" where
  "stateLess a b =
     (if serialNum (es_en a) < serialNum (es_en b) \<or>
         (serialNum (es_en a) = serialNum (es_en b) \<and> en_id (es_en a) < en_id (es_en b)) \<or>
         (serialNum (es_en a) = serialNum (es_en b) \<and> en_id (es_en a) = en_id (es_en b) \<and> freshness a < freshness b)
      then True else False)"

definition stateLessOrEqual :: "epochState \<Rightarrow> epochState \<Rightarrow> bool" where
  "stateLessOrEqual a b =
     (if serialNum (es_en a) \<le> serialNum (es_en b) \<or>
         (serialNum (es_en a) = serialNum (es_en b) \<and> en_id (es_en a) \<le> en_id (es_en b)) \<or>
         (serialNum (es_en a) = serialNum (es_en b) \<and> en_id (es_en a) = en_id (es_en b) \<and> freshness a \<le> freshness b)
      then True else False)"

definition maxState :: "epochState \<Rightarrow> epochState \<Rightarrow> epochState" where
  "maxState a b = (if stateLess a b then b else a)"

text \<open>\<open>en > max\<close> as the loops write it.\<close>

definition epochGreater :: "epochNum \<Rightarrow> epochNum \<Rightarrow> bool" where
  "epochGreater a b \<longleftrightarrow> serialNum a > serialNum b \<or> (serialNum a = serialNum b \<and> en_id a > en_id b)"

section \<open>Refresh\<close>

definition majority_count :: "election \<Rightarrow> nat" where
  "majority_count e = length (mems e) div 2 + 1"

text \<open>A round of \<open>refresh\<close> up to its wait; the messages of \<open>sendRefresh\<close> are commented out.\<close>

definition refresh_begin :: "election \<Rightarrow> election" where
  "refresh_begin e = e\<lparr>ackMsgCount := 0, refreshNum := refreshNum e + 1\<rparr>"

text \<open>
  A wait of \<open>getEpochWithTimer\<close> that ended with \<open>timedout\<close>, or with the return value \<open>0\<close>, or with another error; the result tells
  whether the loop goes on.
\<close>

datatype timer_result = TimedOut | Signalled | TimerError

definition getEpoch_timer :: "timer_result \<Rightarrow> election \<Rightarrow> bool \<times> election" where
  "getEpoch_timer r e =
     (case r of
        TimedOut \<Rightarrow> (True, e\<lparr>seqNum := seqNum e + 1, epochCount := 0, globalMaxEn := es_en (reg e (cf_me e))\<rparr>)
      | Signalled \<Rightarrow> (False, e)
      | TimerError \<Rightarrow> (True, e))"

text \<open>Up to the loop of \<open>getEpochWithTimer\<close>.\<close>

definition roundTripTimeOut :: "election \<Rightarrow> election" where
  "roundTripTimeOut e =
     (let e = e\<lparr>refreshNum := refreshNum e + 1, isLeader := False,
                epochViews := sm_put (cf_me e) ((sm_at ev_default (epochViews e) (cf_me e))\<lparr>expired := True\<rparr>) (epochViews e),
                epochCount := 0\<rparr>
      in e\<lparr>globalMaxEn := es_en (reg e (cf_me e)), seqNum := seqNum e + 1\<rparr>)"

definition refresh_end :: "timer_result \<Rightarrow> election \<Rightarrow> election" where
  "refresh_end r e = (if r = TimedOut then roundTripTimeOut e else e)"

definition refreshReq :: "string \<Rightarrow> epochState \<Rightarrow> u32 \<Rightarrow> election \<Rightarrow> (int \<times> nat) \<times> election" where
  "refreshReq src rg n e =
     (if serialNum (es_en (reg e src)) < serialNum (es_en rg) \<or>
         (serialNum (es_en (reg e src)) = serialNum (es_en rg) \<and> en_id (es_en (reg e src)) < en_id (es_en rg)) \<or>
         (serialNum (es_en (reg e src)) = serialNum (es_en rg) \<and> en_id (es_en (reg e src)) = en_id (es_en rg) \<and>
          freshness (reg e src) < freshness rg)
      then ((paxos_status px_OK, 1), e\<lparr>registry := sm_put src rg (registry e)\<rparr>)
      else ((paxos_status px_OK, 0), e\<lparr>registry := sm_put src (reg e src) (registry e)\<rparr>))"

definition ackReq :: "string \<Rightarrow> u32 \<Rightarrow> election \<Rightarrow> (int \<times> nat) \<times> election" where
  "ackReq src n e =
     (let e = e\<lparr>ackMsgCount := ackMsgCount e + 1\<rparr> in
      ((paxos_status px_OK, 1),
       if unat (ackMsgCount e) \<ge> majority_count e
       then e\<lparr>registry := sm_put (cf_me e) (EState (es_en (reg e (cf_me e))) (freshness (reg e (cf_me e)) + 1)) (registry e)\<rparr>
       else e))"

section \<open>Epoch numbers\<close>

text \<open>With an empty registry the code dereferences \<open>registry.begin()\<close> past its end.\<close>

definition getEpochNumReq :: "string \<Rightarrow> u32 \<Rightarrow> election \<Rightarrow> fault + ((int \<times> nat) \<times> election)" where
  "getEpochNumReq src n e =
     (case registry e of
        [] \<Rightarrow> Inl OutOfBounds
      | (k, s) # rest \<Rightarrow>
          Inr ((paxos_status px_OK, length rest),
               e\<lparr>localMaxEn := fold (\<lambda>(k, s) m. if epochGreater (es_en s) m then es_en s else m) rest (es_en s)\<rparr>))"

definition retEpochNumReq :: "u32 \<Rightarrow> string \<Rightarrow> u32 \<Rightarrow> epochNum \<Rightarrow> election \<Rightarrow> (int \<times> nat) \<times> election" where
  "retEpochNumReq now src n en e =
     ((paxos_status px_OK, 1),
      if n = seqNum e then
        let e = (if epochGreater en (globalMaxEn e) then e\<lparr>globalMaxEn := en\<rparr> else e);
            e = e\<lparr>epochCount := epochCount e + 1\<rparr>
        in if unat (epochCount e) \<ge> majority_count e
           then e\<lparr>registry := sm_put (cf_me e) (EState (Epoch (serialNum (globalMaxEn e) + 1) (en_id (es_en (reg e (cf_me e)))))
                                                (freshness (reg e (cf_me e)))) (registry e),
                  epochStartTime := now\<rparr>
           else e
      else e)"

section \<open>Collecting\<close>

definition readTimeOut :: "u32 \<Rightarrow> election \<Rightarrow> election" where
  "readTimeOut now e =
     e\<lparr>lastReadStartTime := now, readNum := readNum e + 1, statusMsgCount := 0, oldEpochViews := epochViews e\<rparr>"

definition collectReq :: "string \<Rightarrow> u32 \<Rightarrow> election \<Rightarrow> (int \<times> nat) \<times> election" where
  "collectReq src n e = ((paxos_status px_OK, 1), e)"

text \<open>One iteration of the loop over the views that decides which have expired.\<close>

definition expire :: "epochView smap \<Rightarrow> string \<times> epochView \<Rightarrow> string \<times> epochView" where
  "expire old kv =
     (case kv of (k, v) \<Rightarrow>
        let o' = ev_state (sm_at ev_default old k);
            v = (if stateLessOrEqual (ev_state v) o' then v\<lparr>expired := True\<rparr> else v);
            v = (if epochLess (es_en o') (es_en (ev_state v)) then v\<lparr>expired := False\<rparr> else v)
        in (k, v))"

text \<open>The loop for \<open>minEpoch\<close>; \<open>inited\<close> is a parameter, which the code leaves false.\<close>

definition min_epoch :: "bool \<Rightarrow> epochView smap \<Rightarrow> epochNum \<Rightarrow> epochNum" where
  "min_epoch inited views m0 =
     fold (\<lambda>(k, v) m. if (\<not> expired v \<and> \<not> inited) \<or> (\<not> expired v \<and> epochLess (es_en (ev_state v)) m)
                     then es_en (ev_state v) else m) views m0"

text \<open>\<open>m0\<close> is the uninitialised \<open>minEpoch\<close>. \<open>oldEpochViews[k]\<close> creates missing entries.\<close>

definition statusReq :: "epochNum \<Rightarrow> string \<Rightarrow> u32 \<Rightarrow> epochState smap \<Rightarrow> election \<Rightarrow> (int \<times> nat) \<times> election" where
  "statusReq m0 src n srcReg e =
     ((paxos_status px_OK, 1),
      if n = readNum e then
        let e = e\<lparr>epochViews := map (\<lambda>(k, v). (k, v\<lparr>ev_state := maxState (ev_state v) (sm_at es_default srcReg k)\<rparr>)) (epochViews e),
                  statusMsgCount := statusMsgCount e + 1\<rparr>
        in if unat (statusMsgCount e) \<ge> majority_count e then
             let e = e\<lparr>lastCompletedReadStartTime := lastReadStartTime e\<rparr>;
                 e = e\<lparr>epochViews := map (expire (oldEpochViews e)) (epochViews e),
                       oldEpochViews := fold (\<lambda>(k, v) old. sm_put k (sm_at ev_default old k) old) (epochViews e) (oldEpochViews e)\<rparr>;
                 inited = False;
                 m = min_epoch inited (epochViews e) m0;
                 e = e\<lparr>leaderEpoch := (if inited then m else Epoch 0 [])\<rparr>
             in e\<lparr>leader := en_id (leaderEpoch e)\<rparr>
           else e
      else e)"

definition becomeLeader :: "election \<Rightarrow> election" where
  "becomeLeader e =
     (if (serialNum (leaderEpoch e) = serialNum (es_en (reg e (cf_me e))) \<and> en_id (leaderEpoch e) = en_id (es_en (reg e (cf_me e)))) \<and>
         lastCompletedReadStartTime e - epochStartTime e \<ge> 2 * delta e + 3 * theta e
      then e\<lparr>isLeader := True\<rparr> else e)"

section \<open>Orders\<close>

text \<open>\<open>epochLess\<close> and \<open>stateLess\<close> are the strict parts of linear orders.\<close>

instantiation epochNum :: linorder
begin

definition less_epochNum :: "epochNum \<Rightarrow> epochNum \<Rightarrow> bool" where
  "less_epochNum a b = epochLess a b"

definition less_eq_epochNum :: "epochNum \<Rightarrow> epochNum \<Rightarrow> bool" where
  "less_eq_epochNum a b \<longleftrightarrow> epochLess a b \<or> a = b"

instance
  by standard (auto simp: less_epochNum_def less_eq_epochNum_def epochLess_def epochNum.expand split: if_splits)

end

instantiation epochState :: linorder
begin

definition less_epochState :: "epochState \<Rightarrow> epochState \<Rightarrow> bool" where
  "less_epochState a b = stateLess a b"

definition less_eq_epochState :: "epochState \<Rightarrow> epochState \<Rightarrow> bool" where
  "less_eq_epochState a b \<longleftrightarrow> stateLess a b \<or> a = b"

instance
  by standard (auto simp: less_epochState_def less_eq_epochState_def stateLess_def epochState.expand epochNum.expand split: if_splits)

end

lemma maxState_max: "maxState a b = max a b"
  by (auto simp: maxState_def max_def less_eq_epochState_def)

text \<open>The two weak comparisons ignore everything but the serial number.\<close>

lemma weak_comparisons:
  "epochLessOrEqual a b \<longleftrightarrow> serialNum a \<le> serialNum b"
  "stateLessOrEqual s t \<longleftrightarrow> serialNum (es_en s) \<le> serialNum (es_en t)"
  by (auto simp: epochLessOrEqual_def stateLessOrEqual_def)

section \<open>Runs of the election\<close>

text \<open>Messages carry the identity of a node, which is never empty; views change at any time.\<close>

inductive el_step :: "election \<Rightarrow> election \<Rightarrow> bool" where
  el_refresh: "el_step e (refresh_begin e)"
| el_refreshed: "el_step e (refresh_end r e)"
| el_timer: "getEpoch_timer r e = (b, e') \<Longrightarrow> el_step e e'"
| el_refreshReq: "\<lbrakk>en_id (es_en rg) \<noteq> []; refreshReq src rg n e = (a, e')\<rbrakk> \<Longrightarrow> el_step e e'"
| el_ackReq: "ackReq src n e = (a, e') \<Longrightarrow> el_step e e'"
| el_getEpochNumReq: "getEpochNumReq src n e = Inr (a, e') \<Longrightarrow> el_step e e'"
| el_retEpochNumReq: "retEpochNumReq now src n en e = (a, e') \<Longrightarrow> el_step e e'"
| el_read: "el_step e (readTimeOut now e)"
| el_collectReq: "collectReq src n e = (a, e') \<Longrightarrow> el_step e e'"
| el_statusReq: "statusReq m0 src n srcReg e = (a, e') \<Longrightarrow> el_step e e'"
| el_becomeLeader: "el_step e (becomeLeader e)"
| el_view: "el_step e (e\<lparr>mems := m, myvid := v\<rparr>)"

definition el_start :: "election \<Rightarrow> bool" where
  "el_start e \<longleftrightarrow> (\<exists>g l n c. cf_me c \<noteq> [] \<and> e = election_init g l n c)"

definition leaderless :: "election \<Rightarrow> bool" where
  "leaderless e \<longleftrightarrow> \<not> isLeader e \<and> leader e = [] \<and> en_id (leaderEpoch e) = [] \<and> en_id (es_en (reg e (cf_me e))) \<noteq> []"

lemma leaderless_step:
  assumes "leaderless e" and "el_step e e'"
  shows "leaderless e'"
  using assms(2)
proof cases
  case (el_refreshReq rg src n a)
  then show ?thesis using assms(1) by (auto simp: leaderless_def refreshReq_def reg_def split: if_splits)
next
  case (el_ackReq src n a)
  then show ?thesis using assms(1) by (auto simp: leaderless_def ackReq_def reg_def Let_def split: if_splits)
next
  case (el_retEpochNumReq now src n en a)
  then show ?thesis using assms(1) by (auto simp: leaderless_def retEpochNumReq_def reg_def Let_def split: if_splits)
next
  case (el_statusReq m0 src n srcReg a)
  then show ?thesis using assms(1) by (auto simp: leaderless_def statusReq_def reg_def Let_def split: if_splits)
next
  case el_becomeLeader
  then show ?thesis using assms(1) by (auto simp: leaderless_def becomeLeader_def)
qed (use assms(1) in \<open>auto simp: leaderless_def refresh_begin_def refresh_end_def roundTripTimeOut_def getEpoch_timer_def
      getEpochNumReq_def readTimeOut_def collectReq_def reg_def Let_def split: timer_result.splits list.splits prod.splits\<close>)

interpretation election: step_invariant el_start el_step leaderless
proof unfold_locales
  fix e assume "el_start e"
  then show "leaderless e" by (auto simp: el_start_def leaderless_def election_init_def reg_def sm_at_def Let_def)
qed (rule leaderless_step)

text \<open>\<open>getEpochNumReq\<close> finds the highest epoch number of the registry.\<close>

lemma getEpochNumReq_max:
  assumes "getEpochNumReq src n e = Inr (a, e')"
  shows "localMaxEn e' = Max (set (map (\<lambda>p. es_en (snd p)) (registry e)))"
proof -
  have step: "(\<lambda>(k :: string, s) m. if epochGreater (es_en s) m then es_en s else m) = (\<lambda>p m. max (es_en (snd p)) m)"
    by (auto simp: fun_eq_iff max_def less_eq_epochNum_def epochGreater_def epochLess_def epochNum.expand not_less_iff_gr_or_eq)
  have "fold (\<lambda>p m. max (es_en (snd p)) m) rest m = fold max (map (\<lambda>p. es_en (snd p)) rest) m" for rest :: "epochState smap" and m
    by (induction rest arbitrary: m) simp_all
  then show ?thesis
    using assms by (auto simp: getEpochNumReq_def step Max.set_eq_fold [symmetric] split: list.splits)
qed

text \<open>What a node knows of another node never gets older.\<close>

lemma registry_monotone:
  assumes "el_step e e'" and "src \<noteq> cf_me e"
  shows "reg e src \<le> reg e' src \<and> cf_me e' = cf_me e"
  using assms(1)
proof cases
  case (el_refreshReq rg s n a)
  then show ?thesis
    by (auto simp: refreshReq_def reg_def less_eq_epochState_def stateLess_def split: if_splits)
next
  case (el_ackReq s n a)
  then show ?thesis using assms(2) by (auto simp: ackReq_def reg_def Let_def split: if_splits)
next
  case (el_retEpochNumReq now s n en a)
  then show ?thesis using assms(2) by (auto simp: retEpochNumReq_def reg_def Let_def split: if_splits)
next
  case (el_statusReq m0 s n srcReg a)
  then show ?thesis by (auto simp: statusReq_def reg_def Let_def split: if_splits)
qed (auto simp: refresh_begin_def refresh_end_def roundTripTimeOut_def getEpoch_timer_def becomeLeader_def
      getEpochNumReq_def readTimeOut_def collectReq_def reg_def Let_def split: timer_result.splits list.splits prod.splits)

text \<open>
  C40. No node ever becomes the leader: \<open>statusReq\<close> never sets \<open>inited\<close>, so that the leader is always the empty name, and
  \<open>becomeLeader\<close> changes nothing, whatever messages arrive and whatever the timers do. What a node knows about the others is
  monotone: no step replaces the epoch and freshness of another node by an older one.
\<close>

theorem election_no_leader:
  assumes "reach el_start el_step e"
  shows "\<not> isLeader e \<and> leader e = [] \<and> becomeLeader e = e \<and>
    (\<forall>e' src. el_step e e' \<and> src \<noteq> cf_me e \<longrightarrow> \<not> stateLess (reg e' src) (reg e src))"
proof -
  have l: "leaderless e" by (rule election.reach_inv [OF assms])
  have "becomeLeader e = e" using l by (auto simp: becomeLeader_def leaderless_def)
  moreover have "\<not> stateLess (reg e' src) (reg e src)" if "el_step e e'" "src \<noteq> cf_me e" for e' src
    using registry_monotone [OF that] unfolding less_epochState_def [symmetric] by (auto simp: not_less)
  ultimately show ?thesis using l by (auto simp: leaderless_def)
qed

definition demo_election :: election where
  "demo_election = snd (statusReq (Epoch 0 []) ''a'' 1 [] (readTimeOut 100 (election_init 0 0 0
     \<lparr>cf_acc = acceptor_fresh ''a'' [], cf_pro = proposer_init ''a'', myvid = 1, cf_first = ''a'', cf_me = ''a'', mems = [''a'']\<rparr>)))"

theorem election_no_leader_witness:
  "lastCompletedReadStartTime demo_election = 100 \<and> reach el_start el_step demo_election \<and> becomeLeader demo_election = demo_election"
proof -
  let ?c = "\<lparr>cf_acc = acceptor_fresh ''a'' [], cf_pro = proposer_init ''a'', myvid = 1, cf_first = ''a'', cf_me = ''a'', mems = [''a'']\<rparr>"
  have "el_start (election_init 0 0 0 ?c)" unfolding el_start_def by (intro exI [of _ 0] exI [of _ ?c]) simp
  then have 0: "reach el_start el_step (election_init 0 0 0 ?c)" by (rule reach_init)
  have 1: "reach el_start el_step (readTimeOut 100 (election_init 0 0 0 ?c))" by (rule reach_step [OF 0 el_read])
  obtain a where "statusReq (Epoch 0 []) ''a'' 1 [] (readTimeOut 100 (election_init 0 0 0 ?c)) = (a, demo_election)"
    by (cases "statusReq (Epoch 0 []) ''a'' 1 [] (readTimeOut 100 (election_init 0 0 0 ?c))") (simp add: demo_election_def)
  then have 2: "reach el_start el_step demo_election" using 1 el_statusReq reach_step by metis
  moreover have "lastCompletedReadStartTime demo_election = 100"
    by (simp add: demo_election_def statusReq_def readTimeOut_def election_init_def majority_count_def Let_def)
  ultimately show ?thesis using election_no_leader [OF 2] by blast
qed

end
