(* ===== verification/Spec2Isabelle.thy ===== *)
theory Spec2Isabelle
  imports Thr_Pool Rpc_Tester Shared_FS Lock_Tester Paxos_Agreement Rsm Election
begin

text \<open>
  \<^bold>\<open>Verification of the distributed file system in\<close> \<^verbatim>\<open>src/\<close>

  The program is a file system whose clients share their files through an extent server and a lock server, with an RPC library
  below and a replicated configuration beside it. A request of the kernel reaches \<^verbatim>\<open>fuse.cc\<close>, which calls
  \<^verbatim>\<open>yfs_client.cc\<close>; that keeps files and directories as extents of \<^verbatim>\<open>extent_client.cc\<close>, a write-back cache in front of
  \<^verbatim>\<open>extent_server.cc\<close>, under locks of \<^verbatim>\<open>lock_client_cache.cc\<close>, which caches locks of \<^verbatim>\<open>lock_server_cache.cc\<close> and flushes an
  extent before its lock goes back. All calls between processes use \<^verbatim>\<open>rpc/\<close>. Membership is decided by \<^verbatim>\<open>paxos.cc\<close> with the log
  of \<^verbatim>\<open>log.cc\<close>, kept as views by \<^verbatim>\<open>config.cc\<close>, and used by \<^verbatim>\<open>rsm.cc\<close>.

  \<^bold>\<open>How code is modelled.\<close> A class is a record, a method a function on it; a reference parameter is passed in and handed back.
  A result of type \<open>fault + 'a\<close> is \<open>Inl\<close> where the code stops: a failed \<open>VERIFY\<close>, \<open>exit\<close>, or an access outside
  a buffer or to a deleted object. Machine integers are words of their width. Objects that are shared and deleted live in explicit heaps.
  A method that waits on a condition variable, or that gives up its mutex for a remote call, is one definition per critical
  section; a step relation then runs any number of such sections in any order, and \<open>reach\<close> with the locale \<open>step_invariant\<close> of
  \<open>DS_Prelude\<close> proves what holds in all reachable states. Results of system calls, of \<open>random\<close>, of clocks and timers, and the content
  of uninitialised variables are arguments, so that a theorem holds for all of them.

  \<^bold>\<open>Theories, from the bottom up.\<close>

  \<^item> \<open>DS_Prelude\<close>, \<open>Text_Streams\<close>: faults, words, \<open>std::map\<close>, reachability; formatted text of the C++ library with the round trips between
    printing and reading.
  \<^item> \<open>Marshall\<close>, \<open>Wire_Codec\<close> (\<^verbatim>\<open>rpc/marshall.h\<close>, end of \<^verbatim>\<open>rpc/rpc.cc\<close>): buffers, headers and all \<open><<\<close> and \<open>>>\<close>
    operators. The locale \<open>codec\<close> is the contract of a pair of operators: what is written is read back, cut input is rejected, nothing is
    accessed outside the buffer. It is interpreted for every basic type, and in \<open>Messages\<close> for the structures of
    \<^verbatim>\<open>extent_protocol.h\<close>, \<^verbatim>\<open>paxos_protocol.h\<close> and \<^verbatim>\<open>rsm_protocol.h\<close>.
  \<^item> \<open>Pollmgr\<close>, \<open>Connection\<close>, \<open>Thr_Pool\<close> (\<^verbatim>\<open>rpc/pollmgr.cc\<close>, \<^verbatim>\<open>rpc/connection.cc\<close>, \<^verbatim>\<open>rpc/fifo.h\<close>, \<^verbatim>\<open>rpc/thr_pool.cc\<close>):
    watched descriptors, frames from partial reads and writes, reference counts, the job queue (locale \<open>bounded_fifo\<close>) and shutdown.
  \<^item> \<open>Rpc_Aux\<close>, \<open>Rpc_Client\<close>, \<open>Rpc_Server\<close> (\<^verbatim>\<open>rpc/rpc.h\<close>, \<^verbatim>\<open>rpc/rpc.cc\<close>): deadlines, the reply window of the client, which acknowledges
    exactly the finished requests, the end of the retry loop, at-most-once execution and the ownership of saved replies, for any PDUs and any
    interleaving of dispatch threads.
  \<^item> \<open>Rpc_Call\<close>, \<open>Rpc_Tester\<close> (\<^verbatim>\<open>rpc/rpc.h\<close>, \<^verbatim>\<open>rpc/rpctest.cc\<close>): a whole call over both ends. The locale \<open>remote_proc\<close> has the codecs
    of arguments and result; its lemmas show that remote calls have the effect and the results of local ones. The tests of
    \<^verbatim>\<open>rpctest.cc\<close> that one client can run follow.
  \<^item> \<open>Lock_Server\<close> (\<^verbatim>\<open>lock_server.cc\<close>, \<^verbatim>\<open>lock_client.cc\<close>) and \<open>Lock_Cache\<close> (\<^verbatim>\<open>lock_server_cache.cc\<close>, \<^verbatim>\<open>lock_client_cache.cc\<close>):
    mutual exclusion of the plain and of the caching lock service. \<open>Lock_Calls\<close> has whole uninterrupted calls of the caching client,
    with the proof that they are runs of the interleaved model; \<open>Lock_Tester\<close> (\<^verbatim>\<open>lock_tester.cc\<close>) runs the tests of the lock service on it.
  \<^item> \<open>Extent\<close> (\<^verbatim>\<open>extent_server.cc\<close>, \<^verbatim>\<open>extent_client.cc\<close>): the locale \<open>extent_service\<close> is what the cache needs of the server; under the
    lock discipline any number of caching clients are coherent.
  \<^item> \<open>Split\<close>, \<open>Yfs\<close> (\<^verbatim>\<open>split.h\<close>, \<^verbatim>\<open>yfs_client.cc\<close>): directories as text and files as byte arrays over the locale \<open>file_store\<close>, which is
    interpreted by one client with its cache (\<open>lfs\<close>) and by several clients (\<open>sfs\<close>).
  \<^item> \<open>Fuse\<close>, \<open>Fuse_Tree\<close>, \<open>Fuse_Locks\<close> (\<^verbatim>\<open>fuse.cc\<close>): the handlers, the abstract file system \<open>fs_op\<close> that they simulate, and
    the lock discipline that they follow.
  \<^item> \<open>Shared_Store\<close>, \<open>Shared_FS\<close>: several FUSE servers with their own caches on one extent server and one lock server; requests
    that run one after the other are answered as by one file system.
  \<^item> \<open>Paxos_Log\<close>, \<open>Paxos\<close>, \<open>Paxos_Agreement\<close> (\<^verbatim>\<open>log.cc\<close>, \<^verbatim>\<open>paxos.cc\<close>): the log as text and its recovery, acceptor and proposer,
    and agreement under loss, delay, repetition and crashes, with the late accept request that breaks it.
  \<^item> \<open>Handle\<close>, \<open>Config\<close>, \<open>Rsm\<close>, \<open>Election\<close> (\<^verbatim>\<open>handle.cc\<close>, \<^verbatim>\<open>config.cc\<close>, \<^verbatim>\<open>rsm.cc\<close>): reference counts of cached clients, views and their
    upcalls, the primary and joining, and the leader election.

  \<^bold>\<open>What the theorems show.\<close> Each theory ends with its main theorems, labelled C1 to C40. The first ones span components: agreement
  of Paxos, coherence of the extent caches, at-most-once execution, transparency of remote calls, one file system for several clients, the
  abstract file system behind one client, mutual exclusion, and the lock discipline of the handlers. Theorems of kind error say what the code
  does where it does not do what it means to: two acceptors that decide differently after a late request, a stale view, a lock held twice
  after a failed call, an extent removed by a flush, a saved reply that is freed while it is sent.

  \<^bold>\<open>Bounds and fuel.\<close> Loops are structural recursion or have a termination proof. The only fuel is in \<open>call1_rounds\<close> of \<open>Rpc_Client\<close>, the
  number of rounds of the retry loop of \<open>call1\<close>; \<open>call1_gives_up\<close> proves how much is enough, from the doubling of the waiting time. Lengths are
  bounded where the code keeps them in an \<open>int\<close>: strings below \<open>2 ^ 31\<close> bytes, buffers below \<open>2 ^ 30\<close>, so that doubling a capacity does not
  overflow, PDUs up to \<open>MAX_PDU\<close>. Request numbers are 32 bits; theorems about sequences of calls assume that they do not wrap around.

  \<^bold>\<open>Assumptions on code outside the sources.\<close> \<open>Rpc_Call\<close> takes the network as a function that delivers PDUs unchanged (\<open>faithful\<close>). The FUSE
  library is a record of the functions that the handlers use. \<open>inet_addr\<close> and \<open>gethostbyname\<close> are arguments.

  \<^bold>\<open>Not modelled.\<close>

  \<^item> \<^verbatim>\<open>test-lab-3-b.c\<close>, \<^verbatim>\<open>test-lab-3-c.c\<close>: they use a mounted file system through the kernel, which is not in the sources.
  \<^item> \<open>concurrent_test\<close>, \<open>lossy_test\<close> and \<open>failure_test\<close> of \<^verbatim>\<open>rpc/rpctest.cc\<close>: they run threads against loss and restarts of the server; the
    step relations of \<open>Rpc_Client\<close> and \<open>Rpc_Server\<close> cover interleaving and loss at each end, but not the two ends together.
  \<^item> \<^verbatim>\<open>rsm_tester.cc\<close>, \<^verbatim>\<open>rsmtest_client.cc\<close>, \<^verbatim>\<open>lock_demo.cc\<close>, \<^verbatim>\<open>test.cc\<close>, \<^verbatim>\<open>lock_smain.cc\<close>, \<^verbatim>\<open>extent_smain.cc\<close> and the part of
    \<open>main\<close> in \<^verbatim>\<open>fuse.cc\<close> that mounts the file system: command lines and process start.
  \<^item> \<^verbatim>\<open>rpc/method_thread.h\<close>, \<^verbatim>\<open>rpc/slock.h\<close>: thread creation and mutexes; they appear as steps and as the borders of definitions.
  \<^item> \<^verbatim>\<open>rpc/jsl_log.cc\<close>, \<^verbatim>\<open>tprintf.h\<close>, \<^verbatim>\<open>gettime.cc\<close>: messages and the clock of one platform.
  \<^item> \<^verbatim>\<open>rsm_state_transfer.h\<close>: an interface without implementation. The request handling and the state transfer of \<^verbatim>\<open>rsm.cc\<close> are
    stubs in the sources, and modelled as such.
\<close>

end
